(* ===== verification/Prelude.thy ===== *)
theory Prelude
  imports Complex_Main
begin

text \<open>
  Shared vocabulary of the arithmetic-api development: the collection of evaluation
  rules used by the witnesses, sequential composition of computations that may raise
  (the model of Python exceptions propagating), and the facts about powers of two over
  \<open>int\<close> and \<open>rat\<close> that the binary64 model (theory \<open>Float64\<close>) is built on.
\<close>

named_theorems eval_simps
  "definitions unfolded when a witness evaluates a request on a concrete input"

section \<open>Computations that may raise\<close>

text \<open>
  A Python statement either produces a value (\<open>Inr\<close>) or raises (\<open>Inl\<close>); the next
  statement runs only on a value. \<open>sbind\<close> is that sequencing, written as a plain
  function so that the handlers read in the source's order.
\<close>

definition sbind :: "'e + 'a \<Rightarrow> ('a \<Rightarrow> 'e + 'b) \<Rightarrow> 'e + 'b" where
  "sbind r f = (case r of Inl e \<Rightarrow> Inl e | Inr v \<Rightarrow> f v)"

lemma sbind_Inl [simp]: "sbind (Inl e) f = Inl e"
  by (simp add: sbind_def)

lemma sbind_Inr [simp]: "sbind (Inr v) f = f v"
  by (simp add: sbind_def)

lemma sbind_eq_Inr_iff:
  "sbind r f = Inr w \<longleftrightarrow> (\<exists>v. r = Inr v \<and> f v = Inr w)"
  by (cases r) auto

lemma sbind_eq_Inl_iff:
  "sbind r f = Inl e \<longleftrightarrow> r = Inl e \<or> (\<exists>v. r = Inr v \<and> f v = Inl e)"
  by (cases r) auto

section \<open>Integer division and powers of two\<close>

lemma int_div_bounds:
  fixes n d y z :: int
  assumes "0 < d" "y \<le> n div d" "n div d < z"
  shows "d * y \<le> n \<and> n < d * z"
proof -
  have r: "0 \<le> n mod d" "n mod d < d" using assms(1) by simp_all
  have a: "d * y \<le> d * (n div d)" using assms(1,2) by simp
  have b: "d * (n div d) + d \<le> d * z"
    using assms(1,3) mult_left_mono [of "n div d + 1" z d] by (simp add: algebra_simps)
  have c: "n = d * (n div d) + n mod d" by simp
  from a b c r show ?thesis by linarith
qed

lemma of_int_mult_pow_le:
  "(of_int x * 2 ^ n \<le> (of_int y :: rat)) \<longleftrightarrow> x * 2 ^ n \<le> y"
  "(of_int x \<le> (of_int y * 2 ^ n :: rat)) \<longleftrightarrow> x \<le> y * 2 ^ n"
proof -
  have "(of_int (x * 2 ^ n) :: rat) = of_int x * 2 ^ n"
    "(of_int (y * 2 ^ n) :: rat) = of_int y * 2 ^ n"
    by simp_all
  then show "(of_int x * 2 ^ n \<le> (of_int y :: rat)) \<longleftrightarrow> x * 2 ^ n \<le> y"
    "(of_int x \<le> (of_int y * 2 ^ n :: rat)) \<longleftrightarrow> x \<le> y * 2 ^ n"
    by (metis of_int_le_iff)+
qed

lemma two_powi_nonneg: "0 \<le> k \<Longrightarrow> (2::rat) powi k = of_int (2 ^ nat k)"
  by (simp add: power_int_nonneg_exp)

lemma two_powi_neg: "k < 0 \<Longrightarrow> (2::rat) powi k = 1 / of_int (2 ^ nat (- k))"
proof -
  assume "k < 0"
  then have "(2::rat) powi k = 1 / 2 powi (- k)"
    using power_int_minus_divide [of 2 "- k"] by simp
  with \<open>k < 0\<close> show ?thesis by (simp add: power_int_nonneg_exp)
qed

lemma two_powi_pos [simp]: "0 < (2::rat) powi k"
  by (simp add: power_int_def)

lemma two_powi_mono: "i \<le> j \<Longrightarrow> (2::rat) powi i \<le> 2 powi j"
  by (rule power_int_increasing) simp_all

lemma two_powi_less_imp_less: "(2::rat) powi i < 2 powi j \<Longrightarrow> i < j"
  using two_powi_mono [of j i] by fastforce

lemma powi_int_cases:
  "(b::rat) \<noteq> 0 \<Longrightarrow> b powi k = (if 0 \<le> k then b ^ nat k else 1 / b ^ nat (- k))"
  by (simp add: power_int_def power_inverse divide_inverse)

lemma two_pow_powi: "(2::rat) ^ n * 2 powi k = 2 powi (int n + k)"
  by (simp add: power_int_add)

end
