(* ===== verification/Float64.thy ===== *)
theory Float64
  imports Prelude
begin

text \<open>
  Python's \<open>float\<close> is an IEEE-754 binary64 number, and every \<open>float\<close> operation the
  handlers perform (the \<open>+\<close>, \<open>-\<close>, \<open>*\<close>, \<open>/\<close> of \<open>calculate\<close> in
  \<open>src/api/app.py\<close> and of the four routes in \<open>src/api/main.py\<close>, and the conversions
  \<open>float(x)\<close>) is the exact result rounded to nearest, ties to even. This theory is an
  executable model of that arithmetic.
  \<^item> \<open>float64\<close>: a finite value \<open>Fin s m e\<close> is \<open>(-1)^s * m * 2^e\<close> with an integer
    significand \<open>m\<close> (canonical form: \<open>wf_float\<close>), or an infinity, or NaN;
  \<^item> \<open>exact\<close>: an exact intermediate result \<open>Exact n d e = n / d * 2^e\<close>;
  \<^item> \<open>round_exact\<close>: rounding of an exact value to binary64, computed with integer
    operations only (floor of the binary logarithm from bit lengths, then an integer
    division rounded half to even);
  \<^item> \<open>float_add\<close>, \<open>float_sub\<close>, \<open>float_mul\<close>, \<open>float_truediv\<close>: the IEEE operations
    with their NaN, infinity and signed-zero rules, and Python's \<open>ZeroDivisionError\<close>
    for a zero divisor (\<open>None\<close> here);
  \<^item> \<open>float_of_int\<close>, \<open>int_truediv\<close>: CPython's correctly rounded \<open>float(int)\<close> and
    \<open>int / int\<close>; an infinite result is the \<open>OverflowError\<close> those raise.
  The lemmas show that rounding always yields a canonical binary64 (\<open>wf_round_exact\<close>)
  and that every operation keeps the invariant.
\<close>

section \<open>Representation\<close>

datatype float64 = Fin bool int int | Inf bool | NaN

datatype exact = Exact int int int

fun wf_float :: "float64 \<Rightarrow> bool" where
  "wf_float (Fin s m e) =
     (0 \<le> m \<and> m < 2 ^ 53 \<and> -1074 \<le> e \<and> e \<le> 971 \<and> (2 ^ 52 \<le> m \<or> e = -1074))"
| "wf_float (Inf s) = True"
| "wf_float NaN = True"

fun fval :: "float64 \<Rightarrow> rat" where
  "fval (Fin s m e) = (if s then - 1 else 1) * (of_int m * 2 powi e)"
| "fval (Inf s) = 0"
| "fval NaN = 0"

fun is_finite :: "float64 \<Rightarrow> bool" where
  "is_finite (Fin s m e) = True"
| "is_finite (Inf s) = False"
| "is_finite NaN = False"

fun float_is_zero :: "float64 \<Rightarrow> bool" where
  "float_is_zero (Fin s m e) = (m = 0)"
| "float_is_zero (Inf s) = False"
| "float_is_zero NaN = False"

fun exact_val :: "exact \<Rightarrow> rat" where
  "exact_val (Exact n d e) = of_int n / of_int d * 2 powi e"

section \<open>Integer helpers for rounding\<close>

function ilog2 :: "int \<Rightarrow> int" where
  "ilog2 n = (if n < 2 then 0
              else if n < 2 ^ 64 then 1 + ilog2 (n div 2)
              else 64 + ilog2 (n div 2 ^ 64))"
  by pat_completeness auto
termination by (relation "measure nat") auto

definition pow2_le :: "int \<Rightarrow> int \<Rightarrow> int \<Rightarrow> bool" where
  "pow2_le d a k = (if 0 \<le> k then d * 2 ^ nat k \<le> a else d \<le> a * 2 ^ nat (- k))"

definition flog2 :: "int \<Rightarrow> int \<Rightarrow> int" where
  "flog2 a d = (let k = ilog2 a - ilog2 d in if pow2_le d a k then k else k - 1)"

definition round_div :: "int \<Rightarrow> int \<Rightarrow> int" where
  "round_div n d = (let f = n div d; r = n mod d in
     if 2 * r < d then f else if d < 2 * r then f + 1 else if even f then f else f + 1)"

definition round_scaled :: "int \<Rightarrow> int \<Rightarrow> int \<Rightarrow> int" where
  "round_scaled a b k =
     (if 0 \<le> k then round_div (a * 2 ^ nat k) b else round_div a (b * 2 ^ nat (- k)))"

section \<open>Rounding to binary64\<close>

text \<open>
  The target exponent \<open>E\<close> keeps 53 significant bits (\<open>flog2 a b + e - 52\<close>) but not
  below the subnormal exponent \<open>-1074\<close>; a rounding carry to \<open>2^53\<close> moves to the
  next binade, and an exponent above 971 (a value of \<open>2^1024\<close> or more after rounding)
  is an infinity.
\<close>

fun round_exact :: "exact \<Rightarrow> float64" where
  "round_exact (Exact n d e) =
     (if n = 0 \<or> d = 0 then Fin False 0 (-1074) else
      let s = ((n < 0) \<noteq> (d < 0)); a = \<bar>n\<bar>; b = \<bar>d\<bar>;
          E = max (flog2 a b + e - 52) (-1074);
          m = round_scaled a b (e - E)
      in if m = 2 ^ 53 then (if 971 < E + 1 then Inf s else Fin s (2 ^ 52) (E + 1))
         else if 971 < E then Inf s else Fin s m E)"

section \<open>Arithmetic\<close>

fun to_exact :: "float64 \<Rightarrow> exact" where
  "to_exact (Fin s m e) = Exact (if s then - m else m) 1 e"
| "to_exact (Inf s) = Exact 0 1 0"
| "to_exact NaN = Exact 0 1 0"

fun exact_add :: "exact \<Rightarrow> exact \<Rightarrow> exact" where
  "exact_add (Exact n1 d1 e1) (Exact n2 d2 e2) =
     (let e = min e1 e2
      in Exact (n1 * d2 * 2 ^ nat (e1 - e) + n2 * d1 * 2 ^ nat (e2 - e)) (d1 * d2) e)"

fun exact_mul :: "exact \<Rightarrow> exact \<Rightarrow> exact" where
  "exact_mul (Exact n1 d1 e1) (Exact n2 d2 e2) = Exact (n1 * n2) (d1 * d2) (e1 + e2)"

fun exact_div :: "exact \<Rightarrow> exact \<Rightarrow> exact" where
  "exact_div (Exact n1 d1 e1) (Exact n2 d2 e2) = Exact (n1 * d2) (d1 * n2) (e1 - e2)"

fun exact_num :: "exact \<Rightarrow> int" where
  "exact_num (Exact n d e) = n"

fun float_neg :: "float64 \<Rightarrow> float64" where
  "float_neg (Fin s m e) = Fin (\<not> s) m e"
| "float_neg (Inf s) = Inf (\<not> s)"
| "float_neg NaN = NaN"

text \<open>
  An exact zero sum is \<open>-0.0\<close> only when both operands are zeros of negative sign, and
  \<open>+0.0\<close> otherwise (round to nearest).
\<close>

fun float_add :: "float64 \<Rightarrow> float64 \<Rightarrow> float64" where
  "float_add NaN y = NaN"
| "float_add (Inf s) NaN = NaN"
| "float_add (Fin s m e) NaN = NaN"
| "float_add (Inf s) (Inf t) = (if s = t then Inf s else NaN)"
| "float_add (Inf s) (Fin t n f) = Inf s"
| "float_add (Fin s m e) (Inf t) = Inf t"
| "float_add (Fin s m e) (Fin t n f) =
     (let x = exact_add (to_exact (Fin s m e)) (to_exact (Fin t n f))
      in if exact_num x = 0 then Fin (m = 0 \<and> n = 0 \<and> s \<and> t) 0 (-1074)
         else round_exact x)"

definition float_sub :: "float64 \<Rightarrow> float64 \<Rightarrow> float64" where
  "float_sub x y = float_add x (float_neg y)"

fun float_mul :: "float64 \<Rightarrow> float64 \<Rightarrow> float64" where
  "float_mul NaN y = NaN"
| "float_mul (Inf s) NaN = NaN"
| "float_mul (Fin s m e) NaN = NaN"
| "float_mul (Inf s) (Inf t) = Inf (s \<noteq> t)"
| "float_mul (Inf s) (Fin t n f) = (if n = 0 then NaN else Inf (s \<noteq> t))"
| "float_mul (Fin s m e) (Inf t) = (if m = 0 then NaN else Inf (s \<noteq> t))"
| "float_mul (Fin s m e) (Fin t n f) =
     (if m = 0 \<or> n = 0 then Fin (s \<noteq> t) 0 (-1074)
      else round_exact (exact_mul (to_exact (Fin s m e)) (to_exact (Fin t n f))))"

text \<open>
  IEEE division for a divisor that is not zero; CPython's \<open>float.__truediv__\<close> tests
  \<open>b == 0.0\<close> first and raises \<open>ZeroDivisionError\<close>, which is \<open>None\<close> here.
\<close>

fun float_div_nonzero :: "float64 \<Rightarrow> float64 \<Rightarrow> float64" where
  "float_div_nonzero NaN y = NaN"
| "float_div_nonzero (Inf s) NaN = NaN"
| "float_div_nonzero (Fin s m e) NaN = NaN"
| "float_div_nonzero (Inf s) (Inf t) = NaN"
| "float_div_nonzero (Inf s) (Fin t n f) = Inf (s \<noteq> t)"
| "float_div_nonzero (Fin s m e) (Inf t) = Fin (s \<noteq> t) 0 (-1074)"
| "float_div_nonzero (Fin s m e) (Fin t n f) =
     (if m = 0 then Fin (s \<noteq> t) 0 (-1074)
      else round_exact (exact_div (to_exact (Fin s m e)) (to_exact (Fin t n f))))"

definition float_truediv :: "float64 \<Rightarrow> float64 \<Rightarrow> float64 option" where
  "float_truediv x y = (if float_is_zero y then None else Some (float_div_nonzero x y))"

text \<open>
  \<open>float(n)\<close> for a Python \<open>int\<close> rounds \<open>n\<close>; \<open>int / int\<close> rounds the exact
  quotient, and a zero numerator gives a zero whose sign is that of the divisor.
  An \<open>Inf\<close> result of either stands for CPython's \<open>OverflowError\<close>.
\<close>

definition float_of_int :: "int \<Rightarrow> float64" where
  "float_of_int n = round_exact (Exact n 1 0)"

definition int_truediv :: "int \<Rightarrow> int \<Rightarrow> float64 option" where
  "int_truediv a b =
     (if b = 0 then None
      else if a = 0 then Some (Fin (b < 0) 0 (-1074))
      else Some (round_exact (Exact a b 0)))"

declare ilog2.simps [simp del] round_exact.simps [simp del]

declare ilog2.simps [eval_simps] pow2_le_def [eval_simps] flog2_def [eval_simps]
  round_div_def [eval_simps] round_scaled_def [eval_simps] round_exact.simps [eval_simps]
  float_sub_def [eval_simps] float_truediv_def [eval_simps] float_of_int_def [eval_simps]
  int_truediv_def [eval_simps]

section \<open>Bounds of the integer helpers\<close>

lemma ilog2_nonneg: "0 \<le> ilog2 n"
proof (induction n rule: ilog2.induct)
  case (1 n)
  then show ?case by (simp add: ilog2.simps [of n])
qed

lemma ilog2_bounds: "0 < n \<Longrightarrow> 2 ^ nat (ilog2 n) \<le> n \<and> n < 2 ^ nat (ilog2 n + 1)"
proof (induction n rule: ilog2.induct)
  case (1 n)
  consider "n < 2" | "\<not> n < 2" "n < 2 ^ 64" | "\<not> n < 2 ^ 64" by fastforce
  then show ?case
  proof cases
    case 1
    with "1.prems" show ?thesis by (simp add: ilog2.simps [of n])
  next
    case 2
    let ?l = "ilog2 (n div 2)"
    have ih: "2 ^ nat ?l \<le> n div 2 \<and> n div 2 < 2 ^ nat (?l + 1)"
      using "1.IH"(1) 2 by simp
    have eq: "ilog2 n = 1 + ?l" using 2 by (simp add: ilog2.simps [of n])
    have nn: "0 \<le> ?l" by (rule ilog2_nonneg)
    from ih nn have "2 * 2 ^ nat ?l \<le> n" "n < 2 * 2 ^ nat (?l + 1)" by linarith+
    with nn show ?thesis by (simp add: eq nat_add_distrib)
  next
    case 3
    let ?l = "ilog2 (n div 2 ^ 64)"
    have ih: "2 ^ nat ?l \<le> n div 2 ^ 64 \<and> n div 2 ^ 64 < 2 ^ nat (?l + 1)"
      using "1.IH"(2) 3 by simp
    have eq: "ilog2 n = 64 + ?l" using 3 by (simp add: ilog2.simps [of n])
    have nn: "0 \<le> ?l" by (rule ilog2_nonneg)
    from ih have "2 ^ 64 * 2 ^ nat ?l \<le> n \<and> n < 2 ^ 64 * 2 ^ nat (?l + 1)"
      by (intro int_div_bounds) simp_all
    with nn show ?thesis by (simp add: eq nat_add_distrib power_add)
  qed
qed


lemma pow2_le_iff: "pow2_le d a k \<longleftrightarrow> of_int d * 2 powi k \<le> (of_int a :: rat)"
proof (cases "0 \<le> k")
  case True
  then show ?thesis by (simp add: pow2_le_def two_powi_nonneg of_int_mult_pow_le)
next
  case False
  then have p: "(0::rat) < of_int (2 ^ nat (- k))" by simp
  from False have "of_int d * 2 powi k \<le> (of_int a :: rat) \<longleftrightarrow>
      of_int d \<le> (of_int a * of_int (2 ^ nat (- k)) :: rat)"
    using p by (simp add: two_powi_neg divide_le_eq)
  with False show ?thesis by (simp add: pow2_le_def of_int_mult_pow_le)
qed

lemma ilog2_bounds_rat:
  assumes "0 < n"
  shows "2 powi ilog2 n \<le> (of_int n :: rat) \<and> of_int n < (2::rat) powi (ilog2 n + 1)"
proof -
  have nn: "0 \<le> ilog2 n" by (rule ilog2_nonneg)
  from ilog2_bounds [OF assms] have "2 ^ nat (ilog2 n) \<le> n" "n < 2 ^ nat (ilog2 n + 1)" by auto
  then have "(of_int (2 ^ nat (ilog2 n)) :: rat) \<le> of_int n"
    "of_int n < (of_int (2 ^ nat (ilog2 n + 1)) :: rat)" by (simp_all only: of_int_le_iff of_int_less_iff)
  with nn show ?thesis by (simp add: two_powi_nonneg)
qed

lemma flog2_bounds:
  assumes "0 < a" "0 < d"
  shows "2 powi flog2 a d \<le> (of_int a / of_int d :: rat) \<and>
         of_int a / of_int d < (2::rat) powi (flog2 a d + 1)"
proof -
  let ?la = "ilog2 a" and ?ld = "ilog2 d" and ?q = "of_int a / of_int d :: rat"
  let ?k = "?la - ?ld"
  have dpos: "(0::rat) < of_int d" using assms by simp
  from ilog2_bounds_rat [OF assms(1)] ilog2_bounds_rat [OF assms(2)]
  have a1: "2 powi ?la \<le> (of_int a :: rat)" and a2: "of_int a < (2::rat) powi (?la + 1)"
    and d1: "2 powi ?ld \<le> (of_int d :: rat)" and d2: "of_int d < (2::rat) powi (?ld + 1)"
    by auto
  have "?q < (2::rat) powi (?la + 1) / 2 powi ?ld"
  proof -
    have "?q < (2::rat) powi (?la + 1) / of_int d" using a2 dpos by (simp add: divide_strict_right_mono)
    also have "\<dots> \<le> 2 powi (?la + 1) / 2 powi ?ld"
      using divide_left_mono [OF d1] dpos by simp
    finally show ?thesis .
  qed
  then have up: "?q < 2 powi (?k + 1)"
    by (simp add: power_int_diff [symmetric] algebra_simps)
  have "(2::rat) powi ?la / 2 powi (?ld + 1) < ?q"
  proof -
    have "(2::rat) powi ?la / 2 powi (?ld + 1) < 2 powi ?la / of_int d"
      using d2 dpos by (simp add: divide_strict_left_mono)
    also have "\<dots> \<le> ?q" using a1 dpos by (simp add: divide_right_mono)
    finally show ?thesis .
  qed
  then have low: "2 powi (?k - 1) < ?q"
    by (simp add: power_int_diff [symmetric] algebra_simps)
  have cmp: "pow2_le d a ?k \<longleftrightarrow> 2 powi ?k \<le> ?q"
    using dpos by (simp add: pow2_le_iff le_divide_eq mult.commute)
  show ?thesis
  proof (cases "pow2_le d a ?k")
    case True
    with cmp up show ?thesis by (simp add: flog2_def Let_def)
  next
    case False
    with cmp low show ?thesis by (simp add: flog2_def Let_def)
  qed
qed
lemma round_div_bounds:
  assumes "0 < d" "lo * d \<le> n" "n \<le> hi * d"
  shows "lo \<le> round_div n d \<and> round_div n d \<le> hi"
proof -
  let ?f = "n div d" and ?r = "n mod d"
  have nd: "n = ?f * d + ?r" by simp
  have r: "0 \<le> ?r" "?r < d" using assms(1) by simp_all
  have "(?f + 1) * d = ?f * d + d" by (simp add: algebra_simps)
  then have "lo * d < (?f + 1) * d" using assms(2) nd r by linarith
  then have flo: "lo \<le> ?f" using assms(1) by (simp add: mult_less_cancel_right)
  have "?f * d \<le> hi * d" using assms(3) nd r by linarith
  then have fhi: "?f \<le> hi" using assms(1) by simp
  have "?f + 1 \<le> hi" if "0 < ?r"
  proof -
    have "?f * d < hi * d" using that assms(3) nd by linarith
    then show ?thesis using assms(1) by (simp add: mult_less_cancel_right)
  qed
  moreover have "round_div n d = ?f \<or> (round_div n d = ?f + 1 \<and> 0 < ?r)"
    using assms(1) by (auto simp: round_div_def Let_def)
  ultimately show ?thesis using flo fhi by auto
qed

lemma round_scaled_bounds:
  assumes "0 < b"
    and "(of_int lo :: rat) \<le> of_int a / of_int b * 2 powi k"
    and "of_int a / of_int b * 2 powi k \<le> (of_int hi :: rat)"
  shows "lo \<le> round_scaled a b k \<and> round_scaled a b k \<le> hi"
proof -
  define num den where "num = (if 0 \<le> k then a * 2 ^ nat k else a)"
    and "den = (if 0 \<le> k then b else b * 2 ^ nat (- k))"
  have dpos: "0 < den" using assms(1) by (simp add: den_def)
  have eq: "of_int a / of_int b * 2 powi k = (of_int num / of_int den :: rat)"
    by (simp add: num_def den_def two_powi_nonneg two_powi_neg)
  have dq: "(0::rat) < of_int den" using dpos by simp
  from assms(2,3) have "of_int lo * of_int den \<le> (of_int num :: rat)"
    "(of_int num :: rat) \<le> of_int hi * of_int den"
    by (simp_all only: eq pos_le_divide_eq [OF dq] pos_divide_le_eq [OF dq])
  then have "lo * den \<le> num" "num \<le> hi * den"
    by (simp_all only: of_int_mult [symmetric] of_int_le_iff)
  then have "lo \<le> round_div num den \<and> round_div num den \<le> hi"
    using dpos by (simp add: round_div_bounds)
  moreover have "round_scaled a b k = round_div num den"
    by (simp add: round_scaled_def num_def den_def)
  ultimately show ?thesis by simp
qed

lemma round_scaled_exact:
  assumes "0 < b" "of_int a / of_int b * 2 powi k = (of_int j :: rat)"
  shows "round_scaled a b k = j"
  using round_scaled_bounds [OF assms(1), of j a k j] assms(2) by simp
lemma round_exact_unfold:
  assumes "n \<noteq> 0" "d \<noteq> 0" "E = max (flog2 \<bar>n\<bar> \<bar>d\<bar> + e - 52) (-1074)"
    "M = round_scaled \<bar>n\<bar> \<bar>d\<bar> (e - E)" "S = ((n < 0) \<noteq> (d < 0))"
  shows "round_exact (Exact n d e) =
    (if M = 2 ^ 53 then (if 971 < E + 1 then Inf S else Fin S (2 ^ 52) (E + 1))
     else if 971 < E then Inf S else Fin S M E)"
proof -
  have nz: "(n = 0 \<or> d = 0) = False" using assms(1,2) by simp
  show ?thesis unfolding round_exact.simps Let_def nz if_False assms(3-5) by (rule refl)
qed

lemma round_scaled_range:
  assumes "0 < a" "0 < b" "flog2 a b + e - 52 \<le> E"
  shows "0 \<le> round_scaled a b (e - E) \<and> round_scaled a b (e - E) \<le> 2 ^ 53 \<and>
         (E = flog2 a b + e - 52 \<longrightarrow> 2 ^ 52 \<le> round_scaled a b (e - E))"
proof -
  let ?L = "flog2 a b" and ?q = "of_int a / of_int b :: rat"
  let ?x = "?q * 2 powi (e - E)"
  from flog2_bounds [OF assms(1,2)] have qlo: "2 powi ?L \<le> ?q" and qhi: "?q < 2 powi (?L + 1)"
    by auto
  have "?x < 2 powi (?L + 1) * 2 powi (e - E)"
    by (rule mult_strict_right_mono [OF qhi]) simp
  also have "\<dots> = 2 powi (?L + 1 + (e - E))" by (simp add: power_int_add)
  also have "\<dots> \<le> 2 powi 53" using assms(3) by (intro two_powi_mono) simp
  finally have xhi: "?x \<le> of_int (2 ^ 53)" by simp
  have xlo: "of_int 0 \<le> ?x" using assms(1,2) by simp
  have "2 ^ 52 \<le> round_scaled a b (e - E)" if "E = ?L + e - 52"
  proof -
    have "2 powi 52 = (2::rat) powi (?L + (e - E))" using that by simp
    also have "\<dots> = 2 powi ?L * 2 powi (e - E)" by (simp add: power_int_add)
    also have "\<dots> \<le> ?x" by (rule mult_right_mono [OF qlo]) simp
    finally have "of_int (2 ^ 52) \<le> ?x" by simp
    with xhi assms(2) show ?thesis using round_scaled_bounds by blast
  qed
  with round_scaled_bounds [OF assms(2) xlo xhi] show ?thesis by simp
qed

theorem wf_round_exact: "wf_float (round_exact x)"
proof (cases x)
  case (Exact n d e)
  show ?thesis
  proof (cases "n = 0 \<or> d = 0")
    case True
    with Exact show ?thesis by (simp add: round_exact.simps)
  next
    case False
    let ?a = "\<bar>n\<bar>" and ?b = "\<bar>d\<bar>"
    define E where "E = max (flog2 ?a ?b + e - 52) (-1074)"
    define m where "m = round_scaled ?a ?b (e - E)"
    define s where "s = ((n < 0) \<noteq> (d < 0))"
    have ab: "0 < ?a" "0 < ?b" using False by auto
    have r: "0 \<le> m" "m \<le> 2 ^ 53" "E = flog2 ?a ?b + e - 52 \<longrightarrow> 2 ^ 52 \<le> m"
      unfolding m_def by (rule round_scaled_range [OF ab, THEN conjunct1], simp add: E_def,
          rule round_scaled_range [OF ab, THEN conjunct2, THEN conjunct1], simp add: E_def,
          rule round_scaled_range [OF ab, THEN conjunct2, THEN conjunct2], simp add: E_def)
    have norm: "2 ^ 52 \<le> m \<or> E = -1074" "-1074 \<le> E"
      using r(3) by (auto simp: E_def)
    have eq: "round_exact x = (if m = 2 ^ 53 then (if 971 < E + 1 then Inf s else Fin s (2 ^ 52) (E + 1))
        else if 971 < E then Inf s else Fin s m E)"
      unfolding Exact round_exact.simps Let_def
      using False by (simp only: if_False flip: E_def m_def s_def)
    show ?thesis
    proof (cases "m = 2 ^ 53")
      case True
      with norm(2) show ?thesis by (simp add: eq)
    next
      case False
      with r(1,2) norm show ?thesis by (simp add: eq)
    qed
  qed
qed
section \<open>Exactly representable values are kept\<close>

lemma scaled_upper:
  assumes "0 < a" "0 < b" "flog2 a b + e - 52 \<le> E"
  shows "of_int a / of_int b * 2 powi (e - E) < (2::rat) powi 53"
proof -
  let ?L = "flog2 a b"
  from flog2_bounds [OF assms(1,2)] have qhi: "of_int a / of_int b < (2::rat) powi (?L + 1)"
    by auto
  have "of_int a / of_int b * 2 powi (e - E) < 2 powi (?L + 1) * (2::rat) powi (e - E)"
    by (rule mult_strict_right_mono [OF qhi]) simp
  also have "\<dots> = 2 powi (?L + 1 + (e - E))" by (simp add: power_int_add)
  also have "\<dots> \<le> 2 powi 53" using assms(3) by (intro two_powi_mono) simp
  finally show ?thesis .
qed

lemma flog2_one: "0 < a \<Longrightarrow> 2 powi flog2 a 1 \<le> (of_int a :: rat) \<and> of_int a < (2::rat) powi (flog2 a 1 + 1)"
  using flog2_bounds [of a 1] by simp

theorem round_exact_representable:
  assumes "m \<noteq> 0" "\<bar>m\<bar> < 2 ^ 53" "-1074 \<le> e"
    and "of_int \<bar>m\<bar> * 2 powi e < (2::rat) powi 1024"
  shows "is_finite (round_exact (Exact m 1 e)) \<and>
         fval (round_exact (Exact m 1 e)) = of_int m * 2 powi e"
proof -
  let ?a = "\<bar>m\<bar>"
  define L where "L = flog2 ?a 1"
  define E where "E = max (L + e - 52) (-1074)"
  have apos: "0 < ?a" using assms(1) by simp
  from flog2_one [OF apos] have lo: "2 powi L \<le> (of_int ?a :: rat)"
    and hi: "of_int ?a < (2::rat) powi (L + 1)" by (simp_all add: L_def)
  have "(of_int ?a :: rat) < 2 powi 53"
    using assms(2) by (simp add: of_int_less_iff [symmetric, where 'a = rat])
  with lo have "(2::rat) powi L < 2 powi 53" by linarith
  then have L52: "L < 53" by (rule two_powi_less_imp_less)
  have "(2::rat) powi (L + e) = 2 powi L * 2 powi e" by (simp add: power_int_add)
  also have "\<dots> \<le> of_int ?a * 2 powi e" by (rule mult_right_mono [OF lo]) simp
  also have "\<dots> < 2 powi 1024" by (rule assms(4))
  finally have Le: "L + e < 1024" by (rule two_powi_less_imp_less)
  have Ee: "E \<le> e" using L52 assms(3) by (simp add: E_def)
  have E971: "\<not> 971 < E" using Le by (simp add: E_def)
  define j where "j = ?a * 2 ^ nat (e - E)"
  have xj: "of_int ?a / of_int 1 * 2 powi (e - E) = (of_int j :: rat)"
    using Ee by (simp add: j_def two_powi_nonneg)
  have rj: "round_scaled ?a 1 (e - E) = j"
    using round_scaled_exact [of 1 ?a "e - E" j] xj by simp
  have "of_int j < (2::rat) powi 53"
    using scaled_upper [OF apos, of 1 e E] xj by (simp add: E_def L_def)
  then have j53: "j \<noteq> 2 ^ 53" by auto
  have res: "round_exact (Exact m 1 e) = Fin (m < 0) j E"
    using assms(1) rj j53 E971 by (simp add: round_exact.simps Let_def E_def L_def)
  have "fval (Fin (m < 0) j E) = (if m < 0 then -1 else 1) * (of_int ?a * 2 powi (e - E) * 2 powi E)"
    using xj by simp
  also have "\<dots> = of_int m * 2 powi e"
    by (simp add: power_int_add [symmetric])
  finally show ?thesis using res by simp
qed
lemma round_exact_overflow:
  assumes "n \<noteq> 0" "d \<noteq> 0"
    and "(2::rat) powi 1024 \<le> of_int \<bar>n\<bar> / of_int \<bar>d\<bar> * 2 powi e"
  shows "round_exact (Exact n d e) = Inf ((n < 0) \<noteq> (d < 0))"
proof -
  let ?a = "\<bar>n\<bar>" and ?b = "\<bar>d\<bar>"
  define L where "L = flog2 ?a ?b"
  define E where "E = max (L + e - 52) (-1074)"
  have ab: "0 < ?a" "0 < ?b" using assms(1,2) by simp_all
  from flog2_bounds [OF ab] have hi: "of_int ?a / of_int ?b < (2::rat) powi (L + 1)"
    by (simp add: L_def)
  have "(2::rat) powi 1024 < 2 powi (L + 1) * 2 powi e"
    using assms(3) mult_strict_right_mono [OF hi, of "2 powi e"] by simp
  also have "\<dots> = 2 powi (L + 1 + e)" by (simp add: power_int_add)
  finally have "1024 < L + 1 + e" by (rule two_powi_less_imp_less)
  then have "971 < E" by (simp add: E_def)
  then show ?thesis
    using round_exact_unfold [OF assms(1,2) E_def [unfolded L_def] refl refl] by simp
qed

lemma flog2_unique:
  assumes "0 < a" "0 < b" "2 powi k \<le> (of_int a / of_int b :: rat)"
    "of_int a / of_int b < (2::rat) powi (k + 1)"
  shows "flog2 a b = k"
proof -
  from flog2_bounds [OF assms(1,2)]
  have lo: "2 powi flog2 a b \<le> (of_int a / of_int b :: rat)"
    and hi: "of_int a / of_int b < (2::rat) powi (flog2 a b + 1)" by auto
  from assms(3) hi have "(2::rat) powi k < 2 powi (flog2 a b + 1)" by linarith
  then have "k < flog2 a b + 1" by (rule two_powi_less_imp_less)
  moreover from lo assms(4) have "(2::rat) powi flog2 a b < 2 powi (k + 1)" by linarith
  then have "flog2 a b < k + 1" by (rule two_powi_less_imp_less)
  ultimately show ?thesis by simp
qed

text \<open>
  C14: Rounding a canonical finite non-zero binary64 gives it back: the encoding of a
  \<open>float\<close> as an exact value and the rounding back are inverse.
\<close>

lemma round_exact_canonical:
  assumes "wf_float (Fin s m e)" "m \<noteq> 0"
  shows "round_exact (to_exact (Fin s m e)) = Fin s m e"
proof -
  have m: "0 < m" "m < 2 ^ 53" "-1074 \<le> e" "e \<le> 971" "2 ^ 52 \<le> m \<or> e = -1074"
    using assms by auto
  define L where "L = flog2 m 1"
  have "(of_int m :: rat) < of_int (2 ^ 53)" using m(2) by (simp only: of_int_less_iff)
  then have mq: "(of_int m :: rat) < 2 powi 53" by simp
  from flog2_bounds [of m 1] m(1) have lo: "2 powi L \<le> (of_int m :: rat)"
    by (simp add: L_def)
  with mq have "(2::rat) powi L < 2 powi 53" by linarith
  then have L53: "L < 53" by (rule two_powi_less_imp_less)
  have E: "max (L + e - 52) (-1074) = e"
  proof (cases "2 ^ 52 \<le> m")
    case True
    then have "(of_int (2 ^ 52) :: rat) \<le> of_int m" by (simp only: of_int_le_iff)
    then have "(2::rat) powi 52 \<le> of_int m" by simp
    then have "flog2 m 1 = 52" using m(1) mq by (intro flog2_unique) simp_all
    then show ?thesis using m(3) by (simp add: L_def)
  next
    case False
    with m(5) L53 show ?thesis by simp
  qed
  have r: "round_scaled m 1 0 = m"
    by (rule round_scaled_exact) simp_all
  define n where "n = (if s then - m else m)"
  have n: "n \<noteq> 0" "\<bar>n\<bar> = m" "((n < 0) \<noteq> ((1::int) < 0)) = s"
    using m(1) by (auto simp: n_def)
  have p3: "e = max (flog2 \<bar>n\<bar> \<bar>1\<bar> + e - 52) (-1074)" using E n(2) by (simp add: L_def)
  have p4: "m = round_scaled \<bar>n\<bar> \<bar>1\<bar> (e - e)" using r n(2) by simp
  have "m \<noteq> 2 ^ 53" "\<not> 971 < e" using m(2,4) by simp_all
  then have "round_exact (Exact n 1 e) = Fin s m e"
    using round_exact_unfold [OF n(1) _ p3 p4 refl] n(3) by simp
  then show ?thesis by (simp add: n_def)
qed

lemma round_exact_zero [simp]: "round_exact (Exact 0 d e) = Fin False 0 (-1074)"
  by (simp add: round_exact.simps)

corollary float_of_int_exact:
  assumes "\<bar>n\<bar> < 2 ^ 53"
  shows "is_finite (float_of_int n) \<and> fval (float_of_int n) = of_int n"
proof (cases "n = 0")
  case True
  then show ?thesis by (simp add: float_of_int_def)
next
  case False
  have "(of_int \<bar>n\<bar> :: rat) < of_int (2 ^ 53)" using assms by (simp only: of_int_less_iff)
  also have "(of_int (2 ^ 53) :: rat) < 2 powi 1024" by simp
  finally have "of_int \<bar>n\<bar> * 2 powi 0 < (2::rat) powi 1024" by simp
  with round_exact_representable [OF False assms, of 0] show ?thesis
    by (simp add: float_of_int_def)
qed


section \<open>Every operation yields a canonical binary64\<close>

lemma wf_float_zero [simp]: "wf_float (Fin s 0 (-1074))"
  by simp

lemma wf_float_neg: "wf_float (float_neg x) \<longleftrightarrow> wf_float x"
  by (cases x) simp_all

lemma wf_float_add: "wf_float (float_add x y)"
  by (cases x; cases y) (simp_all add: Let_def wf_round_exact)

lemma wf_float_sub: "wf_float (float_sub x y)"
  by (simp add: float_sub_def wf_float_add)

lemma wf_float_mul: "wf_float (float_mul x y)"
  by (cases x; cases y) (simp_all add: wf_round_exact)

lemma wf_float_div_nonzero: "wf_float (float_div_nonzero x y)"
  by (cases x; cases y) (simp_all add: wf_round_exact)

lemma wf_float_truediv: "float_truediv x y = Some z \<Longrightarrow> wf_float z"
  by (auto simp: float_truediv_def wf_float_div_nonzero split: if_splits)

lemma wf_float_of_int: "wf_float (float_of_int n)"
  by (simp add: float_of_int_def wf_round_exact)

lemma wf_int_truediv: "int_truediv a b = Some z \<Longrightarrow> wf_float z"
  by (auto simp: int_truediv_def wf_round_exact split: if_splits)

end
