(* ===== verification/FloatParse.thy ===== *)
theory FloatParse
  imports Float64
begin

text \<open>
  \<open>float(s)\<close> for a Python \<open>str\<close> \<open>s\<close>, as \<open>float(data['num1'])\<close> in
  \<open>process_arithmetic_request\<close> (\<open>src/api/app.py\<close>) applies it to a string operand.
  CPython strips surrounding whitespace, reads an optional sign, then either
  \<open>inf\<close>/\<open>infinity\<close>/\<open>nan\<close> in any letter case, or a decimal literal
  \<open>digitpart [. [digitpart]] [e [sign] digitpart]\<close> (or \<open>. digitpart ...\<close>), where a
  digitpart is digits separated by single underscores; the value is the correctly
  rounded binary64 of the decimal (so \<open>1e400\<close> gives \<open>inf\<close> and no error). Anything
  else raises \<open>ValueError\<close>, which is \<open>None\<close> here. Characters are the bytes of
  \<open>string\<close>: the whitespace set is the ASCII part of \<open>str.isspace\<close>, and non-ASCII
  decimal digits, which CPython also accepts, are not modelled.
\<close>

definition py_isspace :: "char \<Rightarrow> bool" where
  "py_isspace c = (of_char c \<in> {9, 10, 11, 12, 13, 28, 29, 30, 31, 32 :: int})"

definition is_digit :: "char \<Rightarrow> bool" where
  "is_digit c = (48 \<le> (of_char c :: int) \<and> of_char c \<le> (57 :: int))"

definition digit_or_us :: "char \<Rightarrow> bool" where
  "digit_or_us c = (is_digit c \<or> c = CHR ''_'')"

definition ascii_lower :: "char \<Rightarrow> char" where
  "ascii_lower c = (let n = (of_char c :: int) in if 65 \<le> n \<and> n \<le> 90 then char_of (n + 32) else c)"

definition py_strip :: "string \<Rightarrow> string" where
  "py_strip s = rev (dropWhile py_isspace (rev (dropWhile py_isspace s)))"

fun split_sign :: "string \<Rightarrow> bool \<times> string" where
  "split_sign [] = (False, [])"
| "split_sign (c # cs) =
     (if c = CHR ''-'' then (True, cs) else if c = CHR ''+'' then (False, cs) else (False, c # cs))"

text \<open>A digitpart: \<open>digit ([_] digit)*\<close>.\<close>

fun valid_digitpart :: "string \<Rightarrow> bool" where
  "valid_digitpart [] = False"
| "valid_digitpart (c # cs) =
     (is_digit c \<and> (case cs of [] \<Rightarrow> True
                      | d # ds \<Rightarrow> if d = CHR ''_'' then valid_digitpart ds else valid_digitpart cs))"

definition digits_val :: "string \<Rightarrow> int" where
  "digits_val s = foldl (\<lambda>acc c. if is_digit c then 10 * acc + (of_char c - 48) else acc) 0 s"

definition digit_count :: "string \<Rightarrow> int" where
  "digit_count s = int (length (filter is_digit s))"

fun parse_exponent :: "string \<Rightarrow> int option" where
  "parse_exponent [] = Some 0"
| "parse_exponent (c # cs) =
     (if c = CHR ''e'' \<or> c = CHR ''E'' then
        (case split_sign cs of (neg, ds) \<Rightarrow>
           if valid_digitpart ds then Some ((if neg then - 1 else 1) * digits_val ds) else None)
      else None)"

text \<open>
  A decimal literal without sign; the result \<open>(M, k)\<close> stands for \<open>M * 10^k\<close>.
\<close>

definition parse_decimal :: "string \<Rightarrow> (int \<times> int) option" where
  "parse_decimal s =
     (let ip = takeWhile digit_or_us s; r1 = dropWhile digit_or_us s;
          (fp, r3) = (case r1 of c # r2 \<Rightarrow>
                         if c = CHR ''.'' then (takeWhile digit_or_us r2, dropWhile digit_or_us r2)
                         else ([], r1)
                       | [] \<Rightarrow> ([], []))
      in if (ip = [] \<and> fp = []) \<or> (ip \<noteq> [] \<and> \<not> valid_digitpart ip)
            \<or> (fp \<noteq> [] \<and> \<not> valid_digitpart fp) then None
         else case parse_exponent r3 of
                None \<Rightarrow> None
              | Some x \<Rightarrow> Some (digits_val (ip @ fp), x - digit_count fp))"

definition decimal_exact :: "int \<Rightarrow> int \<Rightarrow> exact" where
  "decimal_exact m k = (if 0 \<le> k then Exact (m * 10 ^ nat k) 1 0 else Exact m (10 ^ nat (- k)) 0)"

definition parse_float_str :: "string \<Rightarrow> float64 option" where
  "parse_float_str str =
     (case split_sign (py_strip str) of (neg, body) \<Rightarrow>
        let low = map ascii_lower body in
        if low = ''inf'' \<or> low = ''infinity'' then Some (Inf neg)
        else if low = ''nan'' then Some NaN
        else case parse_decimal body of
               None \<Rightarrow> None
             | Some (m, k) \<Rightarrow>
                 Some (if m = 0 then Fin neg 0 (-1074)
                       else round_exact (decimal_exact (if neg then - m else m) k)))"

text \<open>
  A string of ASCII digits passes the stripping, sign and literal stages unchanged:
  it is read as the integer it spells, with exponent zero.
\<close>

lemma is_digit_not_space: "is_digit c \<Longrightarrow> \<not> py_isspace c"
  by (auto simp: is_digit_def py_isspace_def)

lemma py_strip_digits: "list_all is_digit s \<Longrightarrow> py_strip s = s"
proof -
  assume a: "list_all is_digit s"
  have d: "list_all is_digit t \<Longrightarrow> dropWhile py_isspace t = t" for t
    by (cases t) (auto simp: is_digit_not_space)
  show ?thesis using a by (simp add: py_strip_def d)
qed

lemma split_sign_digit: "is_digit c \<Longrightarrow> split_sign (c # cs) = (False, c # cs)"
  by (auto simp: is_digit_def)

lemma ascii_lower_digit: "is_digit c \<Longrightarrow> ascii_lower c = c"
  by (simp add: is_digit_def ascii_lower_def Let_def)

lemma is_digit_not_us: "is_digit c \<Longrightarrow> c \<noteq> CHR ''_''"
  by (auto simp: is_digit_def)

lemma valid_digitpart_digits: "s \<noteq> [] \<Longrightarrow> list_all is_digit s \<Longrightarrow> valid_digitpart s"
proof (induction s)
  case (Cons c cs)
  show ?case
  proof (cases cs)
    case (Cons d ds)
    then have "d \<noteq> CHR ''_''" using Cons.prems(2) is_digit_not_us by simp
    then show ?thesis using Cons Cons.prems Cons.IH by simp
  qed (use Cons.prems in simp)
qed simp

lemma parse_decimal_digits:
  assumes "s \<noteq> []" "list_all is_digit s"
  shows "parse_decimal s = Some (digits_val s, 0)"
proof -
  have "list_all digit_or_us s" using assms(2) by (induction s) (simp_all add: digit_or_us_def)
  then have tw: "takeWhile digit_or_us s = s" and dw: "dropWhile digit_or_us s = []"
    by (simp_all add: list_all_iff)
  have v: "valid_digitpart s" using valid_digitpart_digits [OF assms] .
  show ?thesis
    unfolding parse_decimal_def Let_def tw dw using assms(1) v by (simp add: digit_count_def)
qed

lemma digits_not_special:
  assumes "s \<noteq> []" "list_all is_digit s"
  shows "map ascii_lower s = s \<and> s \<noteq> ''inf'' \<and> s \<noteq> ''infinity'' \<and> s \<noteq> ''nan''"
proof -
  have hd: "is_digit (hd s)" using assms by (simp add: list_all_iff)
  have "map ascii_lower s = s"
    using assms(2) by (induction s) (simp_all add: ascii_lower_digit)
  moreover have "\<not> is_digit CHR ''i''" "\<not> is_digit CHR ''n''" by (simp_all add: is_digit_def)
  ultimately show ?thesis using hd assms(1) by (auto simp: neq_Nil_conv)
qed

lemma parse_float_str_digits:
  assumes "s \<noteq> []" "list_all is_digit s"
  shows "parse_float_str s = Some (float_of_int (digits_val s))"
proof -
  obtain c cs where s: "s = c # cs" using assms(1) by (cases s) auto
  have c: "is_digit c" using assms(2) s by simp
  have sp: "split_sign (py_strip s) = (False, s)"
    using py_strip_digits [OF assms(2)] split_sign_digit [OF c] s by simp
  show ?thesis
    unfolding parse_float_str_def sp
    using digits_not_special [OF assms] parse_decimal_digits [OF assms]
    by (simp add: decimal_exact_def float_of_int_def)
qed

lemma py_strip_ends:
  assumes "s \<noteq> []" "\<not> py_isspace (hd s)" "\<not> py_isspace (last s)"
  shows "py_strip s = s"
proof -
  have d: "dropWhile py_isspace t = t" if "t \<noteq> []" "\<not> py_isspace (hd t)" for t
    using that by (cases t) simp_all
  have "dropWhile py_isspace s = s" using d assms(1,2) .
  moreover have "dropWhile py_isspace (rev s) = rev s"
    using d [of "rev s"] assms(1,3) by (simp add: hd_rev)
  ultimately show ?thesis by (simp add: py_strip_def)
qed

text \<open>A minus sign before a non-zero digit string negates the integer read.\<close>

lemma parse_float_str_neg_digits:
  assumes "s \<noteq> []" "list_all is_digit s" "digits_val s \<noteq> 0"
  shows "parse_float_str (CHR ''-'' # s) = Some (float_of_int (- digits_val s))"
proof -
  have hd: "is_digit (hd s)" and lst: "is_digit (last s)"
    using assms(1,2) by (simp_all add: list_all_iff)
  have "py_strip (CHR ''-'' # s) = CHR ''-'' # s"
    by (rule py_strip_ends) (use assms(1) hd lst is_digit_not_space in \<open>auto simp: py_isspace_def\<close>)
  then have sp: "split_sign (py_strip (CHR ''-'' # s)) = (True, s)" by simp
  show ?thesis
    unfolding parse_float_str_def sp
    using digits_not_special [OF assms(1,2)] parse_decimal_digits [OF assms(1,2)] assms(3)
    by (simp add: decimal_exact_def float_of_int_def)
qed

lemma digits_val_nonneg: "0 \<le> digits_val s"
proof -
  have "0 \<le> acc \<Longrightarrow> 0 \<le> foldl (\<lambda>acc c. if is_digit c then 10 * acc + (of_char c - 48) else acc) acc s"
    for acc :: int
    by (induction s arbitrary: acc) (auto simp: is_digit_def)
  then show ?thesis by (simp add: digits_val_def)
qed

end
