(* ===== verification/FloatRounding.thy ===== *)
theory FloatRounding
  imports Float64
begin

text \<open>
  The accuracy of the binary64 model of \<open>Float64\<close>: \<open>round_exact\<close> rounds to within
  half a unit in the last place, so every finite result of \<open>+\<close>, \<open>-\<close>, \<open>*\<close> and
  \<open>/\<close> (the operations of \<open>calculate\<close> in \<open>src/api/app.py\<close> and of the views of
  \<open>src/api/main.py\<close> on floats) is within a relative error of \<open>2^-53\<close> of the
  exact result, or within \<open>2^-1075\<close> of it among the subnormals. \<open>rounds_to v f\<close> is
  this contract of IEEE round-to-nearest: the binary64 \<open>f\<close> is a correct rounding of
  the rational \<open>v\<close> up to the standard error bound. \<open>round64\<close> is the reference
  rounding itself, defined on the rationals (exponent from the real logarithm,
  significand by \<open>rat_round\<close>, round half to even); \<open>round_exact_round64\<close> shows
  that the integer-only \<open>round_exact\<close> computes it, and the last section applies this
  to \<open>float()\<close> of integers.
\<close>

definition rounds_to :: "rat \<Rightarrow> float64 \<Rightarrow> bool" where
  "rounds_to v f \<longleftrightarrow> \<bar>fval f - v\<bar> \<le> max (\<bar>v\<bar> * 2 powi -53) (2 powi -1075)"

definition rat_round :: "rat \<Rightarrow> int" where
  "rat_round q = (let f = \<lfloor>q\<rfloor>; r = q - of_int f in
     if r < 1 / 2 then f else if 1 / 2 < r then f + 1 else if even f then f else f + 1)"

definition round64 :: "rat \<Rightarrow> float64" where
  "round64 q =
     (if q = 0 then Fin False 0 (-1074) else
      let s = q < 0; E = max (\<lfloor>log 2 (real_of_rat \<bar>q\<bar>)\<rfloor> - 52) (-1074);
          m = rat_round (\<bar>q\<bar> * 2 powi (- E))
      in if m = 2 ^ 53 then (if 971 < E + 1 then Inf s else Fin s (2 ^ 52) (E + 1))
         else if 971 < E then Inf s else Fin s m E)"

text \<open>
  \<open>near64 v m e\<close>: the rational \<open>v\<close> lies strictly inside the rounding interval of
  the positive binary64 \<open>m * 2^e\<close>, half the gap to each neighbour, the gap below
  being half as large at the bottom of a binade.
\<close>

definition near64 :: "rat \<Rightarrow> int \<Rightarrow> int \<Rightarrow> bool" where
  "near64 v m e =
     (if m = 2 ^ 52 \<and> -1074 < e
      then of_int m * 2 powi e - 2 powi (e - 2) < v \<and> v < of_int m * 2 powi e + 2 powi (e - 1)
      else \<bar>v - of_int m * 2 powi e\<bar> < 2 powi (e - 1))"

section \<open>Rounding of a rational to an integer\<close>

lemma rat_round_error: "\<bar>of_int (rat_round q) - q\<bar> \<le> 1 / 2"
proof -
  have "of_int \<lfloor>q\<rfloor> \<le> q" "q < of_int \<lfloor>q\<rfloor> + 1" by linarith+
  then show ?thesis by (auto simp: rat_round_def Let_def)
qed

lemma round_div_rat_round:
  assumes "0 < d"
  shows "round_div n d = rat_round (of_int n / of_int d)"
proof -
  let ?f = "n div d" and ?r = "n mod d"
  define \<rho> where "\<rho> = (of_int ?r / of_int d :: rat)"
  have dq: "(0::rat) < of_int d" using assms by simp
  have "(of_int n :: rat) = of_int ?f * of_int d + of_int ?r"
    by (metis of_int_add of_int_mult div_mult_mod_eq)
  then have q: "of_int n / of_int d - of_int ?f = \<rho>"
    using dq by (simp add: \<rho>_def field_simps)
  have fl: "\<lfloor>(of_int n / of_int d :: rat)\<rfloor> = ?f" by (rule floor_divide_of_int_eq)
  have lt: "2 * ?r < d \<longleftrightarrow> \<rho> < 1 / 2"
  proof -
    have "2 * ?r < d \<longleftrightarrow> (of_int (2 * ?r) :: rat) < of_int d" by (rule of_int_less_iff [symmetric])
    also have "\<dots> \<longleftrightarrow> \<rho> < 1 / 2" using dq by (simp add: \<rho>_def divide_less_eq mult.commute)
    finally show ?thesis .
  qed
  have gt: "d < 2 * ?r \<longleftrightarrow> 1 / 2 < \<rho>"
  proof -
    have "d < 2 * ?r \<longleftrightarrow> of_int d < (of_int (2 * ?r) :: rat)" by (rule of_int_less_iff [symmetric])
    also have "\<dots> \<longleftrightarrow> 1 / 2 < \<rho>" using dq by (simp add: \<rho>_def less_divide_eq mult.commute)
    finally show ?thesis .
  qed
  show ?thesis unfolding round_div_def rat_round_def Let_def fl q lt gt ..
qed

lemma round_scaled_rat_round:
  assumes "0 < b"
  shows "round_scaled a b k = rat_round (of_int a / of_int b * 2 powi k)"
proof -
  define num den where "num = (if 0 \<le> k then a * 2 ^ nat k else a)"
    and "den = (if 0 \<le> k then b else b * 2 ^ nat (- k))"
  have dpos: "0 < den" using assms by (simp add: den_def)
  have eq: "of_int a / of_int b * 2 powi k = (of_int num / of_int den :: rat)"
    by (simp add: num_def den_def two_powi_nonneg two_powi_neg)
  have "round_scaled a b k = round_div num den"
    by (simp add: round_scaled_def num_def den_def)
  then show ?thesis by (simp only: eq round_div_rat_round [OF dpos])
qed

lemma round_div_error:
  assumes "0 < d"
  shows "\<bar>of_int (round_div n d) - of_int n / of_int d\<bar> \<le> (1 / 2 :: rat)"
  using rat_round_error [of "of_int n / of_int d"] by (simp add: round_div_rat_round [OF assms])

lemma round_scaled_error:
  assumes "0 < b"
  shows "\<bar>of_int (round_scaled a b k) - of_int a / of_int b * 2 powi k\<bar> \<le> (1 / 2 :: rat)"
  using rat_round_error [of "of_int a / of_int b * 2 powi k"] by (simp add: round_scaled_rat_round [OF assms])

section \<open>Error of \<open>round_exact\<close>\<close>

lemma div_sign_abs:
  "(of_int n / of_int d :: rat) = (if (n < 0) \<noteq> (d < 0) then - 1 else 1) * (of_int \<bar>n\<bar> / of_int \<bar>d\<bar>)"
  by (cases "n < 0"; cases "d < 0") (simp_all add: abs_if divide_minus_left divide_minus_right)

lemma round_exact_half_ulp:
  assumes "n \<noteq> 0" "d \<noteq> 0" "is_finite (round_exact (Exact n d e))"
  shows "\<bar>fval (round_exact (Exact n d e)) - exact_val (Exact n d e)\<bar>
           \<le> 2 powi (max (flog2 \<bar>n\<bar> \<bar>d\<bar> + e - 52) (-1074) - 1)"
proof -
  let ?a = "\<bar>n\<bar>" and ?b = "\<bar>d\<bar>"
  define E where "E = max (flog2 ?a ?b + e - 52) (-1074)"
  define m where "m = round_scaled ?a ?b (e - E)"
  define s where "s = ((n < 0) \<noteq> (d < 0))"
  define q where "q = (of_int ?a / of_int ?b * 2 powi (e - E) :: rat)"
  define sg where "sg = (if s then - 1 else (1::rat))"
  have bpos: "0 < ?b" using assms(2) by simp
  have eq: "round_exact (Exact n d e) = (if m = 2 ^ 53 then (if 971 < E + 1 then Inf s else Fin s (2 ^ 52) (E + 1))
        else if 971 < E then Inf s else Fin s m E)"
    by (rule round_exact_unfold [OF assms(1,2) E_def m_def s_def])
  have fv: "fval (round_exact (Exact n d e)) = sg * (of_int m * 2 powi E)"
  proof (cases "m = 2 ^ 53")
    case True
    then have "fval (round_exact (Exact n d e)) = sg * (of_int (2 ^ 52) * 2 powi (E + 1))"
      using assms(3) eq by (auto simp: sg_def split: if_splits)
    also have "\<dots> = sg * (of_int m * 2 powi E)"
      using True by (simp add: power_int_add)
    finally show ?thesis .
  next
    case False
    then show ?thesis using assms(3) eq by (auto simp: sg_def split: if_splits)
  qed
  have ev: "exact_val (Exact n d e) = sg * (q * 2 powi E)"
    by (simp add: q_def sg_def s_def div_sign_abs [of n d] power_int_add [symmetric])
  have "\<bar>fval (round_exact (Exact n d e)) - exact_val (Exact n d e)\<bar> = 2 powi E * \<bar>of_int m - q\<bar>"
  proof -
    have "fval (round_exact (Exact n d e)) - exact_val (Exact n d e) = sg * (2 powi E * (of_int m - q))"
      unfolding fv ev by (simp add: algebra_simps)
    then show ?thesis by (simp add: abs_mult sg_def)
  qed
  also have "\<dots> \<le> 2 powi E * (1 / 2)"
    using round_scaled_error [OF bpos, of ?a "e - E"] by (simp add: m_def q_def)
  also have "\<dots> = 2 powi (E - 1)" by (simp add: power_int_diff)
  finally show ?thesis by (simp add: E_def)
qed

lemma half_ulp_relative:
  assumes "n \<noteq> 0" "d \<noteq> 0"
  shows "(2::rat) powi (max (flog2 \<bar>n\<bar> \<bar>d\<bar> + e - 52) (-1074) - 1)
           \<le> max (\<bar>exact_val (Exact n d e)\<bar> * 2 powi -53) (2 powi -1075)"
proof -
  let ?L = "flog2 \<bar>n\<bar> \<bar>d\<bar>"
  have v: "\<bar>exact_val (Exact n d e)\<bar> = of_int \<bar>n\<bar> / of_int \<bar>d\<bar> * 2 powi e"
    by (simp add: div_sign_abs [of n d] abs_mult)
  show ?thesis
  proof (cases "-1074 \<le> ?L + e - 52")
    case True
    then have E: "max (?L + e - 52) (-1074) = ?L + e - 52" by simp
    have "?L + e - 52 - 1 = ?L + e + (-53)" by simp
    then have "(2::rat) powi (?L + e - 52 - 1) = 2 powi ?L * 2 powi e * 2 powi -53"
      by (simp only: power_int_add [of "2::rat"] zero_neq_numeral [symmetric] simp_thms)
    also have "\<dots> \<le> of_int \<bar>n\<bar> / of_int \<bar>d\<bar> * 2 powi e * 2 powi -53"
    proof -
      have lo: "2 powi ?L \<le> (of_int \<bar>n\<bar> / of_int \<bar>d\<bar> :: rat)"
        using flog2_bounds [of "\<bar>n\<bar>" "\<bar>d\<bar>"] assms by simp
      show ?thesis by (rule mult_right_mono [OF mult_right_mono [OF lo]]) simp_all
    qed
    also have "\<dots> = \<bar>exact_val (Exact n d e)\<bar> * 2 powi -53" by (simp only: v)
    finally show ?thesis unfolding E by (rule max.coboundedI1)
  next
    case False
    then have E: "max (?L + e - 52) (-1074) = -1074" by simp
    show ?thesis unfolding E by (rule max.coboundedI2) simp
  qed
qed

lemma round_exact_err_bound:
  assumes "is_finite (round_exact x)"
  shows "\<bar>fval (round_exact x) - exact_val x\<bar> \<le> max (\<bar>exact_val x\<bar> * 2 powi -53) (2 powi -1075)"
proof (cases x)
  case (Exact n d e)
  show ?thesis
  proof (cases "n = 0 \<or> d = 0")
    case True
    then have r: "round_exact x = Fin False 0 (-1074)" and v: "exact_val x = 0"
      using Exact by (auto simp: round_exact.simps)
    show ?thesis unfolding r v by (rule max.coboundedI2) simp
  next
    case False
    then have n: "n \<noteq> 0" and d: "d \<noteq> 0" by simp_all
    have f: "is_finite (round_exact (Exact n d e))" using assms Exact by simp
    show ?thesis unfolding Exact
      by (rule order_trans [OF round_exact_half_ulp [OF n d f] half_ulp_relative [OF n d]])
  qed
qed

section \<open>Exact arithmetic on \<open>exact\<close> values\<close>

lemma exact_val_add:
  "exact_val (exact_add (Exact n1 1 e1) (Exact n2 1 e2)) = exact_val (Exact n1 1 e1) + exact_val (Exact n2 1 e2)"
proof -
  define e where "e = min e1 e2"
  have p: "(2::rat) ^ nat (e' - e) * 2 powi e = 2 powi e'" if "e \<le> e'" for e'
  proof -
    have "(2::rat) ^ nat (e' - e) * 2 powi e = 2 powi (e' - e) * 2 powi e"
      using that by (simp add: power_int_def)
    also have "\<dots> = 2 powi e'" by (simp add: power_int_add [symmetric])
    finally show ?thesis .
  qed
  have "e \<le> e1" "e \<le> e2" by (simp_all add: e_def)
  then show ?thesis
    by (simp add: e_def [symmetric] Let_def distrib_right mult.assoc p)
qed

lemma exact_val_mul: "exact_val (exact_mul x y) = exact_val x * exact_val y"
  by (cases x; cases y) (simp add: power_int_add)

lemma exact_val_div: "exact_val (exact_div x y) = exact_val x / exact_val y"
  by (cases x; cases y) (simp add: power_int_diff mult_ac)

lemma exact_val_add_fin:
  "exact_val (exact_add (to_exact (Fin s m e)) (to_exact (Fin t n f))) = fval (Fin s m e) + fval (Fin t n f)"
  unfolding to_exact.simps exact_val_add by (cases s; cases t) simp_all

lemma exact_num_add_fin:
  "exact_num (exact_add (to_exact (Fin s m e)) (to_exact (Fin t n f))) = 0 \<longleftrightarrow>
   fval (Fin s m e) + fval (Fin t n f) = 0"
proof -
  define X where "X = exact_add (to_exact (Fin s m e)) (to_exact (Fin t n f))"
  have X1: "X = Exact (exact_num X) 1 (min e f)" by (simp add: X_def Let_def)
  have "exact_val X = of_int (exact_num X) * 2 powi min e f" by (subst X1) simp
  then have z: "exact_num X = 0 \<longleftrightarrow> exact_val X = 0" by simp
  have v: "exact_val X = fval (Fin s m e) + fval (Fin t n f)"
    unfolding X_def by (rule exact_val_add_fin)
  show ?thesis unfolding X_def [symmetric] z v ..
qed

section \<open>Each operation rounds its exact result\<close>

lemma rounds_to_zero [simp]: "rounds_to 0 (Fin s 0 e)"
  by (simp add: rounds_to_def)

lemma round_exact_rounds_to: "is_finite (round_exact x) \<Longrightarrow> rounds_to (exact_val x) (round_exact x)"
  unfolding rounds_to_def by (rule round_exact_err_bound)

lemma exact_num_zero: "exact_num x = 0 \<Longrightarrow> exact_val x = 0"
  by (cases x) simp

lemma float_add_rounds_to:
  assumes "is_finite x" "is_finite y" "is_finite (float_add x y)"
  shows "rounds_to (fval x + fval y) (float_add x y)"
proof -
  obtain s m e t n f where xy: "x = Fin s m e" "y = Fin t n f"
    using assms(1,2) by (cases x; cases y) auto
  define X where "X = exact_add (to_exact x) (to_exact y)"
  have v: "exact_val X = fval x + fval y"
    unfolding X_def xy by (rule exact_val_add_fin)
  have fa: "float_add x y = (if exact_num X = 0 then Fin (m = 0 \<and> n = 0 \<and> s \<and> t) 0 (-1074) else round_exact X)"
    unfolding xy X_def by (simp only: float_add.simps Let_def)
  show ?thesis
  proof (cases "exact_num X = 0")
    case True
    then show ?thesis using exact_num_zero [OF True] v fa by simp
  next
    case False
    then have r: "float_add x y = round_exact X" by (simp add: fa)
    show ?thesis using round_exact_rounds_to [of X] assms(3) unfolding r v by simp
  qed
qed

lemma is_finite_neg [simp]: "is_finite (float_neg x) = is_finite x"
  by (cases x) simp_all

lemma fval_neg [simp]: "fval (float_neg x) = - fval x"
  by (cases x) simp_all

lemma float_sub_rounds_to:
  assumes "is_finite x" "is_finite y" "is_finite (float_sub x y)"
  shows "rounds_to (fval x - fval y) (float_sub x y)"
  using float_add_rounds_to [of x "float_neg y"] assms by (simp add: float_sub_def)

lemma float_mul_rounds_to:
  assumes "is_finite x" "is_finite y" "is_finite (float_mul x y)"
  shows "rounds_to (fval x * fval y) (float_mul x y)"
proof -
  obtain s m e t n f where xy: "x = Fin s m e" "y = Fin t n f"
    using assms(1,2) by (cases x; cases y) auto
  show ?thesis
  proof (cases "m = 0 \<or> n = 0")
    case True
    then show ?thesis by (auto simp: xy)
  next
    case False
    define X where "X = exact_mul (to_exact x) (to_exact y)"
    have r: "float_mul x y = round_exact X" using False by (simp add: xy X_def)
    have v: "exact_val X = fval x * fval y" by (cases s; cases t) (simp_all add: X_def exact_val_mul xy power_int_add)
    show ?thesis using round_exact_rounds_to [of X] assms(3) unfolding r v by simp
  qed
qed

lemma float_div_rounds_to:
  assumes "is_finite x" "is_finite y" "\<not> float_is_zero y" "is_finite (float_div_nonzero x y)"
  shows "rounds_to (fval x / fval y) (float_div_nonzero x y)"
proof -
  obtain s m e t n f where xy: "x = Fin s m e" "y = Fin t n f"
    using assms(1,2) by (cases x; cases y) auto
  show ?thesis
  proof (cases "m = 0")
    case True
    then show ?thesis by (simp add: xy)
  next
    case False
    define X where "X = exact_div (to_exact x) (to_exact y)"
    have r: "float_div_nonzero x y = round_exact X" using False by (simp add: xy X_def)
    have v: "exact_val X = fval x / fval y" by (cases s; cases t) (simp_all add: X_def exact_val_div xy power_int_diff)
    show ?thesis using round_exact_rounds_to [of X] assms(4) unfolding r v by simp
  qed
qed

section \<open>The reference rounding\<close>

text \<open>
  \<open>round64\<close> is IEEE round-to-nearest-even written on the rationals: the exponent from
  the real logarithm, the significand by \<open>rat_round\<close>. \<open>round_exact\<close>, which works on
  integers only, computes it; so each operation is the reference rounding of its exact
  result.
\<close>

lemma of_rat_two_powi: "real_of_rat (2 powi k) = 2 powr real_of_int k"
  by (cases "0 \<le> k") (simp_all add: powr_real_of_int' power_int_def of_rat_power of_rat_inverse of_rat_divide)

lemma floor_log_two:
  assumes "(2::rat) powi k \<le> q" "q < 2 powi (k + 1)"
  shows "\<lfloor>log 2 (real_of_rat q)\<rfloor> = k"
proof -
  have "0 < q" using assms(1) two_powi_pos [of k] by linarith
  moreover have "2 powr real_of_int k \<le> real_of_rat q"
    using assms(1) by (metis of_rat_less_eq of_rat_two_powi)
  moreover have "real_of_rat q < 2 powr (real_of_int k + 1)"
    using assms(2) by (metis of_int_add of_int_1 of_rat_less of_rat_two_powi)
  ultimately show ?thesis by (simp add: floor_log_eq_powr_iff)
qed

lemma round_exact_round64: "round_exact x = round64 (exact_val x)"
proof (cases x)
  case (Exact n d e)
  show ?thesis
  proof (cases "n = 0 \<or> d = 0")
    case True
    then show ?thesis using Exact by (auto simp: round_exact.simps round64_def)
  next
    case False
    let ?a = "\<bar>n\<bar>" and ?b = "\<bar>d\<bar>"
    let ?L = "flog2 ?a ?b"
    define v where "v = exact_val x"
    have ab: "0 < ?a" "0 < ?b" using False by auto
    have pos: "(0::rat) < of_int ?a / of_int ?b * 2 powi e" using ab by simp
    have vs: "v = (if (n < 0) \<noteq> (d < 0) then - 1 else 1) * (of_int ?a / of_int ?b * 2 powi e)"
      by (simp add: v_def Exact div_sign_abs [of n d])
    have av: "\<bar>v\<bar> = of_int ?a / of_int ?b * 2 powi e" using vs pos by (simp add: abs_mult)
    have sv: "(v < 0) = ((n < 0) \<noteq> (d < 0))" using vs pos by auto
    have v0: "v \<noteq> 0" using vs pos by auto
    have lg: "\<lfloor>log 2 (real_of_rat \<bar>v\<bar>)\<rfloor> = ?L + e"
    proof (rule floor_log_two)
      have b: "2 powi ?L \<le> (of_int ?a / of_int ?b :: rat)" "of_int ?a / of_int ?b < (2::rat) powi (?L + 1)"
        using flog2_bounds [OF ab] by auto
      have "(2::rat) powi (?L + e) = 2 powi ?L * 2 powi e" by (simp add: power_int_add)
      also have "\<dots> \<le> \<bar>v\<bar>" unfolding av by (rule mult_right_mono [OF b(1)]) simp
      finally show "(2::rat) powi (?L + e) \<le> \<bar>v\<bar>" .
      have "\<bar>v\<bar> < 2 powi (?L + 1) * 2 powi e" unfolding av by (rule mult_strict_right_mono [OF b(2)]) simp
      also have "\<dots> = 2 powi (?L + e + 1)" by (simp add: power_int_add [symmetric] add_ac)
      finally show "\<bar>v\<bar> < 2 powi (?L + e + 1)" .
    qed
    have m: "rat_round (\<bar>v\<bar> * 2 powi (- E)) = round_scaled ?a ?b (e - E)" for E
    proof -
      have "\<bar>v\<bar> * 2 powi (- E) = of_int ?a / of_int ?b * 2 powi (e - E)"
        unfolding av by (simp add: power_int_diff power_int_minus divide_inverse mult.assoc)
      then show ?thesis by (simp add: round_scaled_rat_round [OF ab(2)])
    qed
    define E where "E = max (?L + e - 52) (-1074)"
    define M where "M = round_scaled ?a ?b (e - E)"
    define S where "S = ((n < 0) \<noteq> (d < 0))"
    have n: "n \<noteq> 0" and d: "d \<noteq> 0" using False by simp_all
    have "round64 v = (if M = 2 ^ 53 then (if 971 < E + 1 then Inf S else Fin S (2 ^ 52) (E + 1))
        else if 971 < E then Inf S else Fin S M E)"
      unfolding round64_def Let_def lg sv m E_def [symmetric] M_def [symmetric] S_def [symmetric]
      using v0 by (simp only: if_False)
    also have "\<dots> = round_exact (Exact n d e)"
      by (rule round_exact_unfold [OF n d E_def M_def S_def, symmetric])
    finally have "round64 v = round_exact (Exact n d e)" .
    then show ?thesis by (simp add: v_def Exact)
  qed
qed

lemma float_add_fin:
  "float_add (Fin s m e) (Fin t n f) =
     (if fval (Fin s m e) + fval (Fin t n f) = 0 then Fin (m = 0 \<and> n = 0 \<and> s \<and> t) 0 (-1074)
      else round64 (fval (Fin s m e) + fval (Fin t n f)))"
  using exact_num_add_fin [of s m e t n f] exact_val_add_fin [of s m e t n f]
  by (simp only: float_add.simps Let_def round_exact_round64)

lemma float_mul_fin:
  "float_mul (Fin s m e) (Fin t n f) =
     (if m = 0 \<or> n = 0 then Fin (s \<noteq> t) 0 (-1074) else round64 (fval (Fin s m e) * fval (Fin t n f)))"
  by (cases s; cases t) (simp_all add: round_exact_round64 exact_val_mul power_int_add mult_ac)

lemma float_div_fin:
  "float_div_nonzero (Fin s m e) (Fin t n f) =
     (if m = 0 then Fin (s \<noteq> t) 0 (-1074) else round64 (fval (Fin s m e) / fval (Fin t n f)))"
  by (cases s; cases t) (simp_all add: round_exact_round64 exact_val_div power_int_diff)

section \<open>Integers as floats\<close>

text \<open>
  \<open>float(n)\<close> of an \<open>int\<close> below \<open>2^53\<close> in magnitude is exact, and the sum,
  difference and product of two such floats is \<open>float\<close> of the integer result: the
  single rounding of the operation is the rounding \<open>float()\<close> does. A zero product
  carries the sign of the operands' product (\<open>0.0 * -5.0 = -0.0\<close>).
\<close>

lemma round64_of_int: "round64 (of_int k) = float_of_int k"
  using round_exact_round64 [of "Exact k 1 0"] by (simp add: float_of_int_def)

lemma float_of_int_fin:
  assumes "\<bar>k\<bar> < 2 ^ 53"
  obtains a e where "float_of_int k = Fin (k < 0) a e" "fval (Fin (k < 0) a e) = of_int k"
    "a = 0 \<longleftrightarrow> k = 0"
proof -
  have fin: "is_finite (float_of_int k)" and v: "fval (float_of_int k) = of_int k"
    using float_of_int_exact [OF assms] by simp_all
  obtain s a e where F: "float_of_int k = Fin s a e" using fin by (cases "float_of_int k") auto
  have a0: "0 \<le> a" using wf_float_of_int [of k] F by simp
  have v': "(if s then - 1 else 1) * (of_int a * 2 powi e) = (of_int k :: rat)" using v F by simp
  have "(of_int k :: rat) = 0 \<longleftrightarrow> of_int a * (2::rat) powi e = 0" using v' by (cases s) auto
  then have az: "a = 0 \<longleftrightarrow> k = 0" by simp
  have "s = (k < 0)"
  proof (cases "k = 0")
    case True
    then show ?thesis using F by (simp add: float_of_int_def)
  next
    case False
    have "0 \<le> of_int a * (2::rat) powi e" using a0 by simp
    then show ?thesis using v' False by (cases s) (auto simp: not_less)
  qed
  then show ?thesis using that F v az by simp
qed

lemma float_of_int_zero [simp]: "float_of_int 0 = Fin False 0 (-1074)"
  by (simp add: float_of_int_def)

lemma round64_of_int_sum:
  "k \<noteq> 0 \<Longrightarrow> (if of_int k = (0::rat) then z else round64 (of_int k)) = float_of_int k"
  by (simp add: round64_of_int)

lemma float_add_of_int:
  assumes "\<bar>m\<bar> < 2 ^ 53" "\<bar>n\<bar> < 2 ^ 53"
  shows "float_add (float_of_int m) (float_of_int n) = float_of_int (m + n)"
proof -
  obtain a e where A: "float_of_int m = Fin (m < 0) a e" "fval (Fin (m < 0) a e) = of_int m"
    by (rule float_of_int_fin [OF assms(1)])
  obtain b f where B: "float_of_int n = Fin (n < 0) b f" "fval (Fin (n < 0) b f) = of_int n"
    by (rule float_of_int_fin [OF assms(2)])
  show ?thesis
  proof (cases "m + n = 0")
    case True
    then show ?thesis unfolding A(1) B(1) float_add_fin A(2) B(2) by auto
  next
    case False
    then show ?thesis using round64_of_int_sum [OF False]
      unfolding A(1) B(1) float_add_fin A(2) B(2) by simp
  qed
qed

lemma float_sub_of_int:
  assumes "\<bar>m\<bar> < 2 ^ 53" "\<bar>n\<bar> < 2 ^ 53"
  shows "float_sub (float_of_int m) (float_of_int n) = float_of_int (m - n)"
proof -
  obtain a e where A: "float_of_int m = Fin (m < 0) a e" "fval (Fin (m < 0) a e) = of_int m"
    by (rule float_of_int_fin [OF assms(1)])
  obtain b f where B: "float_of_int n = Fin (n < 0) b f" "fval (Fin (n < 0) b f) = of_int n"
    by (rule float_of_int_fin [OF assms(2)])
  have B': "fval (Fin (\<not> n < 0) b f) = - of_int n" using B(2) by (cases "n < 0") simp_all
  show ?thesis
  proof (cases "m - n = 0")
    case True
    then show ?thesis unfolding float_sub_def A(1) B(1) float_neg.simps float_add_fin A(2) B' by auto
  next
    case False
    then show ?thesis using round64_of_int_sum [OF False]
      unfolding float_sub_def A(1) B(1) float_neg.simps float_add_fin A(2) B' by simp
  qed
qed

lemma float_mul_of_int:
  assumes "\<bar>m\<bar> < 2 ^ 53" "\<bar>n\<bar> < 2 ^ 53"
  shows "float_mul (float_of_int m) (float_of_int n) =
    (if m = 0 \<or> n = 0 then Fin ((m < 0) \<noteq> (n < 0)) 0 (-1074) else float_of_int (m * n))"
proof -
  obtain a e where A: "float_of_int m = Fin (m < 0) a e" "fval (Fin (m < 0) a e) = of_int m" "a = 0 \<longleftrightarrow> m = 0"
    by (rule float_of_int_fin [OF assms(1)])
  obtain b f where B: "float_of_int n = Fin (n < 0) b f" "fval (Fin (n < 0) b f) = of_int n" "b = 0 \<longleftrightarrow> n = 0"
    by (rule float_of_int_fin [OF assms(2)])
  show ?thesis
    unfolding A(1) B(1) float_mul_fin A(2) B(2) A(3) B(3)
    using round64_of_int [of "m * n"] by simp
qed

section \<open>Nearest rounding\<close>

text \<open>
  \<open>round64\<close> maps every rational inside the rounding interval of a positive canonical
  binary64 to that binary64: in its binade, just below a power of two (where the
  rounding carries into the next binade), and among the subnormals.
\<close>

lemma rat_round_near: "\<bar>q - of_int z\<bar> < 1 / 2 \<Longrightarrow> rat_round q = z"
proof -
  assume a: "\<bar>q - of_int z\<bar> < 1 / 2"
  show ?thesis
  proof (cases "of_int z \<le> q")
    case True
    then have "\<lfloor>q\<rfloor> = z" using a by linarith
    then show ?thesis using a True by (simp add: rat_round_def Let_def)
  next
    case False
    then have "\<lfloor>q\<rfloor> = z - 1" using a by linarith
    then show ?thesis using a False by (simp add: rat_round_def Let_def)
  qed
qed

lemma log2_floor_bounds:
  assumes "0 < v"
  shows "2 powi \<lfloor>log 2 (real_of_rat v)\<rfloor> \<le> v \<and> v < 2 powi (\<lfloor>log 2 (real_of_rat v)\<rfloor> + 1)"
proof -
  let ?L = "\<lfloor>log 2 (real_of_rat v)\<rfloor>"
  have "0 < real_of_rat v" using assms by simp
  then have r: "2 powr real_of_int ?L \<le> real_of_rat v \<and> real_of_rat v < 2 powr (real_of_int ?L + 1)"
    using floor_log_eq_powr_iff [of "real_of_rat v" 2 ?L] by simp
  have "real_of_rat (2 powi ?L) \<le> real_of_rat v" using r by (simp add: of_rat_two_powi)
  moreover have "real_of_rat v < real_of_rat (2 powi (?L + 1))"
    using r by (metis of_int_add of_int_1 of_rat_two_powi)
  ultimately show ?thesis by (simp add: of_rat_less_eq of_rat_less)
qed

lemma log2_floor_le:
  assumes "0 < v" "v < 2 powi (k + 1)"
  shows "\<lfloor>log 2 (real_of_rat v)\<rfloor> \<le> k"
proof -
  from log2_floor_bounds [OF assms(1)]
  have "(2::rat) powi \<lfloor>log 2 (real_of_rat v)\<rfloor> < 2 powi (k + 1)" using assms(2) by linarith
  then show ?thesis using two_powi_less_imp_less by fastforce
qed

lemma round64_pos:
  assumes "0 < v" "E = max (\<lfloor>log 2 (real_of_rat v)\<rfloor> - 52) (-1074)" "M = rat_round (v * 2 powi (- E))"
  shows "round64 v = (if M = 2 ^ 53 then (if 971 < E + 1 then Inf False else Fin False (2 ^ 52) (E + 1))
     else if 971 < E then Inf False else Fin False M E)"
proof -
  have a: "\<bar>v\<bar> = v" "(v = 0) = False" "(v < 0) = False" using assms(1) by simp_all
  show ?thesis
    unfolding round64_def Let_def a assms(2) [symmetric] assms(3) [symmetric] if_False ..
qed

lemma scale_less:
  "((a::rat) * 2 powi e < v) = (a < v * 2 powi (- e))"
  "(v < (a::rat) * 2 powi e) = (v * 2 powi (- e) < a)"
  "((a::rat) * 2 powi e \<le> v) = (a \<le> v * 2 powi (- e))"
  by (simp_all add: power_int_minus divide_inverse [symmetric] pos_less_divide_eq pos_divide_less_eq
      pos_le_divide_eq)

lemma two_powi_shift: "(2::rat) powi (e - k) = 2 powi e * 2 powi (- k)"
  by (simp add: power_int_diff power_int_minus divide_inverse)

lemma near64_scaled:
  assumes "near64 v m e"
  shows "(if m = 2 ^ 52 \<and> -1074 < e then of_int m - 1 / 4 < v * 2 powi (- e)
          else of_int m - 1 / 2 < v * 2 powi (- e)) \<and> v * 2 powi (- e) < of_int m + 1 / 2"
proof -
  have h: "(2::rat) powi (e - 1) = 1 / 2 * 2 powi e" "(2::rat) powi (e - 2) = 1 / 4 * 2 powi e"
    by (simp_all add: two_powi_shift)
  have q: "of_int m * 2 powi e + 2 powi (e - 1) = (of_int m + 1 / 2) * (2::rat) powi e"
    "of_int m * 2 powi e - 2 powi (e - 1) = (of_int m - 1 / 2) * (2::rat) powi e"
    "of_int m * 2 powi e - 2 powi (e - 2) = (of_int m - 1 / 4) * (2::rat) powi e"
    unfolding h by (simp_all add: algebra_simps)
  have up: "v < (of_int m + 1 / 2) * 2 powi e" and
    lo: "if m = 2 ^ 52 \<and> -1074 < e then (of_int m - 1 / 4) * 2 powi e < v
         else (of_int m - 1 / 2) * 2 powi e < v"
  proof -
    show "v < (of_int m + 1 / 2) * 2 powi e"
    proof (cases "m = 2 ^ 52 \<and> -1074 < e")
      case True
      then show ?thesis using assms q(1) by (simp add: near64_def)
    next
      case False
      then have "\<bar>v - of_int m * 2 powi e\<bar> < 2 powi (e - 1)" using assms by (simp add: near64_def)
      then show ?thesis using q(1) by (simp only: abs_less_iff) linarith
    qed
    show "if m = 2 ^ 52 \<and> -1074 < e then (of_int m - 1 / 4) * 2 powi e < v
         else (of_int m - 1 / 2) * 2 powi e < v"
    proof (cases "m = 2 ^ 52 \<and> -1074 < e")
      case True
      then show ?thesis using assms q(3) by (simp add: near64_def)
    next
      case False
      then have "\<bar>v - of_int m * 2 powi e\<bar> < 2 powi (e - 1)" using assms by (simp add: near64_def)
      then show ?thesis using q(2) False by (simp only: abs_less_iff if_False) linarith
    qed
  qed
  have up': "v * 2 powi (- e) < of_int m + 1 / 2" using up by (simp only: scale_less(2))
  have lo': "if m = 2 ^ 52 \<and> -1074 < e then of_int m - 1 / 4 < v * 2 powi (- e)
          else of_int m - 1 / 2 < v * 2 powi (- e)" using lo by (simp only: scale_less(1))
  show ?thesis using lo' up' by (rule conjI)
qed

lemma round64_near:
  assumes wf: "wf_float (Fin False m e)" and m0: "0 < m" and nr: "near64 v m e"
  shows "round64 v = Fin False m e"
proof -
  define w where "w = v * 2 powi (- e)"
  have wf': "m < 2 ^ 53" "-1074 \<le> e" "e \<le> 971" "2 ^ 52 \<le> m \<or> e = -1074" using wf by auto
  note bb = near64_scaled [OF nr, folded w_def]
  have b: "if m = 2 ^ 52 \<and> -1074 < e then of_int m - 1 / 4 < w else of_int m - 1 / 2 < w"
    "w < of_int m + 1 / 2"
    using conjunct1 [OF bb] conjunct2 [OF bb] by simp_all
  have wlo: "of_int m - 1 / 2 < w" using b(1) by (simp split: if_splits)
  have v: "v = w * 2 powi e" by (simp add: w_def power_int_minus)
  have cmp: "((2::rat) powi (k + e) \<le> v) = (2 powi k \<le> w)" "(v < (2::rat) powi (k + e)) = (w < 2 powi k)" for k
    using scale_less(3) [of "2 powi k" e v] scale_less(2) [of v "2 powi k" e]
    by (simp_all add: power_int_add w_def)
  have "(1::rat) \<le> of_int m" using m0 by simp
  then have "0 < w" using wlo by linarith
  then have vpos: "0 < v" by (simp add: v)
  have mw: "of_int m \<le> (2::rat) ^ 53 - 1"
  proof -
    have "m \<le> 2 ^ 53 - 1" using wf'(1) by simp
    then have "(of_int m :: rat) \<le> of_int (2 ^ 53 - 1)" by (simp only: of_int_le_iff)
    then show ?thesis by simp
  qed
  have p: "(2::rat) powi 51 = 2 ^ 51" "(2::rat) powi 52 = 2 ^ 52" "(2::rat) powi 53 = 2 ^ 53"
    by (simp_all add: power_int_def)
  show ?thesis
  proof (cases "2 powi 52 \<le> w")
    case True
    have L: "\<lfloor>log 2 (real_of_rat v)\<rfloor> = 52 + e"
    proof (rule floor_log_two)
      show "2 powi (52 + e) \<le> v" using cmp(1) [of 52] True by simp
      have "w < 2 powi 53" using b(2) mw p by simp
      then show "v < 2 powi (52 + e + 1)" using cmp(2) [of 53] by (simp add: add.commute add.left_commute)
    qed
    have E: "max (52 + e - 52) (-1074) = e" using wf' by simp
    have mge: "2 ^ 52 \<le> m"
    proof (rule ccontr)
      assume "\<not> 2 ^ 52 \<le> m"
      then have "m \<le> 2 ^ 52 - 1" by simp
      then have "(of_int m :: rat) \<le> of_int (2 ^ 52 - 1)" by (simp only: of_int_le_iff)
      then show False using b(2) True p by simp
    qed
    have near: "\<bar>w - of_int m\<bar> < 1 / 2"
    proof (cases "m = 2 ^ 52 \<and> -1074 < e")
      case True
      then have "of_int m \<le> w" using \<open>2 powi 52 \<le> w\<close> p by simp
      then show ?thesis using b(2) by simp
    next
      case False
      then have "of_int m - 1 / 2 < w" using b(1) by (simp only: if_False)
      then show ?thesis using b(2) by (simp only: abs_less_iff) linarith
    qed
    have M: "rat_round (v * 2 powi (- e)) = m" using rat_round_near [OF near] by (simp add: w_def)
    show ?thesis using round64_pos [OF vpos refl refl] wf'(1,3) unfolding L E M by simp
  next
    case False
    show ?thesis
    proof (cases "m = 2 ^ 52 \<and> -1074 < e")
      case True
      have w4: "of_int m - 1 / 4 < w" using b(1) True by simp
      have L: "\<lfloor>log 2 (real_of_rat v)\<rfloor> = 51 + e"
      proof (rule floor_log_two)
        have "2 powi 51 \<le> w" using w4 True p by simp
        then show "2 powi (51 + e) \<le> v" using cmp(1) [of 51] by simp
        show "v < 2 powi (51 + e + 1)" using cmp(2) [of 52] False by (simp add: add.commute add.left_commute)
      qed
      have E: "max (51 + e - 52) (-1074) = e - 1" using True by simp
      have s: "v * 2 powi (- (e - 1)) = 2 * w"
        by (simp add: w_def power_int_minus power_int_diff divide_inverse mult_ac)
      have near: "\<bar>2 * w - of_int (2 ^ 53)\<bar> < 1 / 2" using w4 False True p by simp
      have M: "rat_round (v * 2 powi (- (e - 1))) = 2 ^ 53" unfolding s by (rule rat_round_near [OF near])
      show ?thesis using round64_pos [OF vpos refl refl] wf'(3) True unfolding L E M by simp
    next
      case F2: False
      have e: "e = -1074"
      proof (cases "2 ^ 52 \<le> m")
        case True
        have "m = 2 ^ 52"
        proof (rule ccontr)
          assume "m \<noteq> 2 ^ 52"
          then have "2 ^ 52 + 1 \<le> m" using True by simp
          then have "(of_int (2 ^ 52 + 1) :: rat) \<le> of_int m" by (simp only: of_int_le_iff)
          then show False using wlo False p by simp
        qed
        then show ?thesis using F2 wf'(2) by simp
      next
        case False
        then show ?thesis using wf'(4) by simp
      qed
      have Lle: "\<lfloor>log 2 (real_of_rat v)\<rfloor> \<le> 51 + e"
        by (rule log2_floor_le [OF vpos]) (use cmp(2) [of 52] False in \<open>simp add: add.commute add.left_commute\<close>)
      have X: "\<lfloor>log 2 (real_of_rat v)\<rfloor> - 52 \<le> -1074" using Lle e by linarith
      have E: "max (\<lfloor>log 2 (real_of_rat v)\<rfloor> - 52) (-1074) = e" unfolding e by (rule max_absorb2 [OF X])
      have "of_int m - 1 / 2 < w" using b(1) F2 by (simp only: if_False)
      then have near: "\<bar>w - of_int m\<bar> < 1 / 2" using b(2) by (simp only: abs_less_iff) linarith
      have M: "rat_round (v * 2 powi (- e)) = m" using rat_round_near [OF near] by (simp add: w_def)
      show ?thesis using round64_pos [OF vpos refl refl] wf'(1) e unfolding E M by simp
    qed
  qed
qed

end
