(* ===== verification/FloatRepr.thy ===== *)
theory FloatRepr
  imports FloatParse FloatRounding
begin

text \<open>
  \<open>repr(x)\<close> of a Python \<open>float\<close>, which \<open>json.dumps\<close> (and so \<open>jsonify\<close> in
  \<open>src/api/app.py\<close> and \<open>src/api/main.py\<close>) writes for a float result. CPython
  prints the shortest decimal string that \<open>float()\<close> reads back as the same value,
  the nearest such string when there are two, with ties to an even last digit
  (David Gay's \<open>dtoa\<close> mode 0), then formats it as \<open>float_repr_style = 'short'\<close>
  does: positional notation with \<open>.0\<close> for an integral value when the decimal point
  falls between 10^-4 and 10^16, exponent notation \<open>d.ddde+XX\<close> otherwise.
  \<^item> \<open>int_digits\<close>, \<open>int_repr\<close>: the decimal digits of an \<open>int\<close> (\<open>str(n)\<close>);
  \<^item> \<open>flog10\<close>: the decimal exponent of a positive fraction, as \<open>flog2\<close> does in base 2;
  \<^item> \<open>repr_candidate m e k\<close>: the \<open>k\<close>-digit decimals just below and above
    \<open>m * 2^e\<close> that round back to it, the nearer one chosen; \<open>shortest_decimal\<close>
    tries \<open>k = 1 .. 17\<close> in turn (17 digits always suffice for binary64);
  \<^item> \<open>repr_digits\<close>, \<open>float_repr\<close>: the formatting.
  The lemmas establish the digits of \<open>str(n)\<close> (\<open>int_digits_correct\<close>), the bounds
  of \<open>flog10\<close>, that each accepted candidate rounds to the float under the reference
  rounding \<open>round64\<close> and that the 17-digit one is always accepted
  (\<open>repr_candidate_17\<close>), the value of \<open>shortest_decimal\<close>
  (\<open>shortest_decimal_spec\<close>), and that \<open>float()\<close> parses each layout of
  \<open>repr_digits\<close> back to that value (\<open>parse_repr_digits\<close>), so that
  \<open>float(repr(x)) = x\<close> for every finite canonical \<open>x\<close> (\<open>parse_float_str_repr\<close>).
\<close>

definition digit_char :: "int \<Rightarrow> char" where
  "digit_char d = char_of (48 + d)"

function int_digits :: "int \<Rightarrow> string" where
  "int_digits n = (if n < 10 then [digit_char n] else int_digits (n div 10) @ [digit_char (n mod 10)])"
  by pat_completeness auto
termination by (relation "measure nat") auto

definition int_repr :: "int \<Rightarrow> string" where
  "int_repr n = (if n < 0 then CHR ''-'' # int_digits (- n) else int_digits n)"

definition ilog10 :: "int \<Rightarrow> int" where
  "ilog10 n = int (length (int_digits n)) - 1"

definition pow10_le :: "int \<Rightarrow> int \<Rightarrow> int \<Rightarrow> bool" where
  "pow10_le d a k = (if 0 \<le> k then d * 10 ^ nat k \<le> a else d \<le> a * 10 ^ nat (- k))"

definition flog10 :: "int \<Rightarrow> int \<Rightarrow> int" where
  "flog10 a b = (let k = ilog10 a - ilog10 b in if pow10_le b a k then k else k - 1)"

text \<open>The significand and binary exponent of a positive finite value \<open>a * 2^e\<close> as a
  fraction \<open>num / den\<close>.\<close>

definition frac_of :: "int \<Rightarrow> int \<Rightarrow> int \<times> int" where
  "frac_of a e = (if 0 \<le> e then (a * 2 ^ nat e, 1) else (a, 2 ^ nat (- e)))"

text \<open>The decimal candidates with \<open>k\<close> significant digits next to \<open>num / den\<close>:
  \<open>c * 10^x\<close> for \<open>c\<close> the floor and the ceiling of \<open>num / den * 10^-x\<close>.\<close>

definition scaled_floor :: "int \<Rightarrow> int \<Rightarrow> int \<Rightarrow> int \<times> int" where
  "scaled_floor num den x =
     (if x \<le> 0 then ((num * 10 ^ nat (- x)) div den, (num * 10 ^ nat (- x)) mod den)
      else (num div (den * 10 ^ nat x), num mod (den * 10 ^ nat x)))"

definition round_trips :: "int \<Rightarrow> int \<Rightarrow> int \<Rightarrow> int \<Rightarrow> bool" where
  "round_trips c x m e = (round_exact (decimal_exact c x) = Fin False m e)"

definition repr_candidate :: "int \<Rightarrow> int \<Rightarrow> int \<Rightarrow> (int \<times> int) option" where
  "repr_candidate m e k =
     (let (num, den) = frac_of m e; x = flog10 num den + 1 - k;
          (lo, r) = scaled_floor num den x; hi = lo + 1;
          dden = (if x \<le> 0 then den else den * 10 ^ nat x);
          okl = round_trips lo x m e; okh = r \<noteq> 0 \<and> round_trips hi x m e
      in if okl \<and> okh then
           (if 2 * r < dden then Some (lo, x) else if dden < 2 * r then Some (hi, x)
            else if even lo then Some (lo, x) else Some (hi, x))
         else if okl then Some (lo, x) else if okh then Some (hi, x) else None)"

fun first_some :: "('a \<Rightarrow> 'b option) \<Rightarrow> 'a list \<Rightarrow> 'b option" where
  "first_some f [] = None"
| "first_some f (x # xs) = (case f x of Some y \<Rightarrow> Some y | None \<Rightarrow> first_some f xs)"

function strip_zeros :: "int \<times> int \<Rightarrow> int \<times> int" where
  "strip_zeros (c, x) = (if c \<noteq> 0 \<and> c mod 10 = 0 then strip_zeros (c div 10, x + 1) else (c, x))"
  by pat_completeness auto
termination
proof (relation "measure (\<lambda>(c, x). nat \<bar>c\<bar>)")
  fix c x :: int
  assume a: "c \<noteq> 0 \<and> c mod 10 = 0"
  then have c: "c = 10 * (c div 10)" by (metis add_0_right mult_div_mod_eq)
  then have "c div 10 \<noteq> 0" using a by auto
  then have "\<bar>c div 10\<bar> < \<bar>10 * (c div 10)\<bar>" by (simp add: abs_mult)
  then show "((c div 10, x + 1), c, x) \<in> measure (\<lambda>(c, x). nat \<bar>c\<bar>)" using c by simp
qed simp

definition exp_str :: "int \<Rightarrow> string" where
  "exp_str k = (if k < 0 then CHR ''-'' else CHR ''+'') #
     (if \<bar>k\<bar> < 10 then CHR ''0'' # int_digits \<bar>k\<bar> else int_digits \<bar>k\<bar>)"

definition repr_digits :: "int \<times> int \<Rightarrow> string" where
  "repr_digits cx = (case cx of (c, x) \<Rightarrow>
     let ds = int_digits c; n = int (length ds); decpt = n + x in
     if decpt \<le> -4 \<or> 16 < decpt then
       hd ds # (if n = 1 then [] else CHR ''.'' # tl ds) @ CHR ''e'' # exp_str (decpt - 1)
     else if decpt \<le> 0 then ''0.'' @ replicate (nat (- decpt)) CHR ''0'' @ ds
     else if n \<le> decpt then ds @ replicate (nat (decpt - n)) CHR ''0'' @ ''.0''
     else take (nat decpt) ds @ CHR ''.'' # drop (nat decpt) ds)"

definition shortest_decimal :: "int \<Rightarrow> int \<Rightarrow> int \<times> int" where
  "shortest_decimal m e = strip_zeros
     (case first_some (repr_candidate m e) [1..17] of
        Some r \<Rightarrow> r
      | None \<Rightarrow> (let (num, den) = frac_of m e; x = flog10 num den - 16
                in (fst (scaled_floor num den x), x)))"

fun float_repr :: "float64 \<Rightarrow> string" where
  "float_repr NaN = ''nan''"
| "float_repr (Inf s) = (if s then ''-inf'' else ''inf'')"
| "float_repr (Fin s m e) =
     (if s then ''-'' else []) @ (if m = 0 then ''0.0'' else repr_digits (shortest_decimal m e))"

declare int_digits.simps [simp del]

section \<open>The digits of an integer\<close>

lemma digit_char_val:
  "0 \<le> d \<Longrightarrow> d < 10 \<Longrightarrow> is_digit (digit_char d) \<and> of_char (digit_char d) - 48 = d"
  by (simp add: digit_char_def is_digit_def)

lemma digits_val_snoc:
  "is_digit c \<Longrightarrow> digits_val (xs @ [c]) = 10 * digits_val xs + (of_char c - 48)"
  by (simp add: digits_val_def)

lemma int_digits_correct:
  "0 \<le> n \<Longrightarrow> int_digits n \<noteq> [] \<and> list_all is_digit (int_digits n) \<and>
     digits_val (int_digits n) = n \<and> (hd (int_digits n) = CHR ''0'') = (n = 0)"
proof (induction n rule: int_digits.induct)
  case (1 n)
  show ?case
  proof (cases "n < 10")
    case True
    then have "int_digits n = [digit_char n]" by (simp add: int_digits.simps)
    moreover have "(digit_char n = CHR ''0'') = (n = 0)"
    proof -
      have e: "(of_char (digit_char n) :: int) = 48 + n" using digit_char_val [OF "1.prems" True] by simp
      have "digit_char n = CHR ''0'' \<longleftrightarrow> (of_char (digit_char n) :: int) = of_char CHR ''0''"
        by (metis char_of_char)
      then show ?thesis by (simp add: e)
    qed
    ultimately show ?thesis using digit_char_val [OF "1.prems" True]
      by (simp add: digits_val_def)
  next
    case False
    have d: "int_digits n = int_digits (n div 10) @ [digit_char (n mod 10)]"
      using False by (simp add: int_digits.simps)
    have ih: "int_digits (n div 10) \<noteq> [] \<and> list_all is_digit (int_digits (n div 10)) \<and>
        digits_val (int_digits (n div 10)) = n div 10 \<and>
        (hd (int_digits (n div 10)) = CHR ''0'') = (n div 10 = 0)"
      using "1.IH" [OF False] "1.prems" by simp
    have c: "is_digit (digit_char (n mod 10)) \<and> of_char (digit_char (n mod 10)) - 48 = n mod 10"
      by (rule digit_char_val) simp_all
    have "n div 10 \<noteq> 0" using False "1.prems" by simp
    then show ?thesis using ih c False by (simp add: d digits_val_snoc)
  qed
qed

section \<open>Decimal magnitudes\<close>

text \<open>
  The number of digits of an integer and the decimal exponent \<open>flog10\<close> of a positive fraction.
\<close>

lemma int_digits_length:
  "0 < n \<Longrightarrow> 10 ^ (length (int_digits n) - 1) \<le> n \<and> n < 10 ^ length (int_digits n)"
proof (induction n rule: int_digits.induct)
  case (1 n)
  show ?case
  proof (cases "n < 10")
    case True
    then show ?thesis using "1.prems" by (simp add: int_digits.simps)
  next
    case False
    have d: "int_digits n = int_digits (n div 10) @ [digit_char (n mod 10)]"
      using False by (simp add: int_digits.simps)
    have "0 < n div 10" using False by simp
    then have ih: "10 ^ (length (int_digits (n div 10)) - 1) \<le> n div 10 \<and>
        n div 10 < 10 ^ length (int_digits (n div 10))" using "1.IH" [OF False] by simp
    have ne: "int_digits (n div 10) \<noteq> []" using int_digits_correct [of "n div 10"] False by simp
    then obtain l where l: "length (int_digits (n div 10)) = Suc l" by (cases "int_digits (n div 10)") auto
    have "10 * 10 ^ l \<le> n" "n < 10 * 10 ^ Suc l" using ih l by (simp_all, linarith+)
    then show ?thesis by (simp add: d l)
  qed
qed

lemma ilog10_bounds_rat:
  assumes "0 < n"
  shows "10 powi ilog10 n \<le> (of_int n :: rat) \<and> of_int n < (10::rat) powi (ilog10 n + 1)"
proof -
  obtain l where l: "length (int_digits n) = Suc l"
    using int_digits_correct [of n] assms by (cases "int_digits n") auto
  have i: "ilog10 n = int l" by (simp add: ilog10_def l)
  from int_digits_length [OF assms] have "10 ^ l \<le> n" "n < 10 ^ Suc l" by (simp_all add: l)
  then have "(of_int (10 ^ l) :: rat) \<le> of_int n" "of_int n < (of_int (10 ^ Suc l) :: rat)"
    by (simp_all only: of_int_le_iff of_int_less_iff)
  moreover have "(10::rat) powi int l = of_int (10 ^ l)" "(10::rat) powi (int l + 1) = of_int (10 ^ Suc l)"
    by (simp_all add: power_int_def nat_add_distrib)
  ultimately show ?thesis by (simp only: i)
qed

lemma pow10_le_iff: "pow10_le d a k \<longleftrightarrow> of_int d * 10 powi k \<le> (of_int a :: rat)"
proof (cases "0 \<le> k")
  case True
  then have "(10::rat) powi k = of_int (10 ^ nat k)" by (simp add: power_int_def)
  moreover have "(of_int d * of_int (10 ^ nat k) \<le> (of_int a :: rat)) = (d * 10 ^ nat k \<le> a)"
    by (metis of_int_le_iff of_int_mult)
  ultimately show ?thesis using True by (simp add: pow10_le_def)
next
  case False
  then have p: "(0::rat) < of_int (10 ^ nat (- k))" by simp
  have "(10::rat) powi k = 1 / of_int (10 ^ nat (- k))" using False by (simp add: power_int_def power_one_over)
  then have "of_int d * 10 powi k \<le> (of_int a :: rat) \<longleftrightarrow>
      of_int d \<le> (of_int a * of_int (10 ^ nat (- k)) :: rat)"
    using p by (simp add: divide_le_eq)
  moreover have "(of_int d \<le> (of_int a * of_int (10 ^ nat (- k)) :: rat)) = (d \<le> a * 10 ^ nat (- k))"
    by (metis of_int_le_iff of_int_mult)
  ultimately show ?thesis using False by (simp add: pow10_le_def)
qed

lemma flog10_bounds:
  assumes "0 < a" "0 < d"
  shows "10 powi flog10 a d \<le> (of_int a / of_int d :: rat) \<and>
         of_int a / of_int d < (10::rat) powi (flog10 a d + 1)"
proof -
  let ?la = "ilog10 a" and ?ld = "ilog10 d" and ?q = "of_int a / of_int d :: rat"
  let ?k = "?la - ?ld"
  have dpos: "(0::rat) < of_int d" using assms by simp
  from ilog10_bounds_rat [OF assms(1)] ilog10_bounds_rat [OF assms(2)]
  have a1: "10 powi ?la \<le> (of_int a :: rat)" and a2: "of_int a < (10::rat) powi (?la + 1)"
    and d1: "10 powi ?ld \<le> (of_int d :: rat)" and d2: "of_int d < (10::rat) powi (?ld + 1)"
    by auto
  have "?q < (10::rat) powi (?la + 1) / 10 powi ?ld"
  proof -
    have "?q < (10::rat) powi (?la + 1) / of_int d" using a2 dpos by (simp add: divide_strict_right_mono)
    also have "\<dots> \<le> 10 powi (?la + 1) / 10 powi ?ld"
      using divide_left_mono [OF d1] dpos by simp
    finally show ?thesis .
  qed
  then have up: "?q < 10 powi (?k + 1)"
    by (simp add: power_int_diff [symmetric] algebra_simps)
  have "(10::rat) powi ?la / 10 powi (?ld + 1) < ?q"
  proof -
    have "(10::rat) powi ?la / 10 powi (?ld + 1) < 10 powi ?la / of_int d"
      using d2 dpos by (simp add: divide_strict_left_mono)
    also have "\<dots> \<le> ?q" using a1 dpos by (simp add: divide_right_mono)
    finally show ?thesis .
  qed
  then have low: "10 powi (?k - 1) < ?q"
    by (simp add: power_int_diff [symmetric] algebra_simps)
  have cmp: "pow10_le d a ?k \<longleftrightarrow> 10 powi ?k \<le> ?q"
    using dpos by (simp add: pow10_le_iff le_divide_eq mult.commute)
  show ?thesis
  proof (cases "pow10_le d a ?k")
    case True
    with cmp up show ?thesis by (simp add: flog10_def Let_def)
  next
    case False
    with cmp low show ?thesis by (simp add: flog10_def Let_def)
  qed
qed

section \<open>Each candidate rounds to the float\<close>

text \<open>
  A candidate \<open>c * 10^x\<close> that \<open>round_trips\<close> accepts is exactly one that the reference rounding \<open>round64\<close> maps to the float; the 17-digit candidate always lies inside the float's rounding interval, so the search never falls through.
\<close>

lemma exact_val_decimal: "exact_val (decimal_exact c x) = of_int c * 10 powi x"
proof (cases "0 \<le> x")
  case True
  then show ?thesis by (simp add: decimal_exact_def powi_int_cases [of 10 x])
next
  case False
  then show ?thesis by (simp add: decimal_exact_def powi_int_cases [of 10 x] divide_inverse)
qed

lemma round_trips_iff: "round_trips c x m e \<longleftrightarrow> round64 (of_int c * 10 powi x) = Fin False m e"
  by (simp add: round_trips_def round_exact_round64 exact_val_decimal)

lemma frac_of_val:
  assumes "frac_of m e = (num, den)"
  shows "0 < den \<and> of_int num / of_int den = of_int m * (2::rat) powi e \<and> (0 < m \<longrightarrow> 0 < num)"
proof (cases "0 \<le> e")
  case True
  then show ?thesis using assms by (auto simp: frac_of_def powi_int_cases [of 2 e])
next
  case False
  then show ?thesis using assms by (auto simp: frac_of_def powi_int_cases [of 2 e] divide_inverse)
qed

lemma ten_powi_neg_cases:
  "(10::rat) powi (- x) = (if x \<le> 0 then of_int (10 ^ nat (- x)) else 1 / of_int (10 ^ nat x))"
  by (simp add: powi_int_cases [of 10 "- x"])

lemma scaled_floor_val:
  assumes "0 < den" "scaled_floor num den x = (lo, r)"
  defines "dden \<equiv> (if x \<le> 0 then den else den * 10 ^ nat x)"
  shows "0 < dden \<and> 0 \<le> r \<and> r < dden \<and>
    of_int num / of_int den * 10 powi (- x) = of_int lo + of_int r / (of_int dden :: rat)"
proof -
  define N where "N = (if x \<le> 0 then num * 10 ^ nat (- x) else num)"
  have dd: "0 < dden" using assms(1) by (simp add: dden_def)
  have lr: "lo = N div dden" "r = N mod dden"
    using assms(2) by (auto simp: scaled_floor_def N_def dden_def split: if_splits)
  have "(of_int N :: rat) = of_int lo * of_int dden + of_int r"
    unfolding lr by (metis of_int_add of_int_mult div_mult_mod_eq)
  then have q: "of_int N / of_int dden = of_int lo + of_int r / (of_int dden :: rat)"
    using dd by (simp add: field_simps)
  have "of_int num / of_int den * 10 powi (- x) = (of_int N / of_int dden :: rat)"
  proof (cases "x \<le> 0")
    case True
    then show ?thesis by (simp add: ten_powi_neg_cases N_def dden_def)
  next
    case False
    then show ?thesis by (simp add: ten_powi_neg_cases N_def dden_def)
  qed
  then show ?thesis using q dd lr by simp
qed

lemma near64_rel:
  assumes "wf_float (Fin False m e)" "0 < m"
    and "\<bar>u - of_int m * 2 powi e\<bar> < of_int m * 2 powi e * 2 powi (- 54)"
  shows "near64 u m e"
proof -
  have b: "of_int m * (2::rat) powi e * 2 powi (- 54) = of_int m * 2 powi (e - 54)"
    by (simp only: two_powi_shift [of e 54] mult.assoc)
  have m53: "(of_int m :: rat) < 2 ^ 53"
  proof -
    have "m < 2 ^ 53" using assms(1) by simp
    then have "(of_int m :: rat) < of_int (2 ^ 53)" by (simp only: of_int_less_iff)
    then show ?thesis by simp
  qed
  have "of_int m * (2::rat) powi (e - 54) < 2 ^ 53 * 2 powi (e - 54)"
    using m53 by (rule mult_strict_right_mono) simp
  also have "\<dots> = 2 powi (e - 1)" unfolding two_pow_powi by simp
  finally have lt: "of_int m * (2::rat) powi (e - 54) < 2 powi (e - 1)" .
  show ?thesis
  proof (cases "m = 2 ^ 52 \<and> -1074 < e")
    case True
    have "of_int m * (2::rat) powi (e - 54) = 2 ^ 52 * 2 powi (e - 54)" using True by simp
    also have "\<dots> = 2 powi (e - 2)" unfolding two_pow_powi by simp
    finally have "of_int m * (2::rat) powi (e - 54) = 2 powi (e - 2)" .
    then show ?thesis using True assms(3) lt unfolding near64_def b
      by (simp only: True simp_thms if_True abs_less_iff) linarith
  next
    case False
    then show ?thesis using assms(3) lt unfolding near64_def b by (simp only: if_False)
  qed
qed

lemma repr_candidate_sound:
  "repr_candidate m e k = Some (c, x) \<Longrightarrow> round_trips c x m e"
  by (auto simp: repr_candidate_def Let_def split: prod.splits if_splits)

lemma repr_candidate_17:
  assumes wf: "wf_float (Fin False m e)" and m0: "0 < m"
  shows "repr_candidate m e 17 \<noteq> None"
proof -
  obtain num den where fr: "frac_of m e = (num, den)" by (cases "frac_of m e") auto
  note fv = frac_of_val [OF fr]
  define v0 where "v0 = of_int m * (2::rat) powi e"
  have v0: "of_int num / of_int den = v0" "0 < v0" using fv m0 by (simp_all add: v0_def)
  have np: "0 < num" "0 < den" using fv m0 by simp_all
  define p where "p = flog10 num den"
  define x where "x = p + 1 - 17"
  obtain lo r where sf: "scaled_floor num den x = (lo, r)" by (cases "scaled_floor num den x") auto
  define dden where "dden = (if x \<le> 0 then den else den * 10 ^ nat x)"
  have s: "0 < dden" "0 \<le> r" "r < dden" "v0 * 10 powi (- x) = of_int lo + of_int r / (of_int dden :: rat)"
    using scaled_floor_val [OF np(2) sf] v0(1) by (simp_all add: dden_def)
  define \<rho> where "\<rho> = of_int r / (of_int dden :: rat)"
  have \<rho>: "0 \<le> \<rho>" "\<rho> < 1" using s by (simp_all add: \<rho>_def)
  have t: "(10::rat) powi x \<le> v0 * 10 powi (- 16)"
  proof -
    have "10 powi p \<le> v0" using flog10_bounds [OF np] v0(1) by (simp add: p_def)
    then have "10 powi p * 10 powi (- 16) \<le> v0 * (10::rat) powi (- 16)" by (simp add: mult_right_mono)
    moreover have "(10::rat) powi x = 10 powi p * 10 powi (- 16)"
    proof -
      have xe: "x = p + (- 16)" by (simp add: x_def)
      show ?thesis unfolding xe by (rule power_int_add) simp
    qed
    ultimately show ?thesis by simp
  qed
  have tp: "(0::rat) < 10 powi x" by simp
  have lo_v: "of_int lo * 10 powi x = v0 - \<rho> * 10 powi x"
  proof -
    have "v0 = (v0 * 10 powi (- x)) * 10 powi x" by (simp add: power_int_minus)
    then show ?thesis using s(4) by (simp add: \<rho>_def algebra_simps)
  qed
  have bound: "(1 / 2) * (v0 * (10::rat) powi (- 16)) < v0 * 2 powi (- 54)"
  proof -
    have "(1 / 2) * (10::rat) powi (- 16) < 2 powi (- 54)" by simp
    then show ?thesis using v0(2) by (simp add: algebra_simps)
  qed
  have ok: "round_trips c x m e" if "\<bar>of_int c * 10 powi x - v0\<bar> \<le> (1 / 2) * 10 powi x" for c
  proof -
    have "\<bar>of_int c * 10 powi x - v0\<bar> < v0 * 2 powi (- 54)"
    proof -
      have "(1 / 2) * (10::rat) powi x \<le> (1 / 2) * (v0 * 10 powi (- 16))" using t by simp
      then show ?thesis using that bound by linarith
    qed
    then have "near64 (of_int c * 10 powi x) m e"
      by (intro near64_rel [OF wf m0]) (simp add: v0_def)
    then show ?thesis unfolding round_trips_iff using round64_near [OF wf m0] by blast
  qed
  have "round_trips lo x m e \<or> (r \<noteq> 0 \<and> round_trips (lo + 1) x m e)"
  proof (cases "2 * r \<le> dden")
    case True
    then have "\<rho> \<le> 1 / 2" using s(1) by (simp add: \<rho>_def divide_le_eq flip: of_int_le_iff)
    then have "\<bar>of_int lo * 10 powi x - v0\<bar> \<le> (1 / 2) * 10 powi x"
      using \<rho>(1) tp by (simp add: lo_v abs_mult mult_right_mono)
    then show ?thesis using ok by blast
  next
    case False
    then have "1 / 2 < \<rho>" using s(1) by (simp add: \<rho>_def less_divide_eq flip: of_int_less_iff)
    moreover have "r \<noteq> 0" using False s(1) by auto
    moreover have "of_int (lo + 1) * 10 powi x - v0 = (1 - \<rho>) * (10::rat) powi x"
      using lo_v by (simp add: algebra_simps)
    ultimately have "\<bar>of_int (lo + 1) * 10 powi x - v0\<bar> \<le> (1 / 2) * 10 powi x"
      using \<rho>(2) tp by (simp add: abs_mult mult_right_mono)
    then show ?thesis using ok \<open>r \<noteq> 0\<close> by blast
  qed
  moreover have x17: "flog10 num den + 1 - 17 = x" by (simp add: x_def p_def)
  ultimately show ?thesis
    unfolding repr_candidate_def by (simp only: Let_def fr prod.case x17 sf) (auto split: if_splits)
qed

section \<open>The shortest decimal\<close>

text \<open>
  \<open>shortest_decimal\<close> returns a positive coefficient without trailing zeros whose value rounds to the float.
\<close>

lemma first_some_Some:
  "first_some f xs = Some y \<Longrightarrow> \<exists>x\<in>set xs. f x = Some y"
  by (induction xs) (auto split: option.splits)

lemma first_some_None: "first_some f xs = None \<longleftrightarrow> (\<forall>x\<in>set xs. f x = None)"
  by (induction xs) (auto split: option.splits)

lemma strip_zeros_val:
  "strip_zeros cx = (c', x') \<Longrightarrow> 0 < fst cx \<Longrightarrow>
     0 < c' \<and> c' mod 10 \<noteq> 0 \<and> of_int c' * 10 powi x' = of_int (fst cx) * (10::rat) powi (snd cx)"
proof (induction cx rule: strip_zeros.induct)
  case (1 c x)
  show ?case
  proof (cases "c \<noteq> 0 \<and> c mod 10 = 0")
    case True
    then have s: "strip_zeros (c div 10, x + 1) = (c', x')" using "1.prems"(1) by simp
    have c: "c = 10 * (c div 10)" using True by (metis add_0_right mult_div_mod_eq)
    then have "0 < c div 10" using "1.prems"(2) by simp
    then have ih: "0 < c' \<and> c' mod 10 \<noteq> 0 \<and> of_int c' * 10 powi x' = of_int (c div 10) * (10::rat) powi (x + 1)"
      using "1.IH" [OF True s] by simp
    have "of_int (c div 10) * (10::rat) powi (x + 1) = of_int (10 * (c div 10)) * 10 powi x"
      by (simp add: power_int_add)
    then show ?thesis using ih c by simp
  next
    case False
    then show ?thesis using "1.prems" by simp
  qed
qed

lemma round64_Fin_pos: "round64 q = Fin False m e \<Longrightarrow> m \<noteq> 0 \<Longrightarrow> 0 < q"
  by (auto simp: round64_def Let_def split: if_splits)

lemma shortest_decimal_spec:
  assumes wf: "wf_float (Fin False m e)" and m0: "0 < m" and sd: "shortest_decimal m e = (c, x)"
  shows "0 < c \<and> c mod 10 \<noteq> 0 \<and> round64 (of_int c * 10 powi x) = Fin False m e"
proof -
  have "17 \<in> set [1..17]" by simp
  have "first_some (repr_candidate m e) [1..17] \<noteq> None"
  proof
    assume "first_some (repr_candidate m e) [1..17] = None"
    then have "\<forall>k\<in>set [1..17]. repr_candidate m e k = None" by (simp only: first_some_None)
    then have "repr_candidate m e 17 = None" using \<open>17 \<in> set [1..17]\<close> by (rule bspec)
    then show False using repr_candidate_17 [OF wf m0] by simp
  qed
  then obtain r where "first_some (repr_candidate m e) [1..17] = Some r" by blast
  moreover obtain c0 x0 where "r = (c0, x0)" by (metis surj_pair)
  ultimately have fs: "first_some (repr_candidate m e) [1..17] = Some (c0, x0)" by (simp only:)
  from first_some_Some [OF fs] obtain k where "repr_candidate m e k = Some (c0, x0)" ..
  then have r: "round64 (of_int c0 * 10 powi x0) = Fin False m e"
    using repr_candidate_sound unfolding round_trips_iff by blast
  have "0 < of_int c0 * (10::rat) powi x0" using round64_Fin_pos [OF r] m0 by simp
  moreover have "(0::rat) < 10 powi x0" by simp
  ultimately have "(0::rat) < of_int c0" by (rule zero_less_mult_pos2)
  then have c0: "0 < c0" by simp
  have "strip_zeros (c0, x0) = (c, x)" using sd by (simp only: shortest_decimal_def fs option.case)
  from strip_zeros_val [OF this] c0 r show ?thesis by simp
qed

section \<open>Reading the text back\<close>

text \<open>
  \<open>float()\<close> parses each of the four layouts of \<open>repr_digits\<close> (exponent, leading \<open>0.\<close>, trailing \<open>.0\<close>, inner point) to the same rational, and so to the float it was printed from.
\<close>

lemma digits_val_append:
  "list_all is_digit ys \<Longrightarrow> digits_val (xs @ ys) = digits_val xs * 10 ^ length ys + digits_val ys"
proof (induction ys rule: rev_induct)
  case Nil
  then show ?case by (simp add: digits_val_def)
next
  case (snoc y ys)
  then have y: "is_digit y" and ys: "list_all is_digit ys" by simp_all
  have "digits_val (xs @ ys @ [y]) = 10 * digits_val (xs @ ys) + (of_char y - 48)"
    using digits_val_snoc [OF y, of "xs @ ys"] by simp
  also have "\<dots> = digits_val xs * 10 ^ length (ys @ [y]) + digits_val (ys @ [y])"
    using snoc.IH [OF ys] digits_val_snoc [OF y, of ys] by (simp add: algebra_simps)
  finally show ?case by simp
qed

lemma zeros_digits: "list_all is_digit (replicate n CHR ''0'')" "digits_val (replicate n CHR ''0'') = 0"
proof -
  show "list_all is_digit (replicate n CHR ''0'')" by (simp add: is_digit_def list_all_iff)
  show "digits_val (replicate n CHR ''0'') = 0"
    by (induction n) (simp_all add: digits_val_def replicate_append_same [symmetric])
qed

lemma digit_not_sep: "is_digit c \<Longrightarrow> c \<noteq> CHR ''.'' \<and> c \<noteq> CHR ''e'' \<and> c \<noteq> CHR ''_''"
  by (auto simp: is_digit_def)

lemma digits_hd_last: "xs \<noteq> [] \<Longrightarrow> list_all is_digit xs \<Longrightarrow> is_digit (hd xs) \<and> is_digit (last xs)"
  by (simp add: list_all_iff)

lemma parse_decimal_parts:
  assumes "ds \<noteq> []" "list_all is_digit ds" "list_all is_digit fs"
    and "parse_exponent et = Some k" "et = [] \<or> hd et = CHR ''e''"
  shows "parse_decimal (ds @ (if fs = [] then [] else CHR ''.'' # fs) @ et) =
           Some (digits_val (ds @ fs), k - int (length fs))"
proof -
  have du: "\<forall>c\<in>set zs. digit_or_us c" if "list_all is_digit zs" for zs
    using that by (simp add: list_all_iff digit_or_us_def)
  have stop: "takeWhile digit_or_us et = [] \<and> dropWhile digit_or_us et = et"
    using assms(5) by (cases et) (auto simp: digit_or_us_def is_digit_def)
  have vd: "valid_digitpart ds" by (rule valid_digitpart_digits [OF assms(1,2)])
  show ?thesis
  proof (cases "fs = []")
    case True
    have "takeWhile digit_or_us (ds @ et) = ds" "dropWhile digit_or_us (ds @ et) = et"
      using du [OF assms(2)] stop by (simp_all add: takeWhile_append2 dropWhile_append2)
    moreover have "(case et of c # r2 \<Rightarrow> if c = CHR ''.'' then (takeWhile digit_or_us r2, dropWhile digit_or_us r2)
                     else ([], et) | [] \<Rightarrow> ([], [])) = ([], et)"
      using assms(5) by (cases et) auto
    ultimately show ?thesis using True vd assms(1,4) by (simp add: parse_decimal_def Let_def digit_count_def)
  next
    case False
    have nd: "\<not> digit_or_us CHR ''.''" by (simp add: digit_or_us_def is_digit_def)
    have "takeWhile digit_or_us (ds @ CHR ''.'' # fs @ et) = ds"
      "dropWhile digit_or_us (ds @ CHR ''.'' # fs @ et) = CHR ''.'' # fs @ et"
      using du [OF assms(2)] nd by (simp_all add: takeWhile_append2 dropWhile_append2)
    moreover have "takeWhile digit_or_us (fs @ et) = fs" "dropWhile digit_or_us (fs @ et) = et"
      using du [OF assms(3)] stop by (simp_all add: takeWhile_append2 dropWhile_append2)
    moreover have "valid_digitpart fs" by (rule valid_digitpart_digits [OF False assms(3)])
    moreover have "digit_count fs = int (length fs)"
      using assms(3) by (simp add: digit_count_def list_all_iff filter_True)
    ultimately show ?thesis using False vd assms(1,4) by (simp add: parse_decimal_def Let_def)
  qed
qed

lemma parse_decimal_point:
  assumes "ds \<noteq> []" "list_all is_digit ds" "list_all is_digit fs" "fs \<noteq> []"
  shows "parse_decimal (ds @ CHR ''.'' # fs) = Some (digits_val (ds @ fs), - int (length fs))"
  using parse_decimal_parts [OF assms(1-3), of "[]" 0] assms(4) by simp

lemma parse_exp_str: "parse_exponent (CHR ''e'' # exp_str k) = Some k"
proof -
  have a: "0 \<le> \<bar>k\<bar>" by simp
  note c = int_digits_correct [OF a]
  define ds where "ds = (if \<bar>k\<bar> < 10 then CHR ''0'' # int_digits \<bar>k\<bar> else int_digits \<bar>k\<bar>)"
  have ds: "ds \<noteq> []" "list_all is_digit ds" "digits_val ds = \<bar>k\<bar>"
    using c digits_val_append [of "int_digits \<bar>k\<bar>" "[CHR ''0'']"]
    by (auto simp: ds_def is_digit_def digits_val_append [of "[CHR ''0'']"] digits_val_def)
  have "split_sign (exp_str k) = (k < 0, ds)" by (simp add: exp_str_def ds_def)
  then show ?thesis using valid_digitpart_digits [OF ds(1,2)] ds(3) by (auto simp: abs_if)
qed

lemma exp_str_shape: "exp_str k \<noteq> [] \<and> is_digit (last (exp_str k))"
proof -
  define a where "a = \<bar>k\<bar>"
  have "0 \<le> a" by (simp add: a_def)
  note c = int_digits_correct [OF this]
  have l: "is_digit (last (int_digits a))" using c by (simp add: list_all_iff)
  have "exp_str k = (if k < 0 then CHR ''-'' else CHR ''+'') #
          (if a < 10 then CHR ''0'' # int_digits a else int_digits a)"
    by (simp add: exp_str_def a_def)
  then show ?thesis using c l by (simp add: last_ConsR)
qed

lemma round64_neg: "q \<noteq> 0 \<Longrightarrow> round64 (- q) = float_neg (round64 q)"
proof -
  assume q: "q \<noteq> 0"
  have s: "(- q < 0) = (\<not> q < 0)" using q by linarith
  show ?thesis unfolding round64_def Let_def abs_minus_cancel s using q
    by (simp add: if_distrib [of float_neg] cong: if_cong split del: if_split)
qed

lemma parse_float_str_decimal:
  assumes "s \<noteq> []" "is_digit (hd s)" "is_digit (last s)" "parse_decimal s = Some (M, K)" "M \<noteq> 0"
  shows "parse_float_str s = Some (round64 (of_int M * 10 powi K)) \<and>
         parse_float_str (CHR ''-'' # s) = Some (round64 (- (of_int M * 10 powi K)))"
proof -
  obtain c cs where s: "s = c # cs" using assms(1) by (cases s) auto
  have c: "is_digit c" using assms(2) s by simp
  have ps: "py_strip s = s" "py_strip (CHR ''-'' # s) = CHR ''-'' # s"
    using assms(1-3) is_digit_not_space by (auto intro!: py_strip_ends simp: py_isspace_def)
  have low: "map ascii_lower s \<noteq> ''inf'' \<and> map ascii_lower s \<noteq> ''infinity'' \<and> map ascii_lower s \<noteq> ''nan''"
    using c s ascii_lower_digit [OF c] by (auto simp: is_digit_def)
  have r: "round_exact (decimal_exact M' K) = round64 (of_int M' * 10 powi K)" for M'
    by (simp add: round_exact_round64 exact_val_decimal)
  have sp: "split_sign s = (False, s)" "split_sign (CHR ''-'' # s) = (True, s)"
    using split_sign_digit [OF c] s by simp_all
  show ?thesis
    using ps sp low assms(4,5) r [of M] r [of "- M"] by (simp add: parse_float_str_def)
qed

lemma repr_digits_decimal:
  assumes c: "0 < c"
  shows "\<exists>M K. repr_digits (c, x) \<noteq> [] \<and> is_digit (hd (repr_digits (c, x))) \<and>
           is_digit (last (repr_digits (c, x))) \<and> parse_decimal (repr_digits (c, x)) = Some (M, K) \<and>
           M \<noteq> 0 \<and> (of_int M * 10 powi K :: rat) = of_int c * 10 powi x"
proof -
  define ds where "ds = int_digits c"
  define n where "n = int (length ds)"
  define decpt where "decpt = n + x"
  have cd: "ds \<noteq> []" "list_all is_digit ds" "digits_val ds = c"
    using int_digits_correct [of c] c by (auto simp: ds_def)
  note hl = digits_hd_last [OF cd(1,2)]
  have r: "repr_digits (c, x) =
     (if decpt \<le> -4 \<or> 16 < decpt then
       hd ds # (if n = 1 then [] else CHR ''.'' # tl ds) @ CHR ''e'' # exp_str (decpt - 1)
     else if decpt \<le> 0 then ''0.'' @ replicate (nat (- decpt)) CHR ''0'' @ ds
     else if n \<le> decpt then ds @ replicate (nat (decpt - n)) CHR ''0'' @ ''.0''
     else take (nat decpt) ds @ CHR ''.'' # drop (nat decpt) ds)"
    by (simp add: repr_digits_def ds_def n_def decpt_def Let_def)
  consider (F1) "decpt \<le> -4 \<or> 16 < decpt"
    | (F2) "\<not> (decpt \<le> -4 \<or> 16 < decpt)" "decpt \<le> 0"
    | (F3) "\<not> (decpt \<le> -4 \<or> 16 < decpt)" "\<not> decpt \<le> 0" "n \<le> decpt"
    | (F4) "\<not> (decpt \<le> -4 \<or> 16 < decpt)" "\<not> decpt \<le> 0" "\<not> n \<le> decpt"
    by blast
  then show ?thesis
  proof cases
    case F1
    obtain d fs where dfs: "ds = d # fs" using cd(1) by (cases ds) auto
    have s: "repr_digits (c, x) = [d] @ (if fs = [] then [] else CHR ''.'' # fs) @ CHR ''e'' # exp_str (decpt - 1)"
      using r F1 dfs by (simp add: n_def)
    have "parse_decimal (repr_digits (c, x)) = Some (digits_val ([d] @ fs), decpt - 1 - int (length fs))"
      unfolding s using cd(2) dfs parse_exp_str by (intro parse_decimal_parts) simp_all
    also have "\<dots> = Some (c, x)" using cd(3) dfs by (simp add: decpt_def n_def)
    finally show ?thesis using c hl dfs exp_str_shape [of "decpt - 1"] by (simp add: s)
  next
    case F2
    define zs where "zs = replicate (nat (- decpt)) CHR ''0'' @ ds"
    have zd: "list_all is_digit zs" "zs \<noteq> []" using zeros_digits(1) cd(1,2) by (simp_all add: zs_def)
    have s: "repr_digits (c, x) = [CHR ''0''] @ CHR ''.'' # zs" using r F2 by (simp add: zs_def)
    have "parse_decimal (repr_digits (c, x)) = Some (digits_val ([CHR ''0''] @ zs), - int (length zs))"
      unfolding s using zd by (intro parse_decimal_point) (simp_all add: is_digit_def)
    also have "\<dots> = Some (c, x)"
    proof -
      have "digits_val ([CHR ''0''] @ zs) = digits_val (replicate (Suc (nat (- decpt))) CHR ''0'') * 10 ^ length ds + c"
        using digits_val_append [OF cd(2), of "replicate (Suc (nat (- decpt))) CHR ''0''"] cd(3)
        by (simp add: zs_def)
      then show ?thesis using F2 zeros_digits(2) [of "Suc (nat (- decpt))"]
        by (simp add: zs_def decpt_def n_def)
    qed
    finally show ?thesis using c zd digits_hd_last [OF zd(2,1)] by (simp add: s is_digit_def)
  next
    case F3
    define z where "z = nat (decpt - n)"
    have x: "x = int z" using F3 by (simp add: z_def decpt_def)
    have zd: "ds @ replicate z CHR ''0'' \<noteq> []" "list_all is_digit (ds @ replicate z CHR ''0'')"
      using cd(1,2) zeros_digits(1) by simp_all
    have s: "repr_digits (c, x) = (ds @ replicate z CHR ''0'') @ CHR ''.'' # ''0''" using r F3 by (simp add: z_def)
    have "parse_decimal (repr_digits (c, x)) = Some (digits_val ((ds @ replicate z CHR ''0'') @ ''0''), - 1)"
      unfolding s using zd by (subst parse_decimal_point) (simp_all add: is_digit_def)
    also have "\<dots> = Some (c * 10 ^ Suc z, - 1)"
    proof -
      have "(ds @ replicate z CHR ''0'') @ ''0'' = ds @ replicate (Suc z) CHR ''0''"
        by (simp add: replicate_append_same [symmetric])
      then show ?thesis using digits_val_append [OF zeros_digits(1), of ds "Suc z"] cd(3)
          zeros_digits(2) [of "Suc z"] by simp
    qed
    finally have p: "parse_decimal (repr_digits (c, x)) = Some (c * 10 ^ Suc z, - 1)" .
    have v: "(of_int (c * 10 ^ Suc z) * 10 powi - 1 :: rat) = of_int c * 10 powi x"
      by (simp add: x power_int_minus)
    show ?thesis using p v c hl cd(1) by (simp add: s is_digit_def)
  next
    case F4
    define d where "d = nat decpt"
    have d: "0 < d" "d < length ds" using F4 by (simp_all add: d_def n_def)
    have td: "take d ds \<noteq> []" "drop d ds \<noteq> []" using d cd(1) by simp_all
    have ld: "list_all is_digit (take d ds)" "list_all is_digit (drop d ds)"
      using cd(2) by (auto simp: list_all_iff dest: in_set_takeD in_set_dropD)
    have s: "repr_digits (c, x) = take d ds @ CHR ''.'' # drop d ds" using r F4 by (simp add: d_def)
    have "parse_decimal (repr_digits (c, x)) = Some (digits_val (take d ds @ drop d ds), - int (length (drop d ds)))"
      unfolding s using td ld by (intro parse_decimal_point) simp_all
    also have "\<dots> = Some (c, x)" using cd(3) d F4 by (simp add: d_def n_def decpt_def)
    finally show ?thesis using c td digits_hd_last [OF td(1) ld(1)] digits_hd_last [OF td(2) ld(2)] by (simp add: s)
  qed
qed

lemma parse_repr_digits:
  assumes "0 < c"
  shows "parse_float_str (repr_digits (c, x)) = Some (round64 (of_int c * 10 powi x)) \<and>
         parse_float_str (CHR ''-'' # repr_digits (c, x)) = Some (round64 (- (of_int c * 10 powi x)))"
proof -
  obtain M K where "repr_digits (c, x) \<noteq> []" "is_digit (hd (repr_digits (c, x)))"
      "is_digit (last (repr_digits (c, x)))" "parse_decimal (repr_digits (c, x)) = Some (M, K)"
      "M \<noteq> 0" and v: "(of_int M * 10 powi K :: rat) = of_int c * 10 powi x"
    using repr_digits_decimal [OF assms] by blast
  from parse_float_str_decimal [OF this(1-5)] show ?thesis by (simp only: v)
qed

lemma parse_float_str_repr:
  assumes "wf_float f" "is_finite f"
  shows "parse_float_str (float_repr f) = Some f"
proof -
  obtain s m e where f: "f = Fin s m e" using assms(2) by (cases f) auto
  show ?thesis
  proof (cases "m = 0")
    case True
    then have "e = -1074" using assms(1) f by simp
    then show ?thesis using True f by (cases s) (simp_all add: parse_float_str_def parse_decimal_def
      py_strip_def py_isspace_def digit_or_us_def is_digit_def Let_def digits_val_def digit_count_def
      ascii_lower_def)
  next
    case False
    then have m0: "0 < m" using assms(1) f by simp
    have wf: "wf_float (Fin False m e)" using assms(1) f by simp
    obtain c x where sd: "shortest_decimal m e = (c, x)" by (metis surj_pair)
    note sp = shortest_decimal_spec [OF wf m0 sd]
    have q: "(of_int c * 10 powi x :: rat) \<noteq> 0" using sp by simp
    note p = parse_repr_digits [OF conjunct1 [OF sp], of x]
    show ?thesis using p sp round64_neg [OF q] False f sd by (cases s) simp_all
  qed
qed

end
