(* ===== verification/PyValue.thy ===== *)
theory PyValue
  imports FloatParse "HOL-Library.Sublist"
begin

text \<open>
  The Python objects a JSON request body decodes to, and the built-in operations the
  handlers apply to them. Each definition is the CPython behaviour of one construct of
  \<open>src/api/main.py\<close> or \<open>src/api/app.py\<close>, exceptions included:
  \<^item> \<open>pyval\<close>: \<open>None\<close>, \<open>bool\<close>, \<open>int\<close> (unbounded), \<open>float\<close>, \<open>str\<close>, \<open>list\<close>
    and \<open>dict\<close> with string keys (an association list with distinct keys, as
    \<open>json.loads\<close> builds it);
  \<^item> \<open>py_truthy\<close> (\<open>not data\<close>), \<open>py_contains\<close> (\<open>'num1' in data\<close>),
    \<open>py_getitem\<close> (\<open>data['num1']\<close>), \<open>py_dict_get\<close> (\<open>data.get('num1')\<close>),
    \<open>py_isinstance_num\<close> (\<open>isinstance(x, (int, float))\<close>, true for \<open>bool\<close> too,
    since \<open>bool\<close> is a subclass of \<open>int\<close>), \<open>py_float\<close> (\<open>float(x)\<close>),
    \<open>py_eq_zero\<close> (\<open>x == 0\<close>);
  \<^item> \<open>py_add\<close>, \<open>py_sub\<close>, \<open>py_mul\<close>, \<open>py_truediv\<close>: the binary operators, with
    \<open>int\<close> arithmetic exact, mixed \<open>int\<close>/\<open>float\<close> operands converted by
    \<open>float(int)\<close> (which raises \<open>OverflowError\<close> for a huge \<open>int\<close>), and \<open>int / int\<close>
    correctly rounded.
  A raised exception is an \<open>Inl\<close> of \<open>pyexc\<close>.
\<close>

datatype pyexc = TypeError | ValueError | OverflowError | ZeroDivisionError string
  | KeyError string | AttributeError

datatype pyval = PNone | PBool bool | PInt int | PFloat float64 | PStr string
  | PList "pyval list" | PDict "(string \<times> pyval) list"

fun py_truthy :: "pyval \<Rightarrow> bool" where
  "py_truthy PNone = False"
| "py_truthy (PBool b) = b"
| "py_truthy (PInt n) = (n \<noteq> 0)"
| "py_truthy (PFloat f) = (\<not> float_is_zero f)"
| "py_truthy (PStr s) = (s \<noteq> [])"
| "py_truthy (PList xs) = (xs \<noteq> [])"
| "py_truthy (PDict kvs) = (kvs \<noteq> [])"

text \<open>
  \<open>k in x\<close>: a key of a dict, an element equal to the string of a list, a substring of a
  string; \<open>TypeError\<close> (argument is not iterable) for \<open>None\<close> and numbers.
\<close>

fun py_contains :: "string \<Rightarrow> pyval \<Rightarrow> pyexc + bool" where
  "py_contains k (PDict kvs) = Inr (k \<in> set (map fst kvs))"
| "py_contains k (PList xs) = Inr (PStr k \<in> set xs)"
| "py_contains k (PStr s) = Inr (sublist k s)"
| "py_contains k PNone = Inl TypeError"
| "py_contains k (PBool b) = Inl TypeError"
| "py_contains k (PInt n) = Inl TypeError"
| "py_contains k (PFloat f) = Inl TypeError"

text \<open>\<open>x[k]\<close> with a string \<open>k\<close>: only a dict can be indexed by a string.\<close>

fun py_getitem :: "pyval \<Rightarrow> string \<Rightarrow> pyexc + pyval" where
  "py_getitem (PDict kvs) k = (case map_of kvs k of Some v \<Rightarrow> Inr v | None \<Rightarrow> Inl (KeyError k))"
| "py_getitem (PList xs) k = Inl TypeError"
| "py_getitem (PStr s) k = Inl TypeError"
| "py_getitem PNone k = Inl TypeError"
| "py_getitem (PBool b) k = Inl TypeError"
| "py_getitem (PInt n) k = Inl TypeError"
| "py_getitem (PFloat f) k = Inl TypeError"

text \<open>\<open>x.get(k)\<close>: \<open>None\<close> for a missing key; only \<open>dict\<close> has the method.\<close>

fun py_dict_get :: "pyval \<Rightarrow> string \<Rightarrow> pyexc + pyval" where
  "py_dict_get (PDict kvs) k = Inr (case map_of kvs k of Some v \<Rightarrow> v | None \<Rightarrow> PNone)"
| "py_dict_get (PList xs) k = Inl AttributeError"
| "py_dict_get (PStr s) k = Inl AttributeError"
| "py_dict_get PNone k = Inl AttributeError"
| "py_dict_get (PBool b) k = Inl AttributeError"
| "py_dict_get (PInt n) k = Inl AttributeError"
| "py_dict_get (PFloat f) k = Inl AttributeError"

fun py_isinstance_num :: "pyval \<Rightarrow> bool" where
  "py_isinstance_num (PBool b) = True"
| "py_isinstance_num (PInt n) = True"
| "py_isinstance_num (PFloat f) = True"
| "py_isinstance_num v = False"

text \<open>The integer value of an \<open>int\<close> or a \<open>bool\<close> operand.\<close>

fun py_int_value :: "pyval \<Rightarrow> int option" where
  "py_int_value (PBool b) = Some (if b then 1 else 0)"
| "py_int_value (PInt n) = Some n"
| "py_int_value v = None"

definition py_float_of_int :: "int \<Rightarrow> pyexc + float64" where
  "py_float_of_int n = (case float_of_int n of Inf s \<Rightarrow> Inl OverflowError | f \<Rightarrow> Inr f)"

fun py_float :: "pyval \<Rightarrow> pyexc + float64" where
  "py_float (PFloat f) = Inr f"
| "py_float (PInt n) = py_float_of_int n"
| "py_float (PBool b) = py_float_of_int (if b then 1 else 0)"
| "py_float (PStr s) = (case parse_float_str s of Some f \<Rightarrow> Inr f | None \<Rightarrow> Inl ValueError)"
| "py_float PNone = Inl TypeError"
| "py_float (PList xs) = Inl TypeError"
| "py_float (PDict kvs) = Inl TypeError"

text \<open>
  A numeric operand as a \<open>float\<close>: the conversion \<open>float.__add__\<close> and its kin
  apply to an \<open>int\<close> operand. Both operands are converted only when both are numbers;
  otherwise the operator is not defined for them and Python raises \<open>TypeError\<close>
  without converting anything.
\<close>

fun py_num_to_float :: "pyval \<Rightarrow> pyexc + float64" where
  "py_num_to_float (PFloat f) = Inr f"
| "py_num_to_float (PInt n) = py_float_of_int n"
| "py_num_to_float (PBool b) = py_float_of_int (if b then 1 else 0)"
| "py_num_to_float v = Inl TypeError"

definition py_float_operands :: "pyval \<Rightarrow> pyval \<Rightarrow> pyexc + float64 \<times> float64" where
  "py_float_operands a b =
     (if py_isinstance_num a \<and> py_isinstance_num b
      then sbind (py_num_to_float a) (\<lambda>x. sbind (py_num_to_float b) (\<lambda>y. Inr (x, y)))
      else Inl TypeError)"

definition py_float_binop ::
  "(float64 \<Rightarrow> float64 \<Rightarrow> float64) \<Rightarrow> pyval \<Rightarrow> pyval \<Rightarrow> pyexc + pyval" where
  "py_float_binop f a b = sbind (py_float_operands a b) (\<lambda>(x, y). Inr (PFloat (f x y)))"

text \<open>
  Repetition of a string or list by an \<open>int\<close> count; a count outside the
  index-sized range raises \<open>OverflowError\<close> (cannot fit into an index-sized integer).
\<close>

definition py_repeat :: "pyval \<Rightarrow> int \<Rightarrow> pyexc + pyval" where
  "py_repeat v n =
     (if n < - (2 ^ 63) \<or> 2 ^ 63 - 1 < n then Inl OverflowError
      else case v of
             PStr s \<Rightarrow> Inr (PStr (concat (replicate (nat n) s)))
           | PList xs \<Rightarrow> Inr (PList (concat (replicate (nat n) xs)))
           | _ \<Rightarrow> Inl TypeError)"

text \<open>
  \<open>a + b\<close>: \<open>int\<close> addition when both are \<open>int\<close>/\<open>bool\<close>, concatenation of two
  strings or two lists, \<open>float\<close> addition otherwise.
\<close>

definition py_add :: "pyval \<Rightarrow> pyval \<Rightarrow> pyexc + pyval" where
  "py_add a b =
     (case (py_int_value a, py_int_value b) of
        (Some x, Some y) \<Rightarrow> Inr (PInt (x + y))
      | _ \<Rightarrow> (case (a, b) of
                (PStr s, PStr t) \<Rightarrow> Inr (PStr (s @ t))
              | (PList xs, PList ys) \<Rightarrow> Inr (PList (xs @ ys))
              | _ \<Rightarrow> py_float_binop float_add a b))"

definition py_sub :: "pyval \<Rightarrow> pyval \<Rightarrow> pyexc + pyval" where
  "py_sub a b =
     (case (py_int_value a, py_int_value b) of
        (Some x, Some y) \<Rightarrow> Inr (PInt (x - y))
      | _ \<Rightarrow> py_float_binop float_sub a b)"

text \<open>\<open>a * b\<close>: a string or list times an \<open>int\<close> repeats it.\<close>

definition py_mul :: "pyval \<Rightarrow> pyval \<Rightarrow> pyexc + pyval" where
  "py_mul a b =
     (case (py_int_value a, py_int_value b) of
        (Some x, Some y) \<Rightarrow> Inr (PInt (x * y))
      | (Some x, None) \<Rightarrow> (case b of
                PStr t \<Rightarrow> py_repeat b x
              | PList ys \<Rightarrow> py_repeat b x
              | _ \<Rightarrow> py_float_binop float_mul a b)
      | (None, Some y) \<Rightarrow> (case a of
                PStr s \<Rightarrow> py_repeat a y
              | PList xs \<Rightarrow> py_repeat a y
              | _ \<Rightarrow> py_float_binop float_mul a b)
      | (None, None) \<Rightarrow> py_float_binop float_mul a b)"

text \<open>
  \<open>a / b\<close>: \<open>int / int\<close> is the correctly rounded quotient (\<open>ZeroDivisionError\<close>
  "division by zero", \<open>OverflowError\<close> when it exceeds the \<open>float\<close> range); otherwise
  \<open>float\<close> division (\<open>ZeroDivisionError\<close> "float division by zero").
\<close>

definition py_truediv :: "pyval \<Rightarrow> pyval \<Rightarrow> pyexc + pyval" where
  "py_truediv a b =
     (case (py_int_value a, py_int_value b) of
        (Some x, Some y) \<Rightarrow>
          (case int_truediv x y of
             None \<Rightarrow> Inl (ZeroDivisionError ''division by zero'')
           | Some (Inf s) \<Rightarrow> Inl OverflowError
           | Some f \<Rightarrow> Inr (PFloat f))
      | _ \<Rightarrow> sbind (py_float_operands a b) (\<lambda>(x, y).
               case float_truediv x y of
                 None \<Rightarrow> Inl (ZeroDivisionError ''float division by zero'')
               | Some f \<Rightarrow> Inr (PFloat f)))"

fun py_eq_zero :: "pyval \<Rightarrow> bool" where
  "py_eq_zero (PBool b) = (\<not> b)"
| "py_eq_zero (PInt n) = (n = 0)"
| "py_eq_zero (PFloat f) = float_is_zero f"
| "py_eq_zero v = False"

declare py_float_of_int_def [eval_simps] py_float_operands_def [eval_simps]
  py_float_binop_def [eval_simps] py_repeat_def [eval_simps] py_add_def [eval_simps]
  py_sub_def [eval_simps] py_mul_def [eval_simps] py_truediv_def [eval_simps]

lemma float_of_int_overflow:
  assumes "2 ^ 1024 \<le> \<bar>n\<bar>"
  shows "float_of_int n = Inf (n < 0)"
proof -
  have "(of_int (2 ^ 1024) :: rat) \<le> of_int \<bar>n\<bar>" using assms by (simp only: of_int_le_iff)
  then have "(2::rat) powi 1024 \<le> of_int \<bar>n\<bar> / of_int \<bar>1\<bar> * 2 powi 0" by simp
  moreover have "n \<noteq> 0" using assms by auto
  ultimately show ?thesis using round_exact_overflow [of n 1 0] by (simp add: float_of_int_def)
qed

lemma py_float_of_int_overflow:
  "2 ^ 1024 \<le> \<bar>n\<bar> \<Longrightarrow> py_float_of_int n = Inl OverflowError"
  by (simp add: py_float_of_int_def float_of_int_overflow)

lemma py_float_of_int_small:
  "\<bar>n\<bar> < 2 ^ 53 \<Longrightarrow> py_float_of_int n = Inr (float_of_int n)"
  using float_of_int_exact [of n] by (cases "float_of_int n") (auto simp: py_float_of_int_def)

end
