(* ===== verification/JsonText.thy ===== *)
theory JsonText
  imports FloatRepr PyValue "HOL-Library.List_Lexorder" "HOL-Library.Char_ord"
begin

text \<open>
  The JSON text \<open>jsonify\<close> writes. Flask's \<open>DefaultJSONProvider\<close> calls
  \<open>json.dumps\<close> with \<open>sort_keys=True\<close>, \<open>ensure_ascii=True\<close> and the compact
  separators \<open>(",", ":")\<close>, and appends a newline. \<open>json.dumps\<close> writes \<open>None\<close>,
  booleans and \<open>int\<close>s as \<open>null\<close>, \<open>true\<close>/\<open>false\<close> and \<open>str(n)\<close>; a
  \<open>float\<close> as its \<open>repr\<close>, except NaN and the infinities, which it writes as
  \<open>NaN\<close>, \<open>Infinity\<close> and \<open>-Infinity\<close> (\<open>allow_nan=True\<close>), tokens that are not
  JSON; a string with \<open>"\<close>, backslash and the control characters escaped and every
  character outside printable ASCII as \<open>\<^verbatim>\<open>\u00XX\<close>\<close> (characters are code points
  below 256 in this model).
\<close>

definition hex_digit :: "int \<Rightarrow> char" where
  "hex_digit d = (if d < 10 then char_of (48 + d) else char_of (87 + d))"

definition json_escape :: "char \<Rightarrow> string" where
  "json_escape c =
     (let n = (of_char c :: int) in
      if c = CHR 0x22 then [CHR 0x5C, CHR 0x22]
      else if c = CHR 0x5C then [CHR 0x5C, CHR 0x5C]
      else if n = 8 then [CHR 0x5C, CHR ''b'']
      else if n = 12 then [CHR 0x5C, CHR ''f'']
      else if n = 10 then [CHR 0x5C, CHR ''n'']
      else if n = 13 then [CHR 0x5C, CHR ''r'']
      else if n = 9 then [CHR 0x5C, CHR ''t'']
      else if n < 32 \<or> 126 < n then
        [CHR 0x5C, CHR ''u'', CHR ''0'', CHR ''0'', hex_digit (n div 16), hex_digit (n mod 16)]
      else [c])"

definition json_str :: "string \<Rightarrow> string" where
  "json_str s = CHR 0x22 # concat (map json_escape s) @ [CHR 0x22]"

fun json_float :: "float64 \<Rightarrow> string" where
  "json_float NaN = ''NaN''"
| "json_float (Inf s) = (if s then ''-Infinity'' else ''Infinity'')"
| "json_float (Fin s m e) = float_repr (Fin s m e)"

fun join_sep :: "string \<Rightarrow> string list \<Rightarrow> string" where
  "join_sep sep [] = []"
| "join_sep sep [x] = x"
| "join_sep sep (x # y # zs) = x @ sep @ join_sep sep (y # zs)"

text \<open>
  \<open>json_encode sort_keys item_sep key_sep v\<close> is \<open>json.dumps\<close> with those three
  options (and \<open>ensure_ascii=True\<close>, \<open>allow_nan=True\<close>, both defaults).
\<close>

function (sequential) json_encode :: "bool \<Rightarrow> string \<Rightarrow> string \<Rightarrow> pyval \<Rightarrow> string" where
  "json_encode sk isep ksep PNone = ''null''"
| "json_encode sk isep ksep (PBool b) = (if b then ''true'' else ''false'')"
| "json_encode sk isep ksep (PInt n) = int_repr n"
| "json_encode sk isep ksep (PFloat f) = json_float f"
| "json_encode sk isep ksep (PStr s) = json_str s"
| "json_encode sk isep ksep (PList xs) =
     CHR ''['' # join_sep isep (map (json_encode sk isep ksep) xs) @ '']''"
| "json_encode sk isep ksep (PDict kvs) =
     CHR ''{'' # join_sep isep (map (\<lambda>kv. json_str (fst kv) @ ksep @ json_encode sk isep ksep (snd kv))
                                 (if sk then sort_key fst kvs else kvs)) @ ''}''"
  by pat_completeness auto
termination
  by (relation "measure (\<lambda>(sk, isep, ksep, v). size v)")
     (auto split: if_splits intro!: le_imp_less_Suc elim!: size_list_estimation')

text \<open>Flask's \<open>jsonify\<close>: sorted keys, compact separators.\<close>

definition json_dumps :: "pyval \<Rightarrow> string" where
  "json_dumps v = json_encode True '','' '':'' v"

text \<open>\<open>json.dumps(v)\<close> with its defaults, as \<open>src/api/test_app.py\<close> calls it.\<close>

definition py_json_dumps :: "pyval \<Rightarrow> string" where
  "py_json_dumps v = json_encode False '', '' '': '' v"

end
