(* ===== verification/JsonLoads.thy ===== *)
theory JsonLoads
  imports JsonText
begin

text \<open>
  \<open>json.loads\<close> on the text of a request body, as \<open>request.get_json()\<close> calls it
  (Flask's \<open>DefaultJSONProvider.loads\<close>), following CPython's C scanner
  (\<open>Modules/_json.c\<close>: \<open>scan_once_unicode\<close>, \<open>_parse_object_unicode\<close>,
  \<open>_parse_array_unicode\<close>, \<open>scanstring_unicode\<close>, \<open>_match_number_unicode\<close>) and
  \<open>JSONDecoder.decode\<close>.
\<close>

datatype json_error = JSONDecodeError | BeyondModel

definition json_ws :: "char \<Rightarrow> bool" where
  "json_ws c \<longleftrightarrow> c = CHR '' '' \<or> c = CHR 0x09 \<or> c = CHR 0x0A \<or> c = CHR 0x0D"

definition skip_ws :: "string \<Rightarrow> string" where
  "skip_ws s = dropWhile json_ws s"

definition hex_val :: "char \<Rightarrow> int option" where
  "hex_val c = (let n = (of_char c :: int) in
     if 48 \<le> n \<and> n \<le> 57 then Some (n - 48)
     else if 97 \<le> n \<and> n \<le> 102 then Some (n - 87)
     else if 65 \<le> n \<and> n \<le> 70 then Some (n - 55) else None)"

fun hex4 :: "string \<Rightarrow> int option" where
  "hex4 [a, b, c, d] =
     (case (hex_val a, hex_val b, hex_val c, hex_val d) of
        (Some w, Some x, Some y, Some z) \<Rightarrow> Some (((w * 16 + x) * 16 + y) * 16 + z)
      | _ \<Rightarrow> None)"
| "hex4 _ = None"

definition json_unescape :: "char \<Rightarrow> char option" where
  "json_unescape c =
     (if c = CHR 0x22 then Some (CHR 0x22) else if c = CHR 0x5C then Some (CHR 0x5C)
      else if c = CHR ''/'' then Some (CHR ''/'') else if c = CHR ''b'' then Some (CHR 0x08)
      else if c = CHR ''f'' then Some (CHR 0x0C) else if c = CHR ''n'' then Some (CHR 0x0A)
      else if c = CHR ''r'' then Some (CHR 0x0D) else if c = CHR ''t'' then Some (CHR 0x09)
      else None)"

function json_scanstring :: "string \<Rightarrow> string \<Rightarrow> json_error + string \<times> string" where
  "json_scanstring acc [] = Inl JSONDecodeError"
| "json_scanstring acc (c # cs) =
     (if c = CHR 0x22 then Inr (rev acc, cs)
      else if c = CHR 0x5C then
        (case cs of
           [] \<Rightarrow> Inl JSONDecodeError
         | d # ds \<Rightarrow>
             if d = CHR ''u'' then
               (case hex4 (take 4 ds) of
                  None \<Rightarrow> Inl JSONDecodeError
                | Some n \<Rightarrow> if n < 256 then json_scanstring (char_of n # acc) (drop 4 ds)
                            else Inl BeyondModel)
             else
               (case json_unescape d of
                  None \<Rightarrow> Inl JSONDecodeError
                | Some e \<Rightarrow> json_scanstring (e # acc) ds))
      else if (of_char c :: nat) < 32 then Inl JSONDecodeError
      else json_scanstring (c # acc) cs)"
  by pat_completeness auto
termination by (relation "measure (\<lambda>(acc, s). length s)") auto

definition json_int_part :: "string \<Rightarrow> string" where
  "json_int_part s = (case s of
     [] \<Rightarrow> []
   | c # cs \<Rightarrow> if c = CHR ''0'' then [c] else if is_digit c then c # takeWhile is_digit cs else [])"

definition json_frac_part :: "string \<Rightarrow> string" where
  "json_frac_part s = (case s of
     c # d # ds \<Rightarrow> if c = CHR ''.'' \<and> is_digit d then c # d # takeWhile is_digit ds else []
   | _ \<Rightarrow> [])"

definition json_exp_part :: "string \<Rightarrow> string" where
  "json_exp_part s = (case s of
     [] \<Rightarrow> []
   | c # cs \<Rightarrow>
       if c = CHR ''e'' \<or> c = CHR ''E'' then
         (let sg = (case cs of d # d' # _ \<Rightarrow> if d = CHR ''+'' \<or> d = CHR ''-'' then [d] else [] | _ \<Rightarrow> []);
              digs = takeWhile is_digit (drop (length sg) cs)
          in if digs = [] then [] else c # sg @ digs)
       else [])"

definition json_sign :: "string \<Rightarrow> string \<times> string" where
  "json_sign s = (case s of c # cs \<Rightarrow> if c = CHR ''-'' then ([c], cs) else ([], s) | [] \<Rightarrow> ([], []))"

definition json_number :: "string \<Rightarrow> (pyval \<times> string) option" where
  "json_number s =
     (let (sg, s1) = json_sign s;
          ip = json_int_part s1; s2 = drop (length ip) s1;
          fp = json_frac_part s2; s3 = drop (length fp) s2;
          ep = json_exp_part s3; s4 = drop (length ep) s3
      in if ip = [] then None
         else if fp = [] \<and> ep = [] then Some (PInt ((if sg = [] then 1 else - 1) * digits_val ip), s4)
         else map_option (\<lambda>f. (PFloat f, s4)) (parse_float_str (sg @ ip @ fp @ ep)))"

definition json_literal :: "string \<Rightarrow> (pyval \<times> string) option" where
  "json_literal s =
     (if take 4 s = ''null'' then Some (PNone, drop 4 s)
      else if take 4 s = ''true'' then Some (PBool True, drop 4 s)
      else if take 5 s = ''false'' then Some (PBool False, drop 5 s)
      else if take 3 s = ''NaN'' then Some (PFloat NaN, drop 3 s)
      else if take 8 s = ''Infinity'' then Some (PFloat (Inf False), drop 8 s)
      else if take 9 s = ''-Infinity'' then Some (PFloat (Inf True), drop 9 s)
      else None)"

fun dict_set :: "(string \<times> pyval) list \<Rightarrow> string \<Rightarrow> pyval \<Rightarrow> (string \<times> pyval) list" where
  "dict_set [] k v = [(k, v)]"
| "dict_set ((k', v') # kvs) k v = (if k' = k then (k, v) # kvs else (k', v') # dict_set kvs k v)"

datatype scan_mode = ScanValue | ScanArray "pyval list" | ScanObject "(string \<times> pyval) list"

partial_function (option) json_scan :: "scan_mode \<Rightarrow> string \<Rightarrow> (json_error + pyval \<times> string) option" where
  "json_scan m s = (case m of
     ScanValue \<Rightarrow>
       (case s of
          [] \<Rightarrow> Some (Inl JSONDecodeError)
        | c # cs \<Rightarrow>
            if c = CHR 0x22 then Some (map_sum id (\<lambda>(t, r). (PStr t, r)) (json_scanstring [] cs))
            else if c = CHR ''['' then
              (case skip_ws cs of
                 d # r \<Rightarrow> if d = CHR '']'' then Some (Inr (PList [], r))
                          else json_scan (ScanArray []) (skip_ws cs)
               | [] \<Rightarrow> Some (Inl JSONDecodeError))
            else if c = CHR ''{'' then
              (case skip_ws cs of
                 d # r \<Rightarrow> if d = CHR ''}'' then Some (Inr (PDict [], r))
                          else json_scan (ScanObject []) (skip_ws cs)
               | [] \<Rightarrow> Some (Inl JSONDecodeError))
            else Some (case json_literal s of
                         Some vr \<Rightarrow> Inr vr
                       | None \<Rightarrow> (case json_number s of Some vr \<Rightarrow> Inr vr | None \<Rightarrow> Inl JSONDecodeError)))
   | ScanArray acc \<Rightarrow>
       Option.bind (json_scan ScanValue s) (\<lambda>res. case res of
          Inl e \<Rightarrow> Some (Inl e)
        | Inr (v, r) \<Rightarrow>
            (case skip_ws r of
               d # r' \<Rightarrow> if d = CHR '']'' then Some (Inr (PList (rev (v # acc)), r'))
                         else if d = CHR '','' then json_scan (ScanArray (v # acc)) (skip_ws r')
                         else Some (Inl JSONDecodeError)
             | [] \<Rightarrow> Some (Inl JSONDecodeError)))
   | ScanObject acc \<Rightarrow>
       (case s of
          c # cs \<Rightarrow>
            if c \<noteq> CHR 0x22 then Some (Inl JSONDecodeError) else
            (case json_scanstring [] cs of
               Inl e \<Rightarrow> Some (Inl e)
             | Inr (k, r) \<Rightarrow>
                 (case skip_ws r of
                    d # r1 \<Rightarrow>
                      if d \<noteq> CHR '':'' then Some (Inl JSONDecodeError) else
                      Option.bind (json_scan ScanValue (skip_ws r1)) (\<lambda>res. case res of
                         Inl e \<Rightarrow> Some (Inl e)
                       | Inr (v, r2) \<Rightarrow>
                           (case skip_ws r2 of
                              d' # r3 \<Rightarrow>
                                if d' = CHR ''}'' then Some (Inr (PDict (dict_set acc k v), r3))
                                else if d' = CHR '','' then json_scan (ScanObject (dict_set acc k v)) (skip_ws r3)
                                else Some (Inl JSONDecodeError)
                            | [] \<Rightarrow> Some (Inl JSONDecodeError)))
                  | [] \<Rightarrow> Some (Inl JSONDecodeError)))
        | [] \<Rightarrow> Some (Inl JSONDecodeError)))"

declare json_scan.simps [code]

definition json_loads :: "string \<Rightarrow> (json_error + pyval) option" where
  "json_loads s = map_option (\<lambda>res. case res of
       Inl e \<Rightarrow> Inl e
     | Inr (v, r) \<Rightarrow> if skip_ws r = [] then Inr v else Inl JSONDecodeError)
     (json_scan ScanValue (skip_ws s))"

text \<open>
  The vocabulary of the proofs below: the scanner returning and consuming input (\<open>scan_ok\<close>),
  what may follow a value in the encoder's output, the shape of a
  number, and the values \<open>json.dumps\<close> writes so that they read back (\<open>json_canonical\<close>:
  canonical floats, dictionaries without repeated keys), with what the decoder returns for them
  (\<open>json_norm\<close>: dictionaries sorted when \<open>sort_keys\<close> is set).
\<close>

definition no_digit_next :: "string \<Rightarrow> bool" where
  "no_digit_next r \<longleftrightarrow> r = [] \<or> \<not> is_digit (hd r)"

definition number_shape :: "string \<Rightarrow> string \<Rightarrow> string \<Rightarrow> bool" where
  "number_shape ip fp ep \<longleftrightarrow> ip \<noteq> [] \<and> list_all is_digit ip \<and> (hd ip = CHR ''0'' \<longrightarrow> ip = ''0'') \<and>
     (fp = [] \<or> (\<exists>fs. fp = CHR ''.'' # fs \<and> fs \<noteq> [] \<and> list_all is_digit fs)) \<and>
     (ep = [] \<or> (\<exists>k. ep = CHR ''e'' # exp_str k))"

definition json_delim :: "string \<Rightarrow> bool" where
  "json_delim r \<longleftrightarrow> r = [] \<or> hd r = CHR '','' \<or> hd r = CHR '']'' \<or> hd r = CHR ''}'' \<or> json_ws (hd r)"

fun json_canonical :: "pyval \<Rightarrow> bool" where
  "json_canonical (PFloat f) = wf_float f"
| "json_canonical (PList xs) = (\<forall>x\<in>set xs. json_canonical x)"
| "json_canonical (PDict kvs) = (distinct (map fst kvs) \<and> (\<forall>kv\<in>set kvs. json_canonical (snd kv)))"
| "json_canonical v = True"

function (sequential) json_norm :: "bool \<Rightarrow> pyval \<Rightarrow> pyval" where
  "json_norm sk (PList xs) = PList (map (json_norm sk) xs)"
| "json_norm sk (PDict kvs) =
     PDict (map (\<lambda>kv. (fst kv, json_norm sk (snd kv))) (if sk then sort_key fst kvs else kvs))"
| "json_norm sk v = v"
  by pat_completeness auto
termination
  by (relation "measure (\<lambda>(sk, v). size v)")
     (auto split: if_splits intro!: le_imp_less_Suc elim!: size_list_estimation')

definition scan_ok :: "scan_mode \<Rightarrow> string \<Rightarrow> bool" where
  "scan_ok m s \<longleftrightarrow> (\<exists>res. json_scan m s = Some res \<and> (\<forall>v r. res = Inr (v, r) \<longrightarrow> length r < length s))"

definition json_start :: "string \<Rightarrow> bool" where
  "json_start s \<longleftrightarrow> s \<noteq> [] \<and> \<not> json_ws (hd s) \<and> hd s \<noteq> CHR '']'' \<and> hd s \<noteq> CHR ''}''"

section \<open>The scanner always returns\<close>

text \<open>
  Each step of the scanner consumes input: a string, a literal and a number leave a strictly shorter rest, and so does every value, array and object. By induction on the length of the text, \<open>json_scan\<close> returns (is never \<open>None\<close>) on every text and every mode.
\<close>

lemma skip_ws_length: "length (skip_ws s) \<le> length s"
  by (simp add: skip_ws_def length_dropWhile_le)

lemma json_scanstring_shorter:
  "json_scanstring acc s = Inr (t, r) \<Longrightarrow> length r < length s"
proof (induction acc s rule: json_scanstring.induct)
  case (1 acc)
  then show ?case by simp
next
  case (2 acc c cs)
  consider (q) "c = CHR 0x22" | (b) "c \<noteq> CHR 0x22" "c = CHR 0x5C" | (o) "c \<noteq> CHR 0x22" "c \<noteq> CHR 0x5C"
    by blast
  then show ?case
  proof cases
    case q
    then show ?thesis using "2.prems" by simp
  next
    case b
    then obtain d ds where cs: "cs = d # ds" using "2.prems" by (cases cs) auto
    show ?thesis
    proof (cases "d = CHR ''u''")
      case True
      then obtain n where h: "hex4 (take 4 ds) = Some n" "n < 256"
        and st: "json_scanstring (char_of n # acc) (drop 4 ds) = Inr (t, r)"
        using "2.prems" b cs by (auto split: option.splits if_splits)
      have "length r < length (drop 4 ds)" using "2.IH"(1) [OF b cs True h st] .
      then show ?thesis using cs by simp
    next
      case False
      then obtain e where h: "json_unescape d = Some e" and st: "json_scanstring (e # acc) ds = Inr (t, r)"
        using "2.prems" b cs by (auto split: option.splits)
      have "length r < length ds" using "2.IH"(2) [OF b cs False h st] .
      then show ?thesis using cs by simp
    qed
  next
    case o
    then have "\<not> (of_char c :: nat) < 32" and st: "json_scanstring (c # acc) cs = Inr (t, r)"
      using "2.prems" by (auto split: if_splits)
    then have "length r < length cs" using "2.IH"(3) [OF o] by blast
    then show ?thesis by simp
  qed
qed

lemma take_Cons_nonempty: "take n s = x # xs \<Longrightarrow> 0 < length s"
  by (cases s) auto

lemma json_literal_shorter: "json_literal s = Some (v, r) \<Longrightarrow> length r < length s"
  by (auto simp: json_literal_def dest: take_Cons_nonempty split: if_splits)

lemma json_sign_length: "json_sign s = (sg, s1) \<Longrightarrow> length s1 \<le> length s"
  by (auto simp: json_sign_def split: list.splits if_splits)

lemma json_number_shorter: "json_number s = Some (v, r) \<Longrightarrow> length r < length s"
proof -
  assume a: "json_number s = Some (v, r)"
  obtain sg s1 where sp: "json_sign s = (sg, s1)" by (metis surj_pair)
  define ip where "ip = json_int_part s1"
  define s2 where "s2 = drop (length ip) s1"
  define fp where "fp = json_frac_part s2"
  define s3 where "s3 = drop (length fp) s2"
  define ep where "ep = json_exp_part s3"
  have n: "json_number s = (if ip = [] then None
         else if fp = [] \<and> ep = [] then Some (PInt ((if sg = [] then 1 else - 1) * digits_val ip), drop (length ep) s3)
         else map_option (\<lambda>f. (PFloat f, drop (length ep) s3)) (parse_float_str (sg @ ip @ fp @ ep)))"
    unfolding json_number_def Let_def sp prod.case ip_def s2_def fp_def s3_def ep_def ..
  have ip: "ip \<noteq> []" and r: "r = drop (length ep) s3" using a unfolding n by (auto split: if_splits)
  have "s1 \<noteq> []" using ip by (auto simp: ip_def json_int_part_def)
  then have "length s2 < length s1" using ip by (simp add: s2_def)
  moreover have "length r \<le> length s2" by (simp add: r s3_def)
  ultimately show ?thesis using json_sign_length [OF sp] by linarith
qed

lemma skip_ws_Cons_shorter: "skip_ws r = d # r' \<Longrightarrow> length (skip_ws r') < length r"
proof -
  assume a: "skip_ws r = d # r'"
  have "length (d # r') \<le> length r" using skip_ws_length [of r] a by simp
  then show ?thesis using skip_ws_length [of r'] by simp
qed

lemma scan_ok_value:
  assumes less: "\<And>m s'. length s' < length s \<Longrightarrow> scan_ok m s'"
  shows "scan_ok ScanValue s"
proof (cases s)
  case Nil
  then show ?thesis by (simp add: scan_ok_def json_scan.simps [of ScanValue])
next
  case (Cons c cs)
  have ws: "length (skip_ws cs) < length s" using skip_ws_length [of cs] Cons by simp
  have sc: "length r < length s" if "skip_ws cs = d # r" for d r
    using that skip_ws_length [of cs] Cons by simp
  note eq = json_scan.simps [of ScanValue "c # cs"]
  consider "c = CHR 0x22" | "c \<noteq> CHR 0x22" "c = CHR ''[''" | "c \<noteq> CHR 0x22" "c \<noteq> CHR ''[''" "c = CHR ''{''"
    | "c \<noteq> CHR 0x22" "c \<noteq> CHR ''[''" "c \<noteq> CHR ''{''" by blast
  then show ?thesis
  proof cases
    case 1
    show ?thesis
    proof (cases "json_scanstring [] cs")
      case (Inl e)
      then show ?thesis using 1 Cons eq by (simp add: scan_ok_def)
    next
      case (Inr p)
      then obtain t r where "json_scanstring [] cs = Inr (t, r)" by (cases p) auto
      then show ?thesis using json_scanstring_shorter [of "[]" cs t r] 1 Cons eq by (simp add: scan_ok_def)
    qed
  next
    case 2
    then show ?thesis using less [OF ws, of "ScanArray []"] sc Cons eq
      by (auto simp: scan_ok_def split: list.splits)
  next
    case 3
    then show ?thesis using less [OF ws, of "ScanObject []"] sc Cons eq
      by (auto simp: scan_ok_def split: list.splits)
  next
    case 4
    then show ?thesis using json_literal_shorter [of s] json_number_shorter [of s] Cons eq
      by (auto simp: scan_ok_def split: option.splits)
  qed
qed

lemma scan_ok_array:
  assumes less: "\<And>m s'. length s' < length s \<Longrightarrow> scan_ok m s'" and val: "scan_ok ScanValue s"
  shows "scan_ok (ScanArray acc) s"
proof -
  obtain res where vs: "json_scan ScanValue s = Some res"
    and vr: "\<forall>v r. res = Inr (v, r) \<longrightarrow> length r < length s" using val by (auto simp: scan_ok_def)
  note eq = json_scan.simps [of "ScanArray acc" s]
  show ?thesis
  proof (cases "\<exists>v r. res = Inr (v, r)")
    case False
    then obtain e where "res = Inl e" by (metis sumE surj_pair)
    then show ?thesis using vs eq by (simp add: scan_ok_def)
  next
    case True
    then obtain v r where p: "res = Inr (v, r)" by blast
    have lr: "length r < length s" using vr p by simp
    show ?thesis
    proof (cases "skip_ws r")
      case Nil
      then show ?thesis using vs p eq by (simp add: scan_ok_def)
    next
      case (Cons d r')
      have l': "length (skip_ws r') < length s" using skip_ws_Cons_shorter [OF Cons] lr by simp
      have "length r' < length s" using skip_ws_length [of r] Cons lr by simp
      then show ?thesis using less [OF l', of "ScanArray (v # acc)"] vs p Cons eq l'
        by (auto simp: scan_ok_def)
    qed
  qed
qed

lemma scan_ok_object_member:
  assumes less: "\<And>m s'. length s' < length s \<Longrightarrow> scan_ok m s'"
    and s: "s = CHR 0x22 # cs" and k: "json_scanstring [] cs = Inr (k, r)" and r: "skip_ws r = CHR '':'' # r1"
  shows "scan_ok (ScanObject acc) s"
proof -
  note eq = json_scan.simps [of "ScanObject acc" s]
  have l1: "length (skip_ws r1) < length s"
    using skip_ws_Cons_shorter [OF r] json_scanstring_shorter [OF k] s by simp
  obtain res where vs: "json_scan ScanValue (skip_ws r1) = Some res"
    and vr: "\<forall>v r. res = Inr (v, r) \<longrightarrow> length r < length (skip_ws r1)"
    using less [OF l1, of ScanValue] by (auto simp: scan_ok_def)
  show ?thesis
  proof (cases "\<exists>v r2. res = Inr (v, r2)")
    case False
    then obtain e where "res = Inl e" by (metis sumE surj_pair)
    then show ?thesis using vs eq s k r by (simp add: scan_ok_def)
  next
    case True
    then obtain v r2 where p: "res = Inr (v, r2)" by blast
    have lr: "length r2 < length s" using vr p l1 by simp
    show ?thesis
    proof (cases "skip_ws r2")
      case Nil
      then show ?thesis using vs p eq s k r by (simp add: scan_ok_def)
    next
      case (Cons d r3)
      have l': "length (skip_ws r3) < length s" using skip_ws_Cons_shorter [OF Cons] lr by simp
      have "length r3 < length s" using skip_ws_length [of r2] Cons lr by simp
      then show ?thesis using less [OF l', of "ScanObject (dict_set acc k v)"] vs p Cons eq s k r l'
        by (auto simp: scan_ok_def)
    qed
  qed
qed

lemma scan_ok_object:
  assumes less: "\<And>m s'. length s' < length s \<Longrightarrow> scan_ok m s'"
  shows "scan_ok (ScanObject acc) s"
proof (cases "\<exists>cs k r r1. s = CHR 0x22 # cs \<and> json_scanstring [] cs = Inr (k, r) \<and> skip_ws r = CHR '':'' # r1")
  case True
  then show ?thesis using scan_ok_object_member [OF less] by blast
next
  case False
  note eq = json_scan.simps [of "ScanObject acc" s]
  have "\<exists>e. json_scan (ScanObject acc) s = Some (Inl e)"
  proof (cases s)
    case Nil
    then show ?thesis using eq by simp
  next
    case (Cons c cs)
    show ?thesis
    proof (cases "c = CHR 0x22")
      case False
      then show ?thesis using eq Cons by simp
    next
      case q: True
      show ?thesis
      proof (cases "json_scanstring [] cs")
        case (Inl e)
        then show ?thesis using eq Cons q by simp
      next
        case (Inr p)
        then obtain k r where "json_scanstring [] cs = Inr (k, r)" by (cases p) auto
        then show ?thesis using eq Cons q False by (simp split: list.splits)
      qed
    qed
  qed
  then show ?thesis by (auto simp: scan_ok_def)
qed

lemma json_scan_returns: "scan_ok m s"
proof (induction "length s" arbitrary: m s rule: less_induct)
  case less
  have "scan_ok ScanValue s" using less by (rule scan_ok_value)
  then show ?case using scan_ok_array [OF less] scan_ok_object [OF less] by (cases m) simp_all
qed

section \<open>Strings\<close>

text \<open>
  \<open>scanstring\<close> undoes the escapes \<open>json.dumps\<close> writes (\<open>ensure_ascii\<close> included), one character at a time.
\<close>

lemma hex_val_hex_digit: "0 \<le> d \<Longrightarrow> d < 16 \<Longrightarrow> hex_val (hex_digit d) = Some d"
proof -
  assume d: "0 \<le> d" "d < 16"
  show ?thesis
  proof (cases "d < 10")
    case True
    then have "(of_char (hex_digit d) :: int) = 48 + d" using d by (simp add: hex_digit_def)
    then show ?thesis using True d by (simp add: hex_val_def)
  next
    case False
    then have "(of_char (hex_digit d) :: int) = 87 + d" using d by (simp add: hex_digit_def)
    then show ?thesis using False d by (simp add: hex_val_def)
  qed
qed

lemma hex4_escape:
  "0 \<le> n \<Longrightarrow> n < 256 \<Longrightarrow>
   hex4 [CHR ''0'', CHR ''0'', hex_digit (n div 16), hex_digit (n mod 16)] = Some n"
proof -
  assume n: "0 \<le> n" "n < 256"
  have "hex_val (hex_digit (n div 16)) = Some (n div 16)" "hex_val (hex_digit (n mod 16)) = Some (n mod 16)"
    using n by (simp_all add: hex_val_hex_digit)
  moreover have "hex_val CHR ''0'' = Some 0" by (simp add: hex_val_def)
  ultimately show ?thesis by simp
qed

lemma of_char_neq: "c \<noteq> d \<Longrightarrow> (of_char c :: int) \<noteq> of_char d"
  by (metis char_of_char)

lemma json_scanstring_escape:
  "json_scanstring acc (json_escape c @ x) = json_scanstring (c # acc) x"
proof -
  define n where "n = (of_char c :: int)"
  have "(of_char c :: nat) < 256" by (rule nat_of_char_less_256)
  moreover have e: "n = int (of_char c)" unfolding n_def by (rule of_nat_of_char [symmetric])
  ultimately have n: "0 \<le> n" "n < 256" "c = char_of n" by (simp_all add: n_def)
  show ?thesis
  proof (cases "c = CHR 0x22 \<or> c = CHR 0x5C \<or> c = CHR 0x08 \<or> c = CHR 0x09 \<or> c = CHR 0x0A \<or>
                c = CHR 0x0C \<or> c = CHR 0x0D")
    case True
    then show ?thesis by (elim disjE) (simp_all add: json_escape_def json_unescape_def)
  next
    case False
    have "n \<noteq> of_char (CHR 0x08) \<and> n \<noteq> of_char (CHR 0x09) \<and> n \<noteq> of_char (CHR 0x0A) \<and>
          n \<noteq> of_char (CHR 0x0C) \<and> n \<noteq> of_char (CHR 0x0D)"
      using False unfolding n_def by (intro conjI of_char_neq) simp_all
    then have "n \<noteq> 8 \<and> n \<noteq> 9 \<and> n \<noteq> 10 \<and> n \<noteq> 12 \<and> n \<noteq> 13" by simp
    then have ne: "c \<noteq> CHR 0x22 \<and> c \<noteq> CHR 0x5C \<and> n \<noteq> 8 \<and> n \<noteq> 9 \<and> n \<noteq> 10 \<and> n \<noteq> 12 \<and> n \<noteq> 13"
      using False by simp
    show ?thesis
    proof (cases "n < 32 \<or> 126 < n")
      case True
      have h: "hex4 (take 4 ([CHR ''0'', CHR ''0'', hex_digit (n div 16), hex_digit (n mod 16)] @ x)) = Some n"
        using hex4_escape [OF n(1,2)] by simp
      show ?thesis using ne True h n by (simp add: json_escape_def n_def [symmetric])
    next
      case c: False
      then have "\<not> (of_char c :: nat) < 32" using e by simp
      then show ?thesis using ne c by (simp add: json_escape_def n_def [symmetric])
    qed
  qed
qed

lemma json_scanstring_str:
  "json_scanstring acc (concat (map json_escape s) @ CHR 0x22 # rest) = Inr (rev acc @ s, rest)"
  by (induction s arbitrary: acc) (simp_all add: json_scanstring_escape)

section \<open>Numbers\<close>

text \<open>
  The three parts of a JSON number as \<open>_match_number_unicode\<close> reads them.
\<close>

lemma takeWhile_digits_stop:
  "list_all is_digit ds \<Longrightarrow> no_digit_next r \<Longrightarrow> takeWhile is_digit (ds @ r) = ds"
  by (induction ds) (auto simp: no_digit_next_def takeWhile_eq_Nil_iff neq_Nil_conv)

lemma json_int_part_digits:
  assumes "ds \<noteq> []" "list_all is_digit ds" "hd ds = CHR ''0'' \<longrightarrow> ds = ''0''" "no_digit_next r"
  shows "json_int_part (ds @ r) = ds"
proof -
  obtain d ds' where d: "ds = d # ds'" using assms(1) by (cases ds) auto
  show ?thesis
  proof (cases "d = CHR ''0''")
    case True
    then show ?thesis using assms(3) d by (simp add: json_int_part_def)
  next
    case False
    then show ?thesis using assms(2,4) d takeWhile_digits_stop [of ds' r]
      by (simp add: json_int_part_def)
  qed
qed

lemma json_frac_part_digits:
  "fs \<noteq> [] \<Longrightarrow> list_all is_digit fs \<Longrightarrow> no_digit_next r \<Longrightarrow>
   json_frac_part (CHR ''.'' # fs @ r) = CHR ''.'' # fs"
  by (cases fs) (simp_all add: json_frac_part_def takeWhile_digits_stop)

lemma json_frac_part_none: "r = [] \<or> hd r \<noteq> CHR ''.'' \<Longrightarrow> json_frac_part r = []"
  by (auto simp: json_frac_part_def split: list.splits)

lemma json_exp_part_none: "r = [] \<or> (hd r \<noteq> CHR ''e'' \<and> hd r \<noteq> CHR ''E'') \<Longrightarrow> json_exp_part r = []"
  by (auto simp: json_exp_part_def split: list.splits)

lemma exp_str_parts:
  "\<exists>g ds. exp_str k = g # ds \<and> (g = CHR ''+'' \<or> g = CHR ''-'') \<and> ds \<noteq> [] \<and> list_all is_digit ds"
proof -
  have "0 \<le> \<bar>k\<bar>" by simp
  note c = int_digits_correct [OF this]
  show ?thesis using c by (auto simp: exp_str_def is_digit_def)
qed

lemma json_exp_part_exp_str:
  "no_digit_next r \<Longrightarrow> json_exp_part (CHR ''e'' # exp_str k @ r) = CHR ''e'' # exp_str k"
proof -
  assume r: "no_digit_next r"
  obtain g ds where e: "exp_str k = g # ds" "g = CHR ''+'' \<or> g = CHR ''-''" "ds \<noteq> []" "list_all is_digit ds"
    using exp_str_parts by blast
  obtain d ds' where ds: "ds = d # ds'" using e(3) by (cases ds) auto
  show ?thesis using e ds takeWhile_digits_stop [OF e(4) r]
    by (auto simp: json_exp_part_def Let_def)
qed

lemma json_number_parts:
  assumes "json_sign s = (sg, ip @ fp @ ep @ r)" "ip \<noteq> []"
    and "json_int_part (ip @ fp @ ep @ r) = ip" "json_frac_part (fp @ ep @ r) = fp"
    and "json_exp_part (ep @ r) = ep"
  shows "json_number s =
    (if fp = [] \<and> ep = [] then Some (PInt ((if sg = [] then 1 else - 1) * digits_val ip), r)
     else map_option (\<lambda>f. (PFloat f, r)) (parse_float_str (sg @ ip @ fp @ ep)))"
  using assms by (simp add: json_number_def)

lemma repr_digits_shape:
  assumes c: "0 < c"
  shows "\<exists>ip fp ep. repr_digits (c, x) = ip @ fp @ ep \<and> number_shape ip fp ep \<and> (fp \<noteq> [] \<or> ep \<noteq> [])"
proof -
  define ds where "ds = int_digits c"
  define n where "n = int (length ds)"
  define decpt where "decpt = n + x"
  have cd: "ds \<noteq> []" "list_all is_digit ds" "hd ds \<noteq> CHR ''0''"
    using int_digits_correct [of c] c by (auto simp: ds_def)
  have r: "repr_digits (c, x) =
     (if decpt \<le> -4 \<or> 16 < decpt then
       hd ds # (if n = 1 then [] else CHR ''.'' # tl ds) @ CHR ''e'' # exp_str (decpt - 1)
     else if decpt \<le> 0 then ''0.'' @ replicate (nat (- decpt)) CHR ''0'' @ ds
     else if n \<le> decpt then ds @ replicate (nat (decpt - n)) CHR ''0'' @ ''.0''
     else take (nat decpt) ds @ CHR ''.'' # drop (nat decpt) ds)"
    by (simp add: repr_digits_def ds_def n_def decpt_def Let_def)
  consider (F1) "decpt \<le> -4 \<or> 16 < decpt"
    | (F2) "\<not> (decpt \<le> -4 \<or> 16 < decpt)" "decpt \<le> 0"
    | (F3) "\<not> (decpt \<le> -4 \<or> 16 < decpt)" "\<not> decpt \<le> 0" "n \<le> decpt"
    | (F4) "\<not> (decpt \<le> -4 \<or> 16 < decpt)" "\<not> decpt \<le> 0" "\<not> n \<le> decpt"
    by blast
  then show ?thesis
  proof cases
    case F1
    obtain d fs where dfs: "ds = d # fs" using cd(1) by (cases ds) auto
    have "repr_digits (c, x) = [d] @ (if fs = [] then [] else CHR ''.'' # fs) @ CHR ''e'' # exp_str (decpt - 1)"
      using r F1 dfs by (simp add: n_def)
    moreover have "number_shape [d] (if fs = [] then [] else CHR ''.'' # fs) (CHR ''e'' # exp_str (decpt - 1))"
      using cd dfs by (auto simp: number_shape_def)
    ultimately show ?thesis by blast
  next
    case F2
    have "repr_digits (c, x) = ''0'' @ (CHR ''.'' # replicate (nat (- decpt)) CHR ''0'' @ ds) @ []"
      using r F2 by simp
    moreover have "number_shape ''0'' (CHR ''.'' # replicate (nat (- decpt)) CHR ''0'' @ ds) []"
      using cd zeros_digits(1) by (auto simp: number_shape_def is_digit_def)
    ultimately show ?thesis by blast
  next
    case F3
    have "repr_digits (c, x) = (ds @ replicate (nat (decpt - n)) CHR ''0'') @ ''.0'' @ []"
      using r F3 by simp
    moreover have "number_shape (ds @ replicate (nat (decpt - n)) CHR ''0'') ''.0'' []"
      using cd zeros_digits(1) by (auto simp: number_shape_def is_digit_def)
    ultimately show ?thesis by blast
  next
    case F4
    define d where "d = nat decpt"
    have d: "0 < d" "d < length ds" using F4 by (simp_all add: d_def n_def)
    have td: "take d ds \<noteq> []" "drop d ds \<noteq> []" using d cd(1) by simp_all
    have ld: "list_all is_digit (take d ds)" "list_all is_digit (drop d ds)"
      using cd(2) by (auto simp: list_all_iff dest: in_set_takeD in_set_dropD)
    have "hd (take d ds) = hd ds" using d cd(1) by (cases ds) simp_all
    then have "number_shape (take d ds) (CHR ''.'' # drop d ds) []"
      using td ld cd(3) by (auto simp: number_shape_def)
    moreover have "repr_digits (c, x) = take d ds @ (CHR ''.'' # drop d ds) @ []" using r F4 by (simp add: d_def)
    ultimately show ?thesis by blast
  qed
qed

lemma number_shape_scan:
  assumes "number_shape ip fp ep" "json_delim r"
  shows "json_int_part (ip @ fp @ ep @ r) = ip \<and> json_frac_part (fp @ ep @ r) = fp \<and> json_exp_part (ep @ r) = ep"
proof -
  have nd: "no_digit_next r" "r = [] \<or> hd r \<noteq> CHR ''.''" "r = [] \<or> (hd r \<noteq> CHR ''e'' \<and> hd r \<noteq> CHR ''E'')"
    using assms(2) by (auto simp: json_delim_def no_digit_next_def json_ws_def is_digit_def)
  have ip: "ip \<noteq> []" "list_all is_digit ip" "hd ip = CHR ''0'' \<longrightarrow> ip = ''0''"
    using assms(1) by (simp_all add: number_shape_def)
  have e: "json_exp_part (ep @ r) = ep" and ne: "no_digit_next (ep @ r)"
    and ee: "ep @ r = [] \<or> hd (ep @ r) \<noteq> CHR ''.''"
  proof -
    consider "ep = []" | k where "ep = CHR ''e'' # exp_str k" using assms(1) by (auto simp: number_shape_def)
    then have "json_exp_part (ep @ r) = ep \<and> no_digit_next (ep @ r) \<and> (ep @ r = [] \<or> hd (ep @ r) \<noteq> CHR ''.'')"
    proof cases
      case 1
      then show ?thesis using nd json_exp_part_none [OF nd(3)] by simp
    next
      case 2
      then show ?thesis using json_exp_part_exp_str [OF nd(1)] by (simp add: no_digit_next_def is_digit_def)
    qed
    then show "json_exp_part (ep @ r) = ep" "no_digit_next (ep @ r)" "ep @ r = [] \<or> hd (ep @ r) \<noteq> CHR ''.''"
      by simp_all
  qed
  have f: "json_frac_part (fp @ ep @ r) = fp" and nf: "no_digit_next (fp @ ep @ r)"
  proof -
    consider "fp = []" | fs where "fp = CHR ''.'' # fs" "fs \<noteq> []" "list_all is_digit fs"
      using assms(1) by (auto simp: number_shape_def)
    then have "json_frac_part (fp @ ep @ r) = fp \<and> no_digit_next (fp @ ep @ r)"
    proof cases
      case 1
      then show ?thesis using json_frac_part_none [OF ee] ne by simp
    next
      case 2
      then show ?thesis using json_frac_part_digits [OF 2(2,3) ne] by (simp add: no_digit_next_def is_digit_def)
    qed
    then show "json_frac_part (fp @ ep @ r) = fp" "no_digit_next (fp @ ep @ r)" by simp_all
  qed
  show ?thesis using json_int_part_digits [OF ip nf] e f by simp
qed

lemma json_sign_digit: "s = [] \<or> is_digit (hd s) \<Longrightarrow> json_sign s = ([], s)"
  by (auto simp: json_sign_def is_digit_def split: list.splits)

lemma json_sign_minus: "json_sign (CHR ''-'' # s) = (''-'', s)"
  by (simp add: json_sign_def)

lemma json_number_int_repr:
  assumes "json_delim r"
  shows "json_number (int_repr n @ r) = Some (PInt n, r)"
proof -
  define ds where "ds = int_digits \<bar>n\<bar>"
  have "0 \<le> \<bar>n\<bar>" by simp
  note c = int_digits_correct [OF this, folded ds_def]
  have "int_digits 0 = ''0''" by (simp add: int_digits.simps [of 0] digit_char_def char_of_def)
  then have z: "hd ds = CHR ''0'' \<longrightarrow> ds = ''0''" using c by (simp add: ds_def)
  have sh: "number_shape ds [] []" using c z by (simp add: number_shape_def)
  note p = number_shape_scan [OF sh assms]
  have hd: "is_digit (hd (ds @ r))" using c by (cases ds) simp_all
  show ?thesis
  proof (cases "n < 0")
    case True
    then have "int_repr n @ r = CHR ''-'' # ds @ r" by (simp add: int_repr_def ds_def)
    then show ?thesis using json_number_parts [of "int_repr n @ r" "''-''" ds "[]" "[]" r] p c True
      json_sign_minus by simp
  next
    case False
    then have "int_repr n @ r = ds @ r" by (simp add: int_repr_def ds_def)
    then show ?thesis using json_number_parts [of "int_repr n @ r" "[]" ds "[]" "[]" r] p c False
      json_sign_digit [of "ds @ r"] hd by simp
  qed
qed

lemma float_repr_shape:
  assumes "wf_float (Fin s m e)"
  shows "\<exists>ip fp ep. float_repr (Fin s m e) = (if s then ''-'' else []) @ ip @ fp @ ep \<and>
           number_shape ip fp ep \<and> (fp \<noteq> [] \<or> ep \<noteq> [])"
proof (cases "m = 0")
  case True
  have "number_shape ''0'' ''.0'' []" by (simp add: number_shape_def is_digit_def)
  moreover have "float_repr (Fin s m e) = (if s then ''-'' else []) @ ''0'' @ ''.0'' @ []"
    using True by simp
  ultimately show ?thesis by blast
next
  case False
  then have m0: "0 < m" using assms by simp
  have wf: "wf_float (Fin False m e)" using assms by simp
  obtain c x where sd: "shortest_decimal m e = (c, x)" by (metis surj_pair)
  have "0 < c" using shortest_decimal_spec [OF wf m0 sd] by simp
  then obtain ip fp ep where "repr_digits (c, x) = ip @ fp @ ep" "number_shape ip fp ep" "fp \<noteq> [] \<or> ep \<noteq> []"
    using repr_digits_shape by blast
  moreover have "float_repr (Fin s m e) = (if s then ''-'' else []) @ repr_digits (c, x)"
    using False sd by simp
  ultimately show ?thesis by auto
qed

lemma json_number_float_repr:
  assumes "wf_float f" "is_finite f" "json_delim r"
  shows "json_number (float_repr f @ r) = Some (PFloat f, r)"
proof -
  obtain s m e where f: "f = Fin s m e" using assms(2) by (cases f) auto
  obtain ip fp ep where sh: "float_repr f = (if s then ''-'' else []) @ ip @ fp @ ep"
    "number_shape ip fp ep" "fp \<noteq> [] \<or> ep \<noteq> []"
    using float_repr_shape [of s m e] assms(1) f by blast
  note p = number_shape_scan [OF sh(2) assms(3)]
  have ip: "ip \<noteq> []" "is_digit (hd (ip @ fp @ ep @ r))" using sh(2) by (auto simp: number_shape_def neq_Nil_conv)
  have sg: "json_sign (float_repr f @ r) = ((if s then ''-'' else []), ip @ fp @ ep @ r)"
    using sh(1) json_sign_minus json_sign_digit [of "ip @ fp @ ep @ r"] ip by (cases s) simp_all
  have "parse_float_str ((if s then ''-'' else []) @ ip @ fp @ ep) = Some f"
    using parse_float_str_repr [OF assms(1,2)] sh(1) by simp
  then show ?thesis using json_number_parts [OF sg ip(1)] p sh(3) by simp
qed

section \<open>Values\<close>

text \<open>
  An encoded value followed by a delimiter scans back to the value, dictionaries in the order the encoder wrote them.
\<close>

lemma skip_ws_ws: "list_all json_ws w \<Longrightarrow> skip_ws (w @ y) = skip_ws y"
  by (induction w) (simp_all add: skip_ws_def)

lemma skip_ws_start: "\<not> json_ws c \<Longrightarrow> skip_ws (c # y) = c # y"
  by (simp add: skip_ws_def)

lemma join_sep_Cons:
  "join_sep sep (x # xs) = x @ (if xs = [] then [] else sep @ join_sep sep xs)"
  by (cases xs) simp_all

lemma dict_set_new: "k \<notin> set (map fst acc) \<Longrightarrow> dict_set acc k v = acc @ [(k, v)]"
  by (induction acc) auto

lemma json_scan_array:
  assumes "xs \<noteq> []"
    and val: "\<forall>x\<in>set xs. \<forall>r. json_delim r \<longrightarrow> json_scan ScanValue (enc x @ r) = Some (Inr (nv x, r))"
    and st: "\<forall>x\<in>set xs. enc x \<noteq> [] \<and> \<not> json_ws (hd (enc x))"
    and sep: "isep = CHR '','' # w" "list_all json_ws w"
  shows "json_scan (ScanArray acc) (join_sep isep (map enc xs) @ CHR '']'' # r) =
           Some (Inr (PList (rev acc @ map nv xs), r))"
  using assms(1) val st
proof (induction xs arbitrary: acc)
  case Nil
  then show ?case by simp
next
  case (Cons x xs)
  have vx: "json_scan ScanValue (enc x @ r') = Some (Inr (nv x, r'))" if "json_delim r'" for r'
    using Cons.prems(2) that by simp
  show ?case
  proof (cases "xs = []")
    case True
    have "json_delim (CHR '']'' # r)" by (simp add: json_delim_def)
    then show ?thesis using vx True
      by (simp add: json_scan.simps [of "ScanArray acc"] skip_ws_start json_ws_def)
  next
    case False
    obtain y ys where y: "xs = y # ys" using False by (cases xs) auto
    have sy: "enc y \<noteq> [] \<and> \<not> json_ws (hd (enc y))" using Cons.prems(3) y by simp
    have d: "json_delim (isep @ join_sep isep (map enc xs) @ CHR '']'' # r)"
      using sep by (simp add: json_delim_def)
    have w: "skip_ws (w @ join_sep isep (map enc xs) @ CHR '']'' # r) = join_sep isep (map enc xs) @ CHR '']'' # r"
      using sep(2) sy y by (cases "enc y") (simp_all add: skip_ws_ws join_sep_Cons skip_ws_start)
    have ih: "json_scan (ScanArray (nv x # acc)) (join_sep isep (map enc xs) @ CHR '']'' # r) =
        Some (Inr (PList (rev (nv x # acc) @ map nv xs), r))"
      using Cons.IH [OF False] Cons.prems(2,3) by simp
    show ?thesis using vx [OF d] w ih False sep
      by (simp add: json_scan.simps [of "ScanArray acc"] join_sep_Cons skip_ws_start json_ws_def)
  qed
qed

lemma json_scan_object:
  assumes "kvs \<noteq> []" "distinct (map fst kvs)" "set (map fst acc) \<inter> set (map fst kvs) = {}"
    and val: "\<forall>kv\<in>set kvs. \<forall>r. json_delim r \<longrightarrow>
                json_scan ScanValue (enc (snd kv) @ r) = Some (Inr (nv (snd kv), r))"
    and st: "\<forall>kv\<in>set kvs. enc (snd kv) \<noteq> [] \<and> \<not> json_ws (hd (enc (snd kv)))"
    and sep: "isep = CHR '','' # w" "list_all json_ws w" "ksep = CHR '':'' # w'" "list_all json_ws w'"
  shows "json_scan (ScanObject acc)
           (join_sep isep (map (\<lambda>kv. json_str (fst kv) @ ksep @ enc (snd kv)) kvs) @ CHR ''}'' # r) =
         Some (Inr (PDict (acc @ map (\<lambda>kv. (fst kv, nv (snd kv))) kvs), r))"
  using assms(1-3) val st
proof (induction kvs arbitrary: acc)
  case Nil
  then show ?case by simp
next
  case (Cons kv kvs)
  obtain k v where kv: "kv = (k, v)" by (cases kv)
  let ?m = "\<lambda>kv. json_str (fst kv) @ ksep @ enc (snd kv)"
  define rest where "rest = (if kvs = [] then [] else isep @ join_sep isep (map ?m kvs)) @ CHR ''}'' # r"
  have d: "json_delim rest" using sep by (simp add: rest_def json_delim_def)
  have vx: "json_scan ScanValue (enc v @ rest) = Some (Inr (nv v, rest))"
    using Cons.prems(4) d kv by simp
  have sv: "enc v \<noteq> [] \<and> \<not> json_ws (hd (enc v))" using Cons.prems(5) kv by simp
  have ev: "skip_ws (w' @ enc v @ rest) = enc v @ rest"
    using sep(4) sv by (cases "enc v") (simp_all add: skip_ws_ws skip_ws_start)
  have kn: "k \<notin> set (map fst acc)" using Cons.prems(3) kv by auto
  have tx: "join_sep isep (map ?m (kv # kvs)) @ CHR ''}'' # r =
      CHR 0x22 # concat (map json_escape k) @ CHR 0x22 # (CHR '':'' # w' @ enc v @ rest)"
    by (simp add: join_sep_Cons kv json_str_def rest_def sep(3))
  have scan: "json_scanstring [] (concat (map json_escape k) @ CHR 0x22 # (CHR '':'' # w' @ enc v @ rest)) =
      Inr (k, CHR '':'' # w' @ enc v @ rest)"
    using json_scanstring_str [of "[]" k] by simp
  define s0 where "s0 = CHR 0x22 # concat (map json_escape k) @ CHR 0x22 # (CHR '':'' # w' @ enc v @ rest)"
  have step: "json_scan (ScanObject acc) s0 =
      (case skip_ws rest of
         d' # r3 \<Rightarrow> if d' = CHR ''}'' then Some (Inr (PDict (acc @ [(k, nv v)]), r3))
                   else if d' = CHR '','' then json_scan (ScanObject (acc @ [(k, nv v)])) (skip_ws r3)
                   else Some (Inl JSONDecodeError)
       | [] \<Rightarrow> Some (Inl JSONDecodeError))"
    unfolding json_scan.simps [of "ScanObject acc" s0] dict_set_new [OF kn, symmetric]
    using scan ev vx by (simp add: s0_def skip_ws_start json_ws_def)
  have tx': "join_sep isep (map ?m (kv # kvs)) @ CHR ''}'' # r = s0" using tx by (simp add: s0_def)
  show ?case
  proof (cases "kvs = []")
    case True
    have "skip_ws rest = CHR ''}'' # r" using True by (simp add: rest_def skip_ws_start json_ws_def)
    then show ?thesis using step tx' True kv by simp
  next
    case False
    have r2: "skip_ws (w @ join_sep isep (map ?m kvs) @ CHR ''}'' # r) = join_sep isep (map ?m kvs) @ CHR ''}'' # r"
    proof -
      obtain kv' kvs' where "kvs = kv' # kvs'" using False by (cases kvs) auto
      then show ?thesis using sep(2) by (simp add: skip_ws_ws join_sep_Cons json_str_def skip_ws_start json_ws_def)
    qed
    have dis: "set (map fst (acc @ [(k, nv v)])) \<inter> set (map fst kvs) = {}"
      using Cons.prems(2,3) kv by auto
    have ih: "json_scan (ScanObject (acc @ [(k, nv v)])) (join_sep isep (map ?m kvs) @ CHR ''}'' # r) =
        Some (Inr (PDict ((acc @ [(k, nv v)]) @ map (\<lambda>kv. (fst kv, nv (snd kv))) kvs), r))"
      using Cons.IH [OF False _ dis] Cons.prems(2,4,5) by simp
    have "skip_ws rest = CHR '','' # w @ join_sep isep (map ?m kvs) @ CHR ''}'' # r"
      using False sep by (simp add: rest_def skip_ws_start json_ws_def)
    then show ?thesis using step tx' r2 ih kv by simp
  qed
qed

lemma json_scan_scalar:
  "c \<noteq> CHR 0x22 \<Longrightarrow> c \<noteq> CHR ''['' \<Longrightarrow> c \<noteq> CHR ''{'' \<Longrightarrow>
   json_scan ScanValue (c # cs) =
     Some (case json_literal (c # cs) of Some vr \<Rightarrow> Inr vr
           | None \<Rightarrow> (case json_number (c # cs) of Some vr \<Rightarrow> Inr vr | None \<Rightarrow> Inl JSONDecodeError))"
  by (simp add: json_scan.simps [of ScanValue "c # cs"])

lemma json_literal_number_start:
  "is_digit c \<or> (c = CHR ''-'' \<and> cs \<noteq> [] \<and> is_digit (hd cs)) \<Longrightarrow> json_literal (c # cs) = None"
proof -
  assume a: "is_digit c \<or> (c = CHR ''-'' \<and> cs \<noteq> [] \<and> is_digit (hd cs))"
  have c: "c \<noteq> CHR ''n'' \<and> c \<noteq> CHR ''t'' \<and> c \<noteq> CHR ''f'' \<and> c \<noteq> CHR ''N'' \<and> c \<noteq> CHR ''I''"
    using a by (auto simp: is_digit_def)
  show ?thesis
  proof (cases cs)
    case Nil
    then show ?thesis using c by (simp add: json_literal_def)
  next
    case (Cons d ds)
    have "c = CHR ''-'' \<longrightarrow> d \<noteq> CHR ''I''" using a Cons by (auto simp: is_digit_def)
    then show ?thesis using c Cons by (auto simp: json_literal_def)
  qed
qed

lemma json_start_skip: "json_start s \<Longrightarrow> skip_ws (s @ r) = s @ r"
  by (cases s) (simp_all add: json_start_def skip_ws_start)

lemma int_repr_start:
  "\<exists>c cs. int_repr n = c # cs \<and> (is_digit c \<or> (c = CHR ''-'' \<and> cs \<noteq> [] \<and> is_digit (hd cs)))"
proof -
  have "0 \<le> \<bar>n\<bar>" by simp
  note c = int_digits_correct [OF this]
  have "int_digits \<bar>n\<bar> \<noteq> [] \<and> is_digit (hd (int_digits \<bar>n\<bar>))" using c by (cases "int_digits \<bar>n\<bar>") simp_all
  then show ?thesis by (cases "n < 0") (auto simp: int_repr_def neq_Nil_conv)
qed

lemma float_repr_start:
  assumes "wf_float (Fin s m e)"
  shows "\<exists>c cs. float_repr (Fin s m e) = c # cs \<and> (is_digit c \<or> (c = CHR ''-'' \<and> cs \<noteq> [] \<and> is_digit (hd cs)))"
proof -
  obtain ip fp ep where sh: "float_repr (Fin s m e) = (if s then ''-'' else []) @ ip @ fp @ ep"
    "number_shape ip fp ep" using float_repr_shape [OF assms] by blast
  have "ip \<noteq> [] \<and> is_digit (hd ip)" using sh(2) by (cases ip) (simp_all add: number_shape_def)
  then show ?thesis using sh(1) by (cases s) (auto simp: neq_Nil_conv)
qed

lemma number_start_json_start:
  "is_digit c \<or> (c = CHR ''-'' \<and> cs \<noteq> []  \<and> is_digit (hd cs)) \<Longrightarrow> json_start (c # cs)"
  by (auto simp: json_start_def json_ws_def is_digit_def)

lemma json_encode_start: "json_canonical v \<Longrightarrow> json_start (json_encode sk isep ksep v)"
proof (cases v)
  case (PInt n)
  obtain c cs where "int_repr n = c # cs" "is_digit c \<or> (c = CHR ''-'' \<and> cs \<noteq> [] \<and> is_digit (hd cs))"
    using int_repr_start [of n] by blast
  then show ?thesis using PInt number_start_json_start by simp
next
  case (PFloat f)
  assume "json_canonical v"
  then have wf: "wf_float f" using PFloat by simp
  show ?thesis
  proof (cases f)
    case (Fin s m e)
    obtain c cs where "float_repr (Fin s m e) = c # cs"
      "is_digit c \<or> (c = CHR ''-'' \<and> cs \<noteq> [] \<and> is_digit (hd cs))"
      using float_repr_start [of s m e] wf Fin by blast
    then show ?thesis using PFloat Fin number_start_json_start by simp
  qed (simp_all add: PFloat json_start_def json_ws_def)
next
  case (PStr s)
  then show ?thesis by (simp add: json_start_def json_ws_def json_str_def)
next
  case (PList xs)
  then show ?thesis by (simp add: json_start_def json_ws_def)
next
  case (PDict kvs)
  then show ?thesis by (simp add: json_start_def json_ws_def)
qed (simp_all add: json_start_def json_ws_def)

lemma json_scan_encode_list:
  assumes IH: "\<forall>x\<in>set xs. \<forall>r. json_delim r \<longrightarrow>
                 json_scan ScanValue (json_encode sk isep ksep x @ r) = Some (Inr (json_norm sk x, r))"
    and can: "\<forall>x\<in>set xs. json_canonical x" and sep: "isep = CHR '','' # w" "list_all json_ws w"
  shows "json_scan ScanValue (json_encode sk isep ksep (PList xs) @ r) = Some (Inr (json_norm sk (PList xs), r))"
proof (cases "xs = []")
  case True
  then show ?thesis by (simp add: json_scan.simps [of ScanValue] skip_ws_start json_ws_def)
next
  case False
  have val: "\<forall>x\<in>set xs. \<forall>r. json_delim r \<longrightarrow>
      json_scan ScanValue (json_encode sk isep ksep x @ r) = Some (Inr (json_norm sk x, r))"
    using IH by simp
  have st: "\<forall>x\<in>set xs. json_start (json_encode sk isep ksep x)"
    using can json_encode_start by simp
  then have st': "\<forall>x\<in>set xs. json_encode sk isep ksep x \<noteq> [] \<and> \<not> json_ws (hd (json_encode sk isep ksep x))"
    by (simp add: json_start_def)
  obtain x xs' where x: "xs = x # xs'" using False by (cases xs) auto
  have "json_start (join_sep isep (map (json_encode sk isep ksep) xs))"
    using st x by (cases "json_encode sk isep ksep x") (simp_all add: join_sep_Cons json_start_def)
  then have sk: "skip_ws (join_sep isep (map (json_encode sk isep ksep) xs) @ CHR '']'' # r) =
      join_sep isep (map (json_encode sk isep ksep) xs) @ CHR '']'' # r"
    and nb: "hd (join_sep isep (map (json_encode sk isep ksep) xs) @ CHR '']'' # r) \<noteq> CHR '']''"
    by (simp_all add: json_start_skip) (simp add: json_start_def)
  have arr: "json_scan (ScanArray []) (join_sep isep (map (json_encode sk isep ksep) xs) @ CHR '']'' # r) =
      Some (Inr (PList (map (json_norm sk) xs), r))"
    using json_scan_array [OF False val st' sep, of "[]" r] by simp
  obtain d rest where J: "join_sep isep (map (json_encode sk isep ksep) xs) @ CHR '']'' # r = d # rest"
    by (cases "join_sep isep (map (json_encode sk isep ksep) xs)") auto
  show ?thesis using sk nb arr J by (simp add: json_scan.simps [of ScanValue])
qed

lemma json_scan_encode_dict:
  assumes IH: "\<forall>kv\<in>set (if sk then sort_key fst kvs else kvs). \<forall>r. json_delim r \<longrightarrow>
      json_scan ScanValue (json_encode sk isep ksep (snd kv) @ r) = Some (Inr (json_norm sk (snd kv), r))"
    and can: "json_canonical (PDict kvs)"
    and sep: "isep = CHR '','' # w" "list_all json_ws w" "ksep = CHR '':'' # w'" "list_all json_ws w'"
  shows "json_scan ScanValue (json_encode sk isep ksep (PDict kvs) @ r) = Some (Inr (json_norm sk (PDict kvs), r))"
proof -
  define kvs' where "kvs' = (if sk then sort_key fst kvs else kvs)"
  have set': "set kvs' = set kvs" by (simp add: kvs'_def)
  have dis: "distinct (map fst kvs')" using can by (auto simp: kvs'_def distinct_map)
  show ?thesis
  proof (cases "kvs' = []")
    case True
    then show ?thesis by (simp add: kvs'_def [symmetric] json_scan.simps [of ScanValue] skip_ws_start json_ws_def)
  next
    case False
    let ?m = "\<lambda>kv. json_str (fst kv) @ ksep @ json_encode sk isep ksep (snd kv)"
    have val: "\<forall>kv\<in>set kvs'. \<forall>r. json_delim r \<longrightarrow>
        json_scan ScanValue (json_encode sk isep ksep (snd kv) @ r) = Some (Inr (json_norm sk (snd kv), r))"
      using IH by (simp add: kvs'_def)
    have st: "\<forall>kv\<in>set kvs'. json_encode sk isep ksep (snd kv) \<noteq> [] \<and> \<not> json_ws (hd (json_encode sk isep ksep (snd kv)))"
      using can json_encode_start set' by (simp add: json_start_def)
    obtain kv kvs'' where x: "kvs' = kv # kvs''" using False by (cases kvs') auto
    have ne: "join_sep isep (map ?m kvs') @ CHR ''}'' # r = CHR 0x22 # tl (join_sep isep (map ?m kvs') @ CHR ''}'' # r)"
      using x by (simp add: join_sep_Cons json_str_def)
    have obj: "json_scan (ScanObject []) (join_sep isep (map ?m kvs') @ CHR ''}'' # r) =
        Some (Inr (PDict (map (\<lambda>kv. (fst kv, json_norm sk (snd kv))) kvs'), r))"
      using json_scan_object [OF False dis _ val st sep, of "[]" r] by simp
    have "json_encode sk isep ksep (PDict kvs) @ r = CHR ''{'' # join_sep isep (map ?m kvs') @ CHR ''}'' # r"
      by (simp add: kvs'_def)
    moreover have "json_norm sk (PDict kvs) = PDict (map (\<lambda>kv. (fst kv, json_norm sk (snd kv))) kvs')"
      by (simp add: kvs'_def)
    moreover obtain T where J: "join_sep isep (map ?m kvs') @ CHR ''}'' # r = CHR 0x22 # T" using ne by blast
    ultimately show ?thesis using obj
      by (simp add: json_scan.simps [of ScanValue "CHR ''{'' # _"] skip_ws_start json_ws_def)
  qed
qed

lemma json_scan_encode:
  assumes "json_canonical v" "json_delim r"
    and sep: "isep = CHR '','' # w" "list_all json_ws w" "ksep = CHR '':'' # w'" "list_all json_ws w'"
  shows "json_scan ScanValue (json_encode sk isep ksep v @ r) = Some (Inr (json_norm sk v, r))"
  using assms
proof (induction sk isep ksep v arbitrary: r rule: json_encode.induct)
  case (1 sk isep ksep)
  then show ?case by (simp add: json_scan_scalar json_literal_def)
next
  case (2 sk isep ksep b)
  then show ?case by (cases b) (simp_all add: json_scan_scalar json_literal_def)
next
  case (3 sk isep ksep n)
  obtain c cs where c: "int_repr n @ r = c # cs" "is_digit c \<or> (c = CHR ''-'' \<and> cs \<noteq> [] \<and> is_digit (hd cs))"
    using int_repr_start [of n] by fastforce
  have "c \<noteq> CHR 0x22 \<and> c \<noteq> CHR ''['' \<and> c \<noteq> CHR ''{''" using c(2) by (auto simp: is_digit_def)
  then show ?case using json_scan_scalar [of c cs] json_literal_number_start [OF c(2)]
      json_number_int_repr [OF "3.prems"(2), of n] c(1) by simp
next
  case (4 sk isep ksep f)
  show ?case
  proof (cases f)
    case (Fin s m e)
    have wf: "wf_float f" using "4.prems"(1) by simp
    obtain c cs where c: "float_repr f @ r = c # cs" "is_digit c \<or> (c = CHR ''-'' \<and> cs \<noteq> [] \<and> is_digit (hd cs))"
      using float_repr_start [of s m e] wf Fin by fastforce
    have "c \<noteq> CHR 0x22 \<and> c \<noteq> CHR ''['' \<and> c \<noteq> CHR ''{''" using c(2) by (auto simp: is_digit_def)
    then show ?thesis using json_scan_scalar [of c cs] json_literal_number_start [OF c(2)]
        json_number_float_repr [OF wf _ "4.prems"(2)] c(1) Fin by simp
  qed (simp_all add: json_scan_scalar json_literal_def)
next
  case (5 sk isep ksep s)
  then show ?case using json_scanstring_str [of "[]" s r]
    by (simp add: json_str_def json_scan.simps [of ScanValue])
next
  case (6 sk isep ksep xs)
  have "\<forall>x\<in>set xs. \<forall>r. json_delim r \<longrightarrow>
      json_scan ScanValue (json_encode sk isep ksep x @ r) = Some (Inr (json_norm sk x, r))"
    using "6.IH" "6.prems" by simp
  then show ?case using json_scan_encode_list "6.prems" by simp
next
  case (7 sk isep ksep kvs)
  have "\<forall>kv\<in>set (if sk then sort_key fst kvs else kvs). \<forall>r. json_delim r \<longrightarrow>
      json_scan ScanValue (json_encode sk isep ksep (snd kv) @ r) = Some (Inr (json_norm sk (snd kv), r))"
    using "7.IH" "7.prems" by (auto split: if_splits)
  from json_scan_encode_dict [OF this "7.prems"(1) "7.prems"(3-6)] show ?case .
qed

section \<open>json.loads of json.dumps\<close>

text \<open>
  The text \<open>json.dumps\<close> writes, followed by any whitespace, decodes to the value it was
  written from; with \<open>sort_keys\<close> the dictionaries come back sorted.
\<close>

lemma json_norm_unsorted: "json_norm False v = v"
proof (induction v)
  case (PList xs)
  then show ?case by (simp add: map_idI)
next
  case (PDict kvs)
  have "map (\<lambda>kv. (fst kv, json_norm False (snd kv))) kvs = kvs"
  proof (rule map_idI)
    fix kv assume kv: "kv \<in> set kvs"
    obtain a b where ab: "kv = (a, b)" by (cases kv)
    have "json_norm False b = b" using PDict.IH [of kv b] kv ab by simp
    then show "(fst kv, json_norm False (snd kv)) = kv" using ab by simp
  qed
  then show ?case by simp
qed simp_all

lemma json_delim_ws: "list_all json_ws r \<Longrightarrow> json_delim r"
  by (cases r) (simp_all add: json_delim_def)

lemma json_loads_encode:
  assumes "json_canonical v" "list_all json_ws r"
    and "isep = CHR '','' # w" "list_all json_ws w" "ksep = CHR '':'' # w'" "list_all json_ws w'"
  shows "json_loads (json_encode sk isep ksep v @ r) = Some (Inr (json_norm sk v))"
proof -
  have "skip_ws (json_encode sk isep ksep v @ r) = json_encode sk isep ksep v @ r"
    using json_encode_start [OF assms(1)] by (rule json_start_skip)
  moreover have "skip_ws r = []" using skip_ws_ws [OF assms(2), of "[]"] by (simp add: skip_ws_def)
  ultimately show ?thesis
    using json_scan_encode [OF assms(1) json_delim_ws [OF assms(2)] assms(3-6), of sk]
    by (simp add: json_loads_def)
qed

lemma json_loads_py_json_dumps: "json_canonical v \<Longrightarrow> json_loads (py_json_dumps v) = Some (Inr v)"
  using json_loads_encode [of v "[]" "'', ''" "'' ''" "'': ''" "'' ''" False]
  by (simp add: py_json_dumps_def json_ws_def json_norm_unsorted)

lemma json_loads_json_dumps:
  "json_canonical v \<Longrightarrow> json_loads (json_dumps v @ [CHR 0x0A]) = Some (Inr (json_norm True v))"
  using json_loads_encode [of v "[CHR 0x0A]" "'',''" "[]" "'':''" "[]" True]
  by (simp add: json_dumps_def json_ws_def)

end
