(* ===== verification/Flask.thy ===== *)
theory Flask
  imports JsonLoads
begin

text \<open>
  The part of Flask both applications rely on, reduced to what decides the status code
  and the body of a response:
  \<^item> \<open>request\<close>: method, path, whether the body is declared as JSON, and the body as
    \<open>json.loads\<close> decoded it (\<open>None\<close> for a body that is not valid JSON);
  \<^item> \<open>get_json\<close>: \<open>request.get_json()\<close> (Flask 2.3 and later): HTTP 415 when the
    content type is not JSON, HTTP 400 when the body does not parse;
  \<^item> \<open>json_response\<close>: \<open>jsonify(v)\<close> with the status of the returned tuple;
  \<^item> \<open>view_result\<close>: what a view function returns or raises; \<open>finish\<close> turns a
    raised \<open>HTTPException\<close> into its status code and any other exception into
    HTTP 500, as Flask's \<open>handle_user_exception\<close> does outside testing mode;
  \<^item> \<open>dispatch\<close>: URL routing over the \<open>@app.route\<close> table: 404 for an unknown
    path, 405 for a method the route does not allow, the automatic \<open>OPTIONS\<close>
    answer, and \<open>HEAD\<close> served by the \<open>GET\<close> view without a body.
\<close>

datatype http_method = GET | HEAD | POST | PUT | DELETE | PATCH | OPTIONS

record request =
  req_method :: http_method
  req_path :: string
  req_is_json :: bool
  req_body :: "pyval option"

datatype resp_body = JsonBody pyval | TextBody string | ErrorPage | EmptyBody

record response =
  status :: int
  body :: resp_body

datatype exc = PyErr pyexc | HttpErr int

type_synonym view_result = "exc + response"

type_synonym view = "request \<Rightarrow> view_result"

definition get_json :: "request \<Rightarrow> exc + pyval" where
  "get_json r =
     (if \<not> req_is_json r then Inl (HttpErr 415)
      else case req_body r of None \<Rightarrow> Inl (HttpErr 400) | Some v \<Rightarrow> Inr v)"

definition py :: "pyexc + 'a \<Rightarrow> exc + 'a" where
  "py r = map_sum PyErr id r"

definition json_response :: "pyval \<Rightarrow> int \<Rightarrow> response" where
  "json_response v code = \<lparr>status = code, body = JsonBody v\<rparr>"

definition error_json :: "string \<Rightarrow> int \<Rightarrow> response" where
  "error_json msg code = json_response (PDict [(''error'', PStr msg)]) code"

text \<open>
  The bytes of a response body: \<open>jsonify\<close> writes \<open>json.dumps\<close> of its value and
  a newline; a view's string is sent as it is; Flask's HTML error pages are not modelled
  (\<open>None\<close>).
\<close>

fun response_data :: "response \<Rightarrow> string option" where
  "response_data r = (case body r of
     JsonBody v \<Rightarrow> Some (json_dumps v @ [CHR 0x0A])
   | TextBody s \<Rightarrow> Some s
   | EmptyBody \<Rightarrow> Some []
   | ErrorPage \<Rightarrow> None)"

fun finish :: "view_result \<Rightarrow> response" where
  "finish (Inr r) = r"
| "finish (Inl (HttpErr code)) = \<lparr>status = code, body = ErrorPage\<rparr>"
| "finish (Inl (PyErr e)) = \<lparr>status = 500, body = ErrorPage\<rparr>"

type_synonym route = "string \<times> http_method list \<times> view"

definition route_allows :: "http_method list \<Rightarrow> http_method \<Rightarrow> bool" where
  "route_allows ms m = (m \<in> set ms \<or> (m = HEAD \<and> GET \<in> set ms))"

definition dispatch :: "route list \<Rightarrow> request \<Rightarrow> response" where
  "dispatch routes r =
     (case filter (\<lambda>(p, ms, v). p = req_path r) routes of
        [] \<Rightarrow> \<lparr>status = 404, body = ErrorPage\<rparr>
      | (p, ms, v) # _ \<Rightarrow>
          if route_allows ms (req_method r) then
            (let resp = finish (v r)
             in if req_method r = HEAD then resp\<lparr>body := EmptyBody\<rparr> else resp)
          else if req_method r = OPTIONS then \<lparr>status = 200, body = EmptyBody\<rparr>
          else \<lparr>status = 405, body = ErrorPage\<rparr>)"

text \<open>
  The test client of \<open>src/api/test_app.py\<close>: \<open>client.post(path,
  data=json.dumps(d), content_type='application/json')\<close> sends a JSON body that decodes
  back to \<open>d\<close>, and \<open>client.get(path)\<close> sends no body.
\<close>

definition client_post_json :: "string \<Rightarrow> pyval \<Rightarrow> request" where
  "client_post_json p d = \<lparr>req_method = POST, req_path = p, req_is_json = True, req_body = Some d\<rparr>"

text \<open>
  A request whose body is the text \<open>data\<close>: \<open>request.get_json()\<close> decodes it with
  \<open>json.loads\<close>, a text that does not decode being the 400 case. The request is outside
  the model (\<open>None\<close>) when the text holds a code point above U+00FF. The test
  client's \<open>client.post(path, data=d, content_type='application/json')\<close> is
  \<open>client_post_data path d\<close>.
\<close>

definition request_of_data :: "http_method \<Rightarrow> string \<Rightarrow> bool \<Rightarrow> string \<Rightarrow> request option" where
  "request_of_data m p is_json data =
     (case json_loads data of
        Some (Inr v) \<Rightarrow> Some \<lparr>req_method = m, req_path = p, req_is_json = is_json, req_body = Some v\<rparr>
      | Some (Inl JSONDecodeError) \<Rightarrow>
          Some \<lparr>req_method = m, req_path = p, req_is_json = is_json, req_body = None\<rparr>
      | _ \<Rightarrow> None)"

definition client_post_data :: "string \<Rightarrow> string \<Rightarrow> request option" where
  "client_post_data p data = request_of_data POST p True data"

definition client_get :: "string \<Rightarrow> request" where
  "client_get p = \<lparr>req_method = GET, req_path = p, req_is_json = False, req_body = None\<rparr>"

declare get_json_def [eval_simps] py_def [eval_simps] json_response_def [eval_simps]
  error_json_def [eval_simps] route_allows_def [eval_simps] dispatch_def [eval_simps]
  client_post_json_def [eval_simps] client_get_def [eval_simps] request_of_data_def [eval_simps]
  client_post_data_def [eval_simps]

lemma py_Inr [simp]: "py (Inr v) = Inr v"
  by (simp add: py_def)

lemma py_Inl [simp]: "py (Inl e) = Inl (PyErr e)"
  by (simp add: py_def)

lemma py_eq_Inl_iff: "py r = Inl e \<longleftrightarrow> (\<exists>e'. r = Inl e' \<and> e = PyErr e')"
  by (cases r) auto

lemma get_json_client_post [simp]: "get_json (client_post_json p d) = Inr d"
  by (simp add: get_json_def client_post_json_def)

lemma get_json_Inr_iff:
  "get_json r = Inr v \<longleftrightarrow> req_is_json r \<and> req_body r = Some v"
  by (auto simp: get_json_def split: option.splits)

lemma finish_status_500_iff:
  "status (finish res) = 500 \<longleftrightarrow>
     (\<exists>e. res = Inl (PyErr e)) \<or> res = Inl (HttpErr 500) \<or> (\<exists>r. res = Inr r \<and> status r = 500)"
  by (cases res rule: finish.cases) auto

end
