(* ===== verification/StrictApp.thy ===== *)
theory StrictApp
  imports Flask
begin

text \<open>
  \<open>src/api/main.py\<close>: four POST views, each a copy of the same body over one operator.
  The JSON body is read with \<open>request.get_json()\<close>, the operands with
  \<open>data.get('num1')\<close> and \<open>data.get('num2')\<close> (an \<open>AttributeError\<close>, hence HTTP
  500, when the body is not a JSON object), both must pass
  \<open>isinstance(x, (int, float))\<close> (so \<open>bool\<close> operands pass), and the result of the
  Python operator is returned with its own type (an \<open>int\<close> for two integers).
  \<open>main_divide\<close> answers 400 for a divisor equal to zero before dividing.
  \<open>main_routes\<close> is the \<open>@app.route\<close> table and \<open>main_app\<close> the application.
\<close>

definition invalid_numbers_msg :: string where
  "invalid_numbers_msg = ''Invalid input, please provide numbers.''"

definition main_add :: view where
  "main_add req =
     sbind (get_json req) (\<lambda>data.
     sbind (py (py_dict_get data ''num1'')) (\<lambda>num1.
     sbind (py (py_dict_get data ''num2'')) (\<lambda>num2.
     if \<not> py_isinstance_num num1 \<or> \<not> py_isinstance_num num2
     then Inr (error_json invalid_numbers_msg 400)
     else sbind (py (py_add num1 num2)) (\<lambda>result.
          Inr (json_response (PDict [(''result'', result)]) 200)))))"

definition main_subtract :: view where
  "main_subtract req =
     sbind (get_json req) (\<lambda>data.
     sbind (py (py_dict_get data ''num1'')) (\<lambda>num1.
     sbind (py (py_dict_get data ''num2'')) (\<lambda>num2.
     if \<not> py_isinstance_num num1 \<or> \<not> py_isinstance_num num2
     then Inr (error_json invalid_numbers_msg 400)
     else sbind (py (py_sub num1 num2)) (\<lambda>result.
          Inr (json_response (PDict [(''result'', result)]) 200)))))"

definition main_multiply :: view where
  "main_multiply req =
     sbind (get_json req) (\<lambda>data.
     sbind (py (py_dict_get data ''num1'')) (\<lambda>num1.
     sbind (py (py_dict_get data ''num2'')) (\<lambda>num2.
     if \<not> py_isinstance_num num1 \<or> \<not> py_isinstance_num num2
     then Inr (error_json invalid_numbers_msg 400)
     else sbind (py (py_mul num1 num2)) (\<lambda>result.
          Inr (json_response (PDict [(''result'', result)]) 200)))))"

definition main_divide :: view where
  "main_divide req =
     sbind (get_json req) (\<lambda>data.
     sbind (py (py_dict_get data ''num1'')) (\<lambda>num1.
     sbind (py (py_dict_get data ''num2'')) (\<lambda>num2.
     if \<not> py_isinstance_num num1 \<or> \<not> py_isinstance_num num2
     then Inr (error_json invalid_numbers_msg 400)
     else if py_eq_zero num2
     then Inr (error_json ''Cannot divide by zero u dummy.'' 400)
     else sbind (py (py_truediv num1 num2)) (\<lambda>result.
          Inr (json_response (PDict [(''result'', result)]) 200)))))"

definition main_routes :: "route list" where
  "main_routes =
     [(''/add'', [POST], main_add), (''/subtract'', [POST], main_subtract),
      (''/multiply'', [POST], main_multiply), (''/divide'', [POST], main_divide)]"

definition main_app :: "request \<Rightarrow> response" where
  "main_app r = dispatch main_routes r"

declare invalid_numbers_msg_def [eval_simps] main_add_def [eval_simps]
  main_subtract_def [eval_simps] main_multiply_def [eval_simps] main_divide_def [eval_simps]
  main_routes_def [eval_simps] main_app_def [eval_simps]

lemma dict_get_operand:
  "map_of kvs k = Some v \<Longrightarrow> py_dict_get (PDict kvs) k = Inr v"
  by simp

text \<open>
  Each view on a JSON object whose two operands pass the \<open>isinstance\<close> guard returns
  the result of its operator, or raises what the operator raises.
\<close>

lemma main_add_numeric:
  assumes "get_json req = Inr (PDict kvs)"
    and "map_of kvs ''num1'' = Some a" "map_of kvs ''num2'' = Some b"
    and "py_isinstance_num a" "py_isinstance_num b"
  shows "main_add req = sbind (py (py_add a b)) (\<lambda>r. Inr (json_response (PDict [(''result'', r)]) 200))"
  using assms by (simp add: main_add_def)

lemma main_subtract_numeric:
  assumes "get_json req = Inr (PDict kvs)"
    and "map_of kvs ''num1'' = Some a" "map_of kvs ''num2'' = Some b"
    and "py_isinstance_num a" "py_isinstance_num b"
  shows "main_subtract req = sbind (py (py_sub a b)) (\<lambda>r. Inr (json_response (PDict [(''result'', r)]) 200))"
  using assms by (simp add: main_subtract_def)

lemma main_multiply_numeric:
  assumes "get_json req = Inr (PDict kvs)"
    and "map_of kvs ''num1'' = Some a" "map_of kvs ''num2'' = Some b"
    and "py_isinstance_num a" "py_isinstance_num b"
  shows "main_multiply req = sbind (py (py_mul a b)) (\<lambda>r. Inr (json_response (PDict [(''result'', r)]) 200))"
  using assms by (simp add: main_multiply_def)

lemma main_divide_numeric:
  assumes "get_json req = Inr (PDict kvs)"
    and "map_of kvs ''num1'' = Some a" "map_of kvs ''num2'' = Some b"
    and "py_isinstance_num a" "py_isinstance_num b"
  shows "main_divide req =
    (if py_eq_zero b then Inr (error_json ''Cannot divide by zero u dummy.'' 400)
     else sbind (py (py_truediv a b)) (\<lambda>r. Inr (json_response (PDict [(''result'', r)]) 200)))"
  using assms by (simp add: main_divide_def)

text \<open>A body that is not a JSON object has no \<open>get\<close> method.\<close>

lemma main_views_not_object:
  assumes "get_json req = Inr v" "\<forall>kvs. v \<noteq> PDict kvs"
  shows "main_add req = Inl (PyErr AttributeError)" "main_subtract req = Inl (PyErr AttributeError)"
    "main_multiply req = Inl (PyErr AttributeError)" "main_divide req = Inl (PyErr AttributeError)"
  using assms by (cases v; simp add: main_add_def main_subtract_def main_multiply_def main_divide_def)+

end
