(* ===== verification/PermissiveApp.thy ===== *)
theory PermissiveApp
  imports Flask
begin

text \<open>
  \<open>src/api/app.py\<close>: the arithmetic is factored into \<open>calculate\<close>, the four POST
  views call \<open>process_arithmetic_request\<close> with the operation's name, and a GET view
  on \<open>/\<close> returns a welcome text. The request is rejected with 400 when the body is
  falsy or lacks a key (\<open>missing_operands\<close>; the \<open>in\<close> test raises \<open>TypeError\<close>,
  hence HTTP 500, on a truthy number or \<open>true\<close>); inside the \<open>try\<close> block
  (\<open>arith_try\<close>) both operands are converted by \<open>float()\<close>, and a
  \<open>ZeroDivisionError\<close> becomes a 400 with its message, any other exception a 400
  "Invalid input type".
\<close>

definition calculate :: "float64 \<Rightarrow> float64 \<Rightarrow> string \<Rightarrow> pyexc + pyval" where
  "calculate num1 num2 operation =
     (if operation = ''add'' then Inr (PFloat (float_add num1 num2))
      else if operation = ''subtract'' then Inr (PFloat (float_sub num1 num2))
      else if operation = ''multiply'' then Inr (PFloat (float_mul num1 num2))
      else if operation = ''divide'' then
        (if float_is_zero num2 then Inl (ZeroDivisionError ''Cannot divide by zero'')
         else case float_truediv num1 num2 of
                None \<Rightarrow> Inl (ZeroDivisionError ''float division by zero'')
              | Some r \<Rightarrow> Inr (PFloat r))
      else Inr PNone)"

definition welcome_msg :: string where
  "welcome_msg = ''Welcome to the Arithmetic API! Use /add, /subtract, /multiply, /divide endpoints.''"

definition home :: view where
  "home req = Inr \<lparr>status = 200, body = TextBody welcome_msg\<rparr>"

text \<open>\<open>not data or 'num1' not in data or 'num2' not in data\<close>, left to right.\<close>

definition missing_operands :: "pyval \<Rightarrow> pyexc + bool" where
  "missing_operands data =
     (if \<not> py_truthy data then Inr True
      else sbind (py_contains ''num1'' data) (\<lambda>has1.
           if \<not> has1 then Inr True
           else sbind (py_contains ''num2'' data) (\<lambda>has2. Inr (\<not> has2))))"

definition arith_try :: "pyval \<Rightarrow> string \<Rightarrow> pyexc + response" where
  "arith_try data operation =
     sbind (py_getitem data ''num1'') (\<lambda>v1. sbind (py_float v1) (\<lambda>num1.
     sbind (py_getitem data ''num2'') (\<lambda>v2. sbind (py_float v2) (\<lambda>num2.
     sbind (calculate num1 num2 operation) (\<lambda>result.
     Inr (json_response (PDict [(''operation'', PStr operation), (''result'', result)]) 200))))))"

definition process_arithmetic_request :: "string \<Rightarrow> view" where
  "process_arithmetic_request operation req =
     sbind (get_json req) (\<lambda>data.
     sbind (py (missing_operands data)) (\<lambda>missing.
     if missing then Inr (error_json ''Missing num1 or num2 in JSON payload'' 400)
     else case arith_try data operation of
            Inr resp \<Rightarrow> Inr resp
          | Inl (ZeroDivisionError msg) \<Rightarrow> Inr (error_json msg 400)
          | Inl e \<Rightarrow> Inr (error_json ''Invalid input type'' 400)))"

definition app_add :: view where
  "app_add = process_arithmetic_request ''add''"

definition app_subtract :: view where
  "app_subtract = process_arithmetic_request ''subtract''"

definition app_multiply :: view where
  "app_multiply = process_arithmetic_request ''multiply''"

definition app_divide :: view where
  "app_divide = process_arithmetic_request ''divide''"

definition app_routes :: "route list" where
  "app_routes =
     [(''/'', [GET], home), (''/add'', [POST], app_add), (''/subtract'', [POST], app_subtract),
      (''/multiply'', [POST], app_multiply), (''/divide'', [POST], app_divide)]"

definition app_app :: "request \<Rightarrow> response" where
  "app_app r = dispatch app_routes r"

declare calculate_def [eval_simps] welcome_msg_def [eval_simps] home_def [eval_simps]
  missing_operands_def [eval_simps] arith_try_def [eval_simps]
  process_arithmetic_request_def [eval_simps] app_add_def [eval_simps]
  app_subtract_def [eval_simps] app_multiply_def [eval_simps] app_divide_def [eval_simps]
  app_routes_def [eval_simps] app_app_def [eval_simps]

lemma missing_operands_present:
  assumes "map_of kvs ''num1'' = Some v1" "map_of kvs ''num2'' = Some v2"
  shows "missing_operands (PDict kvs) = Inr False"
proof -
  from assms have "(''num1'', v1) \<in> set kvs" "(''num2'', v2) \<in> set kvs"
    by (auto dest: map_of_SomeD)
  then have "kvs \<noteq> []" "''num1'' \<in> set (map fst kvs)" "''num2'' \<in> set (map fst kvs)"
    by force+
  then show ?thesis by (simp add: missing_operands_def)
qed

lemma arith_try_operands:
  assumes "map_of kvs ''num1'' = Some v1" "map_of kvs ''num2'' = Some v2"
    and "py_float v1 = Inr x" "py_float v2 = Inr y"
  shows "arith_try (PDict kvs) op =
    sbind (calculate x y op)
      (\<lambda>result. Inr (json_response (PDict [(''operation'', PStr op), (''result'', result)]) 200))"
  using assms by (simp add: arith_try_def)

text \<open>
  The handler on a JSON object holding two operands that \<open>float()\<close> accepts: its
  answer is decided by \<open>calculate\<close> alone.
\<close>

lemma process_operands:
  assumes "get_json req = Inr (PDict kvs)"
    and "map_of kvs ''num1'' = Some v1" "map_of kvs ''num2'' = Some v2"
    and "py_float v1 = Inr x" "py_float v2 = Inr y"
  shows "process_arithmetic_request op req =
    (case calculate x y op of
       Inr result \<Rightarrow> Inr (json_response (PDict [(''operation'', PStr op), (''result'', result)]) 200)
     | Inl (ZeroDivisionError msg) \<Rightarrow> Inr (error_json msg 400)
     | Inl e \<Rightarrow> Inr (error_json ''Invalid input type'' 400))"
  using assms missing_operands_present [OF assms(2,3)] arith_try_operands [OF assms(2-5)]
  by (simp add: process_arithmetic_request_def split: sum.split pyexc.split)

text \<open>
  The presence test raises exactly on a truthy number or \<open>true\<close>: \<open>not data\<close>
  short-circuits the falsy values, and \<open>in\<close> is defined on the containers.
\<close>

lemma missing_operands_raises_iff:
  "(\<exists>e. missing_operands v = Inl e) \<longleftrightarrow> py_truthy v \<and> py_isinstance_num v"
  by (cases v) (auto simp: missing_operands_def)

lemma process_raises_iff:
  "(\<exists>e. process_arithmetic_request op req = Inl e) \<longleftrightarrow>
     (\<exists>e. get_json req = Inl e) \<or> (\<exists>v e. get_json req = Inr v \<and> missing_operands v = Inl e)"
  by (auto simp: process_arithmetic_request_def sbind_def py_eq_Inl_iff split: sum.splits pyexc.splits)

lemma process_first_operand_fails:
  assumes "get_json req = Inr (PDict kvs)"
    and "map_of kvs ''num1'' = Some v1" "map_of kvs ''num2'' = Some v2"
    and "py_float v1 = Inl e" "\<forall>msg. e \<noteq> ZeroDivisionError msg"
  shows "process_arithmetic_request op req = Inr (error_json ''Invalid input type'' 400)"
  using assms missing_operands_present [OF assms(2,3)]
  by (cases e) (simp_all add: process_arithmetic_request_def arith_try_def)

text \<open>
  A POST to an operation route runs that route's view, and the JSON text of a
  successful answer lists \<open>operation\<close> before \<open>result\<close> (\<open>sort_keys=True\<close>).
\<close>

lemma app_app_post:
  assumes "req_method r = POST"
  shows "req_path r = ''/add'' \<Longrightarrow> app_app r = finish (app_add r)"
    and "req_path r = ''/subtract'' \<Longrightarrow> app_app r = finish (app_subtract r)"
    and "req_path r = ''/multiply'' \<Longrightarrow> app_app r = finish (app_multiply r)"
    and "req_path r = ''/divide'' \<Longrightarrow> app_app r = finish (app_divide r)"
  using assms by (simp_all add: app_app_def dispatch_def app_routes_def route_allows_def)

lemma app_result_data:
  "response_data (json_response (PDict [(''operation'', PStr op), (''result'', v)]) 200) =
     Some (CHR ''{'' # json_str ''operation'' @ CHR '':'' # json_str op @ CHR '','' #
           json_str ''result'' @ CHR '':'' # json_dumps v @ ''}'' @ [CHR 0x0A])"
  by (simp add: json_response_def json_dumps_def)

text \<open>
  Every JSON body \<open>app.py\<close> sends is a value \<open>json.dumps\<close> writes so that it reads
  back: its floats are results of binary64 operations, hence canonical, and its
  dictionaries have distinct keys.
\<close>

lemma calculate_canonical: "calculate x y op = Inr v \<Longrightarrow> json_canonical v"
  by (auto simp: calculate_def wf_float_add wf_float_sub wf_float_mul
      split: if_splits option.splits dest: wf_float_truediv)

lemma arith_try_canonical:
  assumes "arith_try d op = Inr resp" "body resp = JsonBody v"
  shows "json_canonical v"
proof -
  obtain num1 num2 result where c: "calculate num1 num2 op = Inr result"
    and r: "resp = json_response (PDict [(''operation'', PStr op), (''result'', result)]) 200"
    using assms(1) by (auto simp: arith_try_def sbind_eq_Inr_iff)
  show ?thesis using assms(2) calculate_canonical [OF c] r by (auto simp: json_response_def)
qed

lemma process_arithmetic_request_canonical:
  assumes "process_arithmetic_request op req = Inr resp" "body resp = JsonBody v"
  shows "json_canonical v"
  using assms arith_try_canonical [of _ op resp v]
  by (auto simp: process_arithmetic_request_def sbind_eq_Inr_iff error_json_def json_response_def
      split: if_splits sum.splits pyexc.splits)

lemma app_app_canonical: "body (app_app req) = JsonBody v \<Longrightarrow> json_canonical v"
proof -
  assume b: "body (app_app req) = JsonBody v"
  have "json_canonical v"
    if f: "f \<in> {app_add, app_subtract, app_multiply, app_divide}" and fb: "body (finish (f req)) = JsonBody v" for f
  proof -
    obtain op where "f = process_arithmetic_request op"
      using f unfolding app_add_def app_subtract_def app_multiply_def app_divide_def by blast
    then show ?thesis using fb process_arithmetic_request_canonical [of op req]
      by (cases "f req" rule: finish.cases) auto
  qed
  then show ?thesis using b
    by (auto simp: app_app_def dispatch_def app_routes_def home_def Let_def split: if_splits)
qed

text \<open>
  On a request whose JSON body is an object no exception escapes \<open>app.py\<close>: the
  presence tests are defined on a dictionary, and everything after them runs inside the
  \<open>try\<close> block. The answer's status is one of the handler's own codes, Flask's 415
  for a body not declared as JSON, or a routing code.
\<close>

lemma arith_try_status: "arith_try data op = Inr r \<Longrightarrow> status r = 200"
  by (auto simp: arith_try_def sbind_eq_Inr_iff json_response_def)

lemma missing_operands_dict: "\<exists>b. missing_operands (PDict kvs) = Inr b"
  by (auto simp: missing_operands_def sbind_def)

lemma process_status_dict:
  assumes "req_body req = Some (PDict kvs)"
  shows "status (finish (process_arithmetic_request op req)) \<in> {200, 400, 415}"
proof (cases "req_is_json req")
  case False
  then show ?thesis by (simp add: process_arithmetic_request_def get_json_def sbind_def)
next
  case True
  then have g: "get_json req = Inr (PDict kvs)" using assms by (simp add: get_json_Inr_iff)
  obtain b where m: "missing_operands (PDict kvs) = Inr b" using missing_operands_dict by blast
  show ?thesis
  proof (cases "arith_try (PDict kvs) op")
    case (Inl e)
    then show ?thesis using g m
      by (cases e) (simp_all add: process_arithmetic_request_def sbind_def error_json_def json_response_def)
  next
    case (Inr r)
    then show ?thesis using g m arith_try_status [OF Inr]
      by (simp add: process_arithmetic_request_def sbind_def error_json_def json_response_def)
  qed
qed

lemma app_app_status_dict:
  assumes "req_body req = Some (PDict kvs)"
  shows "status (app_app req) \<in> {200, 400, 404, 405, 415}"
proof -
  have "status (finish (f req)) \<in> {200, 400, 415}"
    if f: "f \<in> {app_add, app_subtract, app_multiply, app_divide}" for f
  proof -
    obtain op where "f = process_arithmetic_request op"
      using f unfolding app_add_def app_subtract_def app_multiply_def app_divide_def by blast
    then show ?thesis using process_status_dict [OF assms] by simp
  qed
  then show ?thesis
    by (auto simp: app_app_def dispatch_def app_routes_def home_def Let_def split: if_splits)
qed

end
