(* ===== verification/Server.thy ===== *)
theory Server
  imports Flask "HOL-Library.Multiset"
begin

text \<open>
  The server that \<open>app.run(...)\<close> starts at the end of \<open>src/api/app.py\<close> and
  \<open>src/api/main.py\<close> (Werkzeug's development server, threaded since Flask 1.0): several
  requests may be in flight at once, each is handled by one call of the application, in
  an order the scheduler chooses. The applications keep no state between requests, so a
  request's answer is the application's function of that request alone. The model: the
  requests in flight (\<open>pending\<close>) and the answers sent so far (\<open>answered\<close>), a step
  (\<open>serve_step\<close>) answering any one pending request; \<open>reachable\<close> are the states a
  batch of requests can lead to, \<open>serve_run n\<close> the runs of \<open>n\<close> steps. The
  application is a parameter: the invariant and the liveness lemma hold for any
  application, and the root theory instantiates it with \<open>app_app\<close> for safety.
\<close>

text \<open>
  \<open>app.run(host, port)\<close> binds a listening socket: \<open>app.py\<close> binds the loopback
  address \<open>127.0.0.1\<close>, \<open>main.py\<close> the wildcard \<open>0.0.0.0\<close>, both on port 5000. A
  connection reaches the server when it is addressed to the bound port and to the bound
  address, any address of the host when the wildcard is bound. A connection is its
  destination address, its destination port and the request it carries.
\<close>

record run_config =
  run_host :: string
  run_port :: nat

definition app_run :: run_config where
  "app_run = \<lparr>run_host = ''127.0.0.1'', run_port = 5000\<rparr>"

definition main_run :: run_config where
  "main_run = \<lparr>run_host = ''0.0.0.0'', run_port = 5000\<rparr>"

type_synonym connection = "string \<times> nat \<times> request"

definition binds :: "run_config \<Rightarrow> string \<Rightarrow> nat \<Rightarrow> bool" where
  "binds cfg addr port \<longleftrightarrow> port = run_port cfg \<and> (run_host cfg = ''0.0.0.0'' \<or> addr = run_host cfg)"

definition accepted :: "run_config \<Rightarrow> connection list \<Rightarrow> request list" where
  "accepted cfg cs = [r. (a, p, r) \<leftarrow> cs, binds cfg a p]"

record server =
  pending :: "request list"
  answered :: "(request \<times> response) list"

definition server_start :: "request list \<Rightarrow> server" where
  "server_start rs = \<lparr>pending = rs, answered = []\<rparr>"

inductive serve_step :: "(request \<Rightarrow> response) \<Rightarrow> server \<Rightarrow> server \<Rightarrow> bool" for app where
  serve: "i < length (pending s) \<Longrightarrow>
    serve_step app s \<lparr>pending = take i (pending s) @ drop (Suc i) (pending s),
                      answered = answered s @ [(pending s ! i, app (pending s ! i))]\<rparr>"

inductive reachable :: "(request \<Rightarrow> response) \<Rightarrow> request list \<Rightarrow> server \<Rightarrow> bool" for app rs where
  start: "reachable app rs (server_start rs)"
| step: "reachable app rs s \<Longrightarrow> serve_step app s t \<Longrightarrow> reachable app rs t"

fun serve_run :: "(request \<Rightarrow> response) \<Rightarrow> nat \<Rightarrow> server \<Rightarrow> server \<Rightarrow> bool" where
  "serve_run app 0 s t \<longleftrightarrow> t = s"
| "serve_run app (Suc n) s t \<longleftrightarrow> (\<exists>u. serve_step app s u \<and> serve_run app n u t)"

text \<open>
  The invariant of the server: each answer sent is the application's answer to its
  request, and every request of the batch is either still pending or answered, once.
\<close>

definition server_ok :: "(request \<Rightarrow> response) \<Rightarrow> request list \<Rightarrow> server \<Rightarrow> bool" where
  "server_ok app rs s \<longleftrightarrow> (\<forall>(r, resp) \<in> set (answered s). resp = app r) \<and>
     mset (pending s) + mset (map fst (answered s)) = mset rs"

inductive_cases serve_stepE: "serve_step app s t"

section \<open>Safety: the invariant\<close>

lemma mset_take_drop_nth:
  "i < length xs \<Longrightarrow> mset (take i xs @ drop (Suc i) xs) + {#xs ! i#} = mset xs"
proof -
  assume i: "i < length xs"
  have "mset xs = mset (take i xs @ xs ! i # drop (Suc i) xs)"
    using id_take_nth_drop [OF i] by (rule arg_cong)
  then show ?thesis by simp
qed

lemma serve_step_ok: "serve_step app s t \<Longrightarrow> server_ok app rs s \<Longrightarrow> server_ok app rs t"
proof (induction rule: serve_step.induct)
  case (serve i s)
  let ?p = "take i (pending s) @ drop (Suc i) (pending s)"
  have "mset ?p + mset (map fst (answered s @ [(pending s ! i, app (pending s ! i))]))
      = (mset ?p + {#pending s ! i#}) + mset (map fst (answered s))"
    by (simp add: ac_simps)
  also have "\<dots> = mset rs"
    using serve.prems mset_take_drop_nth [OF serve.hyps] unfolding server_ok_def by simp
  finally have m: "mset ?p + mset (map fst (answered s @ [(pending s ! i, app (pending s ! i))])) = mset rs" .
  have "\<forall>(r, resp) \<in> set (answered s). resp = app r" using serve.prems unfolding server_ok_def by simp
  then have "\<forall>(r, resp) \<in> set (answered s @ [(pending s ! i, app (pending s ! i))]). resp = app r" by simp
  with m show ?case unfolding server_ok_def by simp
qed

lemma reachable_ok: "reachable app rs s \<Longrightarrow> server_ok app rs s"
proof (induction rule: reachable.induct)
  case start
  show ?case by (simp add: server_ok_def server_start_def)
next
  case (step s t)
  then show ?case using serve_step_ok by blast
qed

lemma server_ok_answered:
  assumes "server_ok app rs s" "(r, resp) \<in> set (answered s)"
  shows "r \<in> set rs \<and> resp = app r"
proof -
  have "r \<in># mset (map fst (answered s))" using assms(2) by force
  then have "r \<in># mset rs" using assms(1) unfolding server_ok_def by (metis union_iff)
  then show ?thesis using assms unfolding server_ok_def by auto
qed

section \<open>Liveness: every run answers every request\<close>

lemma serve_step_pending: "serve_step app s t \<Longrightarrow> Suc (length (pending t)) = length (pending s)"
  by (erule serve_stepE) simp

lemma serve_run_length: "serve_run app n s t \<Longrightarrow> n + length (pending t) = length (pending s)"
proof (induction n arbitrary: s)
  case 0
  then show ?case by simp
next
  case (Suc n)
  then obtain u where "serve_step app s u" "serve_run app n u t" by auto
  then show ?case using Suc.IH serve_step_pending [of app s u] by simp
qed

lemma serve_step_exists: "pending s \<noteq> [] \<Longrightarrow> \<exists>t. serve_step app s t"
  using serve_step.serve [of 0 s app] by auto

lemma serve_completes:
  "server_ok app rs s \<Longrightarrow> \<exists>t. serve_run app (length (pending s)) s t \<and> pending t = [] \<and> server_ok app rs t"
proof (induction "length (pending s)" arbitrary: s)
  case 0
  then show ?case by simp
next
  case (Suc n)
  then have "pending s \<noteq> []" by auto
  then obtain u where u: "serve_step app s u" using serve_step_exists by blast
  have "length (pending u) = n" using serve_step_pending [OF u] Suc.hyps(2) by simp
  then obtain t where "serve_run app n u t" "pending t = []" "server_ok app rs t"
    using Suc.hyps(1) serve_step_ok [OF u Suc.prems] by blast
  moreover have "serve_run app (Suc n) s t" using u \<open>serve_run app n u t\<close> by auto
  moreover have "length (pending s) = Suc n" using Suc.hyps(2) by simp
  ultimately show ?case by auto
qed

end
