(* ===== verification/Spec2Isabelle.thy ===== *)
theory Spec2Isabelle
  imports StrictApp PermissiveApp FloatRounding Server
begin

text \<open>
  \<^bold>\<open>Verification of yasrre/arithmetic-api.\<close>

  \<^bold>\<open>The program.\<close> Two Flask applications expose the same four arithmetic operations
  over JSON: \<open>src/api/main.py\<close> (the strict variant: operands must already be numbers)
  and \<open>src/api/app.py\<close> (the permissive variant: operands are converted by
  \<open>float()\<close>, and a GET on \<open>/\<close> returns a welcome text). \<open>src/api/test_app.py\<close>
  drives the permissive variant through Flask's test client. No state survives a request:
  each request is one pass parse, validate, compute, respond, so every component is a
  function from the request to the response, and the behaviours that matter are Python's
  dynamic typing, the exceptions on each path, and binary64 arithmetic.

  \<^bold>\<open>Theories.\<close>
  \<^item> \<open>Prelude\<close>: the \<open>eval_simps\<close> collection used by the witnesses, \<open>sbind\<close>
    (sequencing of computations that may raise), and facts on powers of two.
  \<^item> \<open>Float64\<close>: Python \<open>float\<close> as IEEE-754 binary64 (\<open>float64\<close>, canonical form
    \<open>wf_float\<close>), exact intermediate values (\<open>exact\<close>), rounding to nearest-even
    computed with integers only (\<open>round_exact\<close>), the operations \<open>float_add\<close>,
    \<open>float_sub\<close>, \<open>float_mul\<close>, \<open>float_truediv\<close>, and CPython's \<open>float(int)\<close>
    (\<open>float_of_int\<close>) and \<open>int / int\<close> (\<open>int_truediv\<close>).
  \<^item> \<open>FloatRounding\<close>: the accuracy of the binary64 model: the contract
    \<open>rounds_to v f\<close> of round-to-nearest (\<open>f\<close> within \<open>2^-53 |v|\<close> or \<open>2^-1075\<close>
    of \<open>v\<close>), and the reference rounding \<open>round64\<close> (round-to-nearest-even written on
    the rationals with the real logarithm and \<open>rat_round\<close>), against which
    \<open>round_exact\<close> and each operation are checked; \<open>float()\<close> arithmetic on integers.
  \<^item> \<open>FloatParse\<close>: \<open>float(str)\<close> (\<open>parse_float_str\<close>), CPython's grammar.
  \<^item> \<open>FloatRepr\<close>: \<open>repr\<close> of a float (\<open>float_repr\<close>: the shortest decimal that
    reads back, searched over 1 to 17 significant digits, then CPython's positional or
    exponent format) and \<open>str\<close> of an int (\<open>int_repr\<close>).
  \<^item> \<open>JsonText\<close>: \<open>json.dumps\<close> (\<open>json_encode\<close>, with its options), as Flask's
    \<open>jsonify\<close> calls it (\<open>json_dumps\<close>: sorted keys, ASCII escapes, compact
    separators, \<open>NaN\<close>/\<open>Infinity\<close> tokens) and as \<open>test_app.py\<close> calls it
    (\<open>py_json_dumps\<close>: the default separators).
  \<^item> \<open>JsonLoads\<close>: \<open>json.loads\<close> (\<open>json_loads\<close>), which \<open>request.get_json()\<close> and
    the test client's \<open>rv.get_json()\<close> call, following CPython's C scanner: the scanner
    \<open>json_scan\<close> (a \<open>partial_function (option)\<close> over a mode: value, array loop,
    object loop), strings (\<open>json_scanstring\<close>), numbers (\<open>json_number\<close>), the
    literals, and \<open>dict_set\<close> for repeated keys.
  \<^item> \<open>PyValue\<close>: the Python objects of a decoded JSON body (\<open>pyval\<close>), exceptions
    (\<open>pyexc\<close>), and the built-ins the handlers call: truthiness, \<open>in\<close>,
    \<open>d[k]\<close>, \<open>d.get(k)\<close>, \<open>isinstance(x, (int, float))\<close>, \<open>float(x)\<close>,
    \<open>x == 0\<close> and the operators \<open>+ - * /\<close> with Python's numeric coercions.
  \<^item> \<open>Flask\<close>: requests, responses, \<open>request.get_json()\<close>, \<open>jsonify\<close>, the
    conversion of a raised exception into a status code (\<open>finish\<close>), URL dispatch,
    the bytes of a response body (\<open>response_data\<close>), a request built from its body
    text (\<open>request_of_data\<close>), and the test client's requests.
  \<^item> \<open>StrictApp\<close>: \<open>src/api/main.py\<close>, the views \<open>main_add\<close>, \<open>main_subtract\<close>,
    \<open>main_multiply\<close>, \<open>main_divide\<close>, their route table and application.
  \<^item> \<open>PermissiveApp\<close>: \<open>src/api/app.py\<close>, \<open>calculate\<close>, \<open>home\<close>,
    \<open>process_arithmetic_request\<close> (with its two parts \<open>missing_operands\<close> and
    \<open>arith_try\<close>), the four views, the route table and the application.
  \<^item> \<open>Server\<close>: \<open>app.run(host, port)\<close> at the end of both applications: the bound
    address (\<open>app_run\<close>: \<open>127.0.0.1:5000\<close>, \<open>main_run\<close>: \<open>0.0.0.0:5000\<close>), the
    connections it accepts (\<open>accepted\<close>), and Werkzeug's threaded serving as a state
    machine over the requests in flight and the answers sent (\<open>serve_step\<close>,
    \<open>reachable\<close>, the runs \<open>serve_run n\<close>), generic in the application.
  \<^item> this theory: the properties of the request handling, the test scenarios, and the
    facts that span the two variants.

  \<^bold>\<open>What the lemmas show.\<close> Float64: every rounding result and every operation is a
  canonical binary64; values with at most 53 significant bits are kept exactly (so
  \<open>float(n)\<close> is exact for \<open>|n| < 2^53\<close>); a canonical float rounds to itself; a
  magnitude of at least \<open>2^1024\<close> overflows. FloatRounding: \<open>round_div\<close> and
  \<open>round_scaled\<close> compute \<open>rat_round\<close> of their quotient, so \<open>round_exact\<close> equals
  \<open>round64\<close> of the exact value (\<open>round_exact_round64\<close>) and is within half a unit
  in the last place of it; each finite result of \<open>+ - * /\<close> therefore meets
  \<open>rounds_to\<close> for the exact result; \<open>+\<close> and \<open>*\<close> commute; and for integers
  below \<open>2^53\<close>, \<open>float(m) + float(n) = float(m + n)\<close> (likewise \<open>-\<close> and \<open>*\<close>),
  which makes the two variants agree on such operands.
  FloatRepr: \<open>str(n)\<close> is a digit string without leading zero that reads back as
  \<open>n\<close>, so \<open>float(str(n)) = float(n)\<close>; the decimal \<open>shortest_decimal\<close> picks
  rounds to the float under \<open>round64\<close>, and each of the four layouts of
  \<open>repr_digits\<close> parses back to that decimal, so \<open>float(repr(x)) = x\<close> for every
  finite canonical \<open>x\<close>. FloatParse: a string of digits is read as
  the integer it spells, so \<open>float(s)\<close> agrees with \<open>float(int)\<close> except past the
  float range, where the string gives \<open>inf\<close> and the integer raises. The applications: each route computes its
  operation on the converted operands; division by zero is answered with 400 and the
  variant's message; the exact status code for every other path, including the paths
  where an exception escapes the view and Flask answers 500; the shape of every answer
  (a result or an error, never both); the JSON text of an answer, including the
  \<open>NaN\<close> that \<open>app.py\<close> sends for a \<open>"nan"\<close> operand; and the four tests of
  \<open>test_app.py\<close>. JsonLoads: the scanner returns on every text (termination, by
  induction on the length of the text with each step consuming input); the decoder
  undoes the encoder for every value with canonical floats and distinct keys
  (\<open>json.loads(json.dumps(v)) == v\<close>, through the float repr round trip of FloatRepr);
  hence the tests' requests, sent as text, carry the decoded payloads the handlers are
  verified on, and every JSON body \<open>app.py\<close> answers decodes to what its view returned.
  Server: the invariant \<open>server_ok\<close> (each answer sent is the application's answer
  to its request, and the requests pending and answered are, as a multiset, the batch
  accepted) holds in every reachable state, by rule induction over \<open>reachable\<close>;
  each step answers one request, so from every reachable state a run of exactly as many
  steps as requests in flight ends with all of them answered (liveness); for \<open>app.py\<close>
  on JSON objects, no answer is a 500 (safety, from the status lemma
  \<open>app_app_status_dict\<close> of PermissiveApp).

  \<^bold>\<open>Bounds and fuel.\<close> No loop of the program is modelled with fuel: the recursions
  are \<open>ilog2\<close> and \<open>int_digits\<close> (terminating by the measure \<open>nat n\<close>),
  \<open>strip_zeros\<close> (by the size of the coefficient) and structural recursions over
  strings; the JSON scanner is a \<open>partial_function (option)\<close> whose termination is a
  theorem (C35), not an assumption. The search of \<open>repr\<close> stops at 17 significant digits: the 17-digit
  candidate always lies within the float's rounding interval
  (\<open>repr_candidate_17\<close>), so the search never falls through to its default. The binary64 parameters are the IEEE ones: 53-bit significands, exponents of
  the significand from -1074 to 971.

  \<^bold>\<open>Not modelled.\<close> The sockets and the HTTP framing of Werkzeug's server (a
  connection is its destination and the request it carries), the \<open>__name__ ==
  '__main__'\<close> guard (the tests import the module and never start the server), and a
  server that runs until interrupted: the model serves a finite batch of connections,
  which is where liveness is stated, and the threads' interleaving is the choice of the
  request \<open>serve_step\<close> answers, since no handler observes another's effects;
  Flask's HTML error pages (\<open>response_data\<close> is \<open>None\<close> for them); characters above
  U+00FF in strings (a body with such a \<open>\<^verbatim>\<open>\u\<close>\<close> escape is outside the model:
  \<open>json_loads\<close> reports \<open>BeyondModel\<close>, \<open>request_of_data\<close> gives \<open>None\<close>); the
  decoding of body bytes to text (the body is its decoded text); the \<open>RecursionError\<close>
  the C scanner raises for very deep nesting, which escapes \<open>get_json\<close> (it is not a
  \<open>ValueError\<close>) and makes Flask answer 500, at a depth that depends on the
  interpreter's stack limit; non-ASCII whitespace and digits in \<open>float(str)\<close>;
  \<open>MemoryError\<close>.

  \<^bold>\<open>Further work.\<close> the decoding of the JSON bodies \<open>main.py\<close> sends;
  \<open>float(str)\<close> on decimal fractions against \<open>round64\<close>; the
  exact overflow threshold \<open>2^1024 - 2^970\<close>; HEAD and OPTIONS requests.
\<close>

section \<open>Test data of test_app.py\<close>

definition add_payload :: pyval where
  "add_payload = PDict [(''num1'', PInt 10), (''num2'', PInt 5)]"

definition subtract_payload :: pyval where
  "subtract_payload = PDict [(''num1'', PInt 100), (''num2'', PInt 25)]"

definition divide_zero_payload :: pyval where
  "divide_zero_payload = PDict [(''num1'', PInt 10), (''num2'', PInt 0)]"

section \<open>Shapes of an answer\<close>

text \<open>
  The spec's data model: an answer is success-shaped (the operation and its result) or
  error-shaped (one \<open>error\<close> field), never both.
\<close>

fun is_result_body :: "resp_body \<Rightarrow> bool" where
  "is_result_body (JsonBody (PDict [(k1, PStr op), (k2, v)])) = (k1 = ''operation'' \<and> k2 = ''result'')"
| "is_result_body b = False"

fun is_error_body :: "resp_body \<Rightarrow> bool" where
  "is_error_body (JsonBody (PDict [(k, PStr msg)])) = (k = ''error'')"
| "is_error_body b = False"

section \<open>The permissive variant computes each operation\<close>

text \<open>
  C1: On a JSON object whose operands \<open>num1\<close> and \<open>num2\<close> are accepted by
  \<open>float()\<close> as \<open>x\<close> and \<open>y\<close>, the \<open>/add\<close> view of \<open>app.py\<close> answers 200 with
  the operation's name and the binary64 sum of \<open>x\<close> and \<open>y\<close>.
\<close>

theorem app_add_computes:
  assumes "get_json req = Inr (PDict kvs)"
    and "map_of kvs ''num1'' = Some v1" "map_of kvs ''num2'' = Some v2"
    and "py_float v1 = Inr x" "py_float v2 = Inr y"
  shows "app_add req =
    Inr (json_response (PDict [(''operation'', PStr ''add''), (''result'', PFloat (float_add x y))]) 200)"
  using process_operands [OF assms] by (simp add: app_add_def calculate_def)

theorem app_add_computes_witness:
  "get_json (client_post_json ''/add'' (PDict [(''num1'', PInt 10), (''num2'', PStr '' 5'')]))
     = Inr (PDict [(''num1'', PInt 10), (''num2'', PStr '' 5'')]) \<and>
   map_of [(''num1'', PInt 10), (''num2'', PStr '' 5'')] ''num1'' = Some (PInt 10) \<and>
   map_of [(''num1'', PInt 10), (''num2'', PStr '' 5'')] ''num2'' = Some (PStr '' 5'') \<and>
   py_float (PInt 10) = Inr (Fin False 5629499534213120 (-49)) \<and>
   py_float (PStr '' 5'') = Inr (Fin False 5629499534213120 (-50)) \<and>
   app_add (client_post_json ''/add'' (PDict [(''num1'', PInt 10), (''num2'', PStr '' 5'')])) =
     Inr (json_response (PDict [(''operation'', PStr ''add''),
       (''result'', PFloat (float_add (Fin False 5629499534213120 (-49)) (Fin False 5629499534213120 (-50))))]) 200)"
proof -
  have h1: "get_json (client_post_json ''/add'' (PDict [(''num1'', PInt 10), (''num2'', PStr '' 5'')]))
     = Inr (PDict [(''num1'', PInt 10), (''num2'', PStr '' 5'')])" by simp
  have h2: "map_of [(''num1'', PInt 10), (''num2'', PStr '' 5'')] ''num1'' = Some (PInt 10)" by simp
  have h3: "map_of [(''num1'', PInt 10), (''num2'', PStr '' 5'')] ''num2'' = Some (PStr '' 5'')" by simp
  have h4: "py_float (PInt 10) = Inr (Fin False 5629499534213120 (-49))" by code_simp
  have h5: "py_float (PStr '' 5'') = Inr (Fin False 5629499534213120 (-50))" by code_simp
  show ?thesis using h1 h2 h3 h4 h5 app_add_computes [OF h1 h2 h3 h4 h5] by blast
qed


text \<open>
  C2: On a JSON object whose operands \<open>float()\<close> accepts, with a divisor equal to
  zero (either sign), the \<open>/divide\<close> view of \<open>app.py\<close> answers 400 with the error
  "Cannot divide by zero" and no result.
\<close>

theorem app_divide_by_zero:
  assumes "get_json req = Inr (PDict kvs)"
    and "map_of kvs ''num1'' = Some v1" "map_of kvs ''num2'' = Some v2"
    and "py_float v1 = Inr x" "py_float v2 = Inr y" "float_is_zero y"
  shows "app_divide req = Inr (error_json ''Cannot divide by zero'' 400)"
  using process_operands [OF assms(1-5)] assms(6) by (simp add: app_divide_def calculate_def)

theorem app_divide_by_zero_witness:
  "get_json (client_post_json ''/divide'' divide_zero_payload) =
     Inr (PDict [(''num1'', PInt 10), (''num2'', PInt 0)]) \<and>
   map_of [(''num1'', PInt 10), (''num2'', PInt 0)] ''num1'' = Some (PInt 10) \<and>
   map_of [(''num1'', PInt 10), (''num2'', PInt 0)] ''num2'' = Some (PInt 0) \<and>
   py_float (PInt 10) = Inr (Fin False 5629499534213120 (-49)) \<and>
   py_float (PInt 0) = Inr (Fin False 0 (-1074)) \<and> float_is_zero (Fin False 0 (-1074)) \<and>
   app_divide (client_post_json ''/divide'' divide_zero_payload) =
     Inr (error_json ''Cannot divide by zero'' 400)"
proof -
  have h1: "get_json (client_post_json ''/divide'' divide_zero_payload) =
     Inr (PDict [(''num1'', PInt 10), (''num2'', PInt 0)])" by (simp add: divide_zero_payload_def)
  have h2: "map_of [(''num1'', PInt 10), (''num2'', PInt 0)] ''num1'' = Some (PInt 10)" by simp
  have h3: "map_of [(''num1'', PInt 10), (''num2'', PInt 0)] ''num2'' = Some (PInt 0)" by simp
  have h4: "py_float (PInt 10) = Inr (Fin False 5629499534213120 (-49))" by code_simp
  have h5: "py_float (PInt 0) = Inr (Fin False 0 (-1074))" by code_simp
  have h6: "float_is_zero (Fin False 0 (-1074))" by simp
  show ?thesis using h1 h2 h3 h4 h5 h6 app_divide_by_zero [OF h1 h2 h3 h4 h5 h6] by blast
qed

section \<open>The strict variant\<close>

text \<open>
  C3: On a JSON object whose operands pass \<open>isinstance(x, (int, float))\<close> and whose
  divisor equals zero (\<open>0\<close>, \<open>0.0\<close>, \<open>-0.0\<close> or \<open>false\<close>), the \<open>/divide\<close> view
  of \<open>main.py\<close> answers 400 with the error "Cannot divide by zero u dummy." before
  dividing.
\<close>

theorem main_divide_by_zero:
  assumes "get_json req = Inr (PDict kvs)"
    and "map_of kvs ''num1'' = Some a" "map_of kvs ''num2'' = Some b"
    and "py_isinstance_num a" "py_isinstance_num b" "py_eq_zero b"
  shows "main_divide req = Inr (error_json ''Cannot divide by zero u dummy.'' 400)"
  using main_divide_numeric [OF assms(1-5)] assms(6) by simp

theorem main_divide_by_zero_witness:
  "get_json (client_post_json ''/divide'' divide_zero_payload) =
     Inr (PDict [(''num1'', PInt 10), (''num2'', PInt 0)]) \<and>
   map_of [(''num1'', PInt 10), (''num2'', PInt 0)] ''num1'' = Some (PInt 10) \<and>
   map_of [(''num1'', PInt 10), (''num2'', PInt 0)] ''num2'' = Some (PInt 0) \<and>
   py_isinstance_num (PInt 10) \<and> py_isinstance_num (PInt 0) \<and> py_eq_zero (PInt 0) \<and>
   main_divide (client_post_json ''/divide'' divide_zero_payload) =
     Inr (error_json ''Cannot divide by zero u dummy.'' 400)"
proof -
  have h1: "get_json (client_post_json ''/divide'' divide_zero_payload) =
     Inr (PDict [(''num1'', PInt 10), (''num2'', PInt 0)])" by (simp add: divide_zero_payload_def)
  have h2: "map_of [(''num1'', PInt 10), (''num2'', PInt 0)] ''num1'' = Some (PInt 10)" by simp
  have h3: "map_of [(''num1'', PInt 10), (''num2'', PInt 0)] ''num2'' = Some (PInt 0)" by simp
  have h4: "py_isinstance_num (PInt 10)" "py_isinstance_num (PInt 0)" "py_eq_zero (PInt 0)"
    by simp_all
  show ?thesis using h1 h2 h3 h4 main_divide_by_zero [OF h1 h2 h3 h4] by blast
qed



section \<open>The other routes of the permissive variant\<close>

text \<open>
  C5: On a JSON object whose operands \<open>float()\<close> accepts as \<open>x\<close> and \<open>y\<close>, the
  \<open>/subtract\<close> view of \<open>app.py\<close> answers 200 with the binary64 difference.
\<close>

theorem app_subtract_computes:
  assumes "get_json req = Inr (PDict kvs)"
    and "map_of kvs ''num1'' = Some v1" "map_of kvs ''num2'' = Some v2"
    and "py_float v1 = Inr x" "py_float v2 = Inr y"
  shows "app_subtract req =
    Inr (json_response (PDict [(''operation'', PStr ''subtract''), (''result'', PFloat (float_sub x y))]) 200)"
  using process_operands [OF assms] by (simp add: app_subtract_def calculate_def)

theorem app_subtract_computes_witness:
  "get_json (client_post_json ''/subtract'' subtract_payload) =
     Inr (PDict [(''num1'', PInt 100), (''num2'', PInt 25)]) \<and>
   map_of [(''num1'', PInt 100), (''num2'', PInt 25)] ''num1'' = Some (PInt 100) \<and>
   map_of [(''num1'', PInt 100), (''num2'', PInt 25)] ''num2'' = Some (PInt 25) \<and>
   py_float (PInt 100) = Inr (float_of_int 100) \<and> py_float (PInt 25) = Inr (float_of_int 25) \<and>
   app_subtract (client_post_json ''/subtract'' subtract_payload) =
     Inr (json_response (PDict [(''operation'', PStr ''subtract''),
       (''result'', PFloat (float_sub (float_of_int 100) (float_of_int 25)))]) 200)"
proof -
  have h1: "get_json (client_post_json ''/subtract'' subtract_payload) =
     Inr (PDict [(''num1'', PInt 100), (''num2'', PInt 25)])" by (simp add: subtract_payload_def)
  have h2: "map_of [(''num1'', PInt 100), (''num2'', PInt 25)] ''num1'' = Some (PInt 100)" by simp
  have h3: "map_of [(''num1'', PInt 100), (''num2'', PInt 25)] ''num2'' = Some (PInt 25)" by simp
  have h4: "py_float (PInt 100) = Inr (float_of_int 100)" "py_float (PInt 25) = Inr (float_of_int 25)"
    by (simp_all add: py_float_of_int_small)
  show ?thesis using h1 h2 h3 h4 app_subtract_computes [OF h1 h2 h3 h4] by blast
qed

text \<open>
  C6: On a JSON object whose operands \<open>float()\<close> accepts as \<open>x\<close> and \<open>y\<close>, the
  \<open>/multiply\<close> view of \<open>app.py\<close> answers 200 with the binary64 product.
\<close>

theorem app_multiply_computes:
  assumes "get_json req = Inr (PDict kvs)"
    and "map_of kvs ''num1'' = Some v1" "map_of kvs ''num2'' = Some v2"
    and "py_float v1 = Inr x" "py_float v2 = Inr y"
  shows "app_multiply req =
    Inr (json_response (PDict [(''operation'', PStr ''multiply''), (''result'', PFloat (float_mul x y))]) 200)"
  using process_operands [OF assms] by (simp add: app_multiply_def calculate_def)

theorem app_multiply_computes_witness:
  "get_json (client_post_json ''/multiply'' (PDict [(''num1'', PFloat (Inf False)), (''num2'', PInt 3)])) =
     Inr (PDict [(''num1'', PFloat (Inf False)), (''num2'', PInt 3)]) \<and>
   map_of [(''num1'', PFloat (Inf False)), (''num2'', PInt 3)] ''num1'' = Some (PFloat (Inf False)) \<and>
   map_of [(''num1'', PFloat (Inf False)), (''num2'', PInt 3)] ''num2'' = Some (PInt 3) \<and>
   py_float (PFloat (Inf False)) = Inr (Inf False) \<and> py_float (PInt 3) = Inr (float_of_int 3) \<and>
   app_multiply (client_post_json ''/multiply'' (PDict [(''num1'', PFloat (Inf False)), (''num2'', PInt 3)])) =
     Inr (json_response (PDict [(''operation'', PStr ''multiply''),
       (''result'', PFloat (float_mul (Inf False) (float_of_int 3)))]) 200)"
proof -
  have h1: "get_json (client_post_json ''/multiply'' (PDict [(''num1'', PFloat (Inf False)), (''num2'', PInt 3)])) =
     Inr (PDict [(''num1'', PFloat (Inf False)), (''num2'', PInt 3)])" by simp
  have h2: "map_of [(''num1'', PFloat (Inf False)), (''num2'', PInt 3)] ''num1'' = Some (PFloat (Inf False))"
    by simp
  have h3: "map_of [(''num1'', PFloat (Inf False)), (''num2'', PInt 3)] ''num2'' = Some (PInt 3)" by simp
  have h4: "py_float (PFloat (Inf False)) = Inr (Inf False)" "py_float (PInt 3) = Inr (float_of_int 3)"
    by (simp_all add: py_float_of_int_small)
  show ?thesis using h1 h2 h3 h4 app_multiply_computes [OF h1 h2 h3 h4] by blast
qed

text \<open>
  C7: On a JSON object whose operands \<open>float()\<close> accepts as \<open>x\<close> and \<open>y\<close>, with a
  divisor that is not zero (NaN and infinities included), the \<open>/divide\<close> view of
  \<open>app.py\<close> answers 200 with the IEEE quotient.
\<close>

theorem app_divide_computes:
  assumes "get_json req = Inr (PDict kvs)"
    and "map_of kvs ''num1'' = Some v1" "map_of kvs ''num2'' = Some v2"
    and "py_float v1 = Inr x" "py_float v2 = Inr y" "\<not> float_is_zero y"
  shows "app_divide req =
    Inr (json_response (PDict [(''operation'', PStr ''divide''), (''result'', PFloat (float_div_nonzero x y))]) 200)"
  using process_operands [OF assms(1-5)] assms(6)
  by (simp add: app_divide_def calculate_def float_truediv_def)

theorem app_divide_computes_witness:
  "get_json (client_post_json ''/divide'' (PDict [(''num1'', PInt 10), (''num2'', PStr ''4'')])) =
     Inr (PDict [(''num1'', PInt 10), (''num2'', PStr ''4'')]) \<and>
   map_of [(''num1'', PInt 10), (''num2'', PStr ''4'')] ''num1'' = Some (PInt 10) \<and>
   map_of [(''num1'', PInt 10), (''num2'', PStr ''4'')] ''num2'' = Some (PStr ''4'') \<and>
   py_float (PInt 10) = Inr (Fin False 5629499534213120 (-49)) \<and>
   py_float (PStr ''4'') = Inr (Fin False 4503599627370496 (-50)) \<and>
   \<not> float_is_zero (Fin False 4503599627370496 (-50)) \<and>
   app_divide (client_post_json ''/divide'' (PDict [(''num1'', PInt 10), (''num2'', PStr ''4'')])) =
     Inr (json_response (PDict [(''operation'', PStr ''divide''),
       (''result'', PFloat (float_div_nonzero (Fin False 5629499534213120 (-49))
                                             (Fin False 4503599627370496 (-50))))]) 200)"
proof -
  have h1: "get_json (client_post_json ''/divide'' (PDict [(''num1'', PInt 10), (''num2'', PStr ''4'')])) =
     Inr (PDict [(''num1'', PInt 10), (''num2'', PStr ''4'')])" by simp
  have h2: "map_of [(''num1'', PInt 10), (''num2'', PStr ''4'')] ''num1'' = Some (PInt 10)" by simp
  have h3: "map_of [(''num1'', PInt 10), (''num2'', PStr ''4'')] ''num2'' = Some (PStr ''4'')" by simp
  have h4: "py_float (PInt 10) = Inr (Fin False 5629499534213120 (-49))" by code_simp
  have h5: "py_float (PStr ''4'') = Inr (Fin False 4503599627370496 (-50))" by code_simp
  have h6: "\<not> float_is_zero (Fin False 4503599627370496 (-50))" by simp
  show ?thesis using h1 h2 h3 h4 h5 h6 app_divide_computes [OF h1 h2 h3 h4 h5 h6] by blast
qed

text \<open>
  C8: On a JSON object with integer operands \<open>m\<close> and \<open>n \<noteq> 0\<close> whose correctly
  rounded quotient \<open>f\<close> is finite, the \<open>/divide\<close> view of \<open>main.py\<close> answers 200
  with the \<open>float\<close> \<open>f\<close>.
\<close>

theorem main_divide_ints:
  assumes "get_json req = Inr (PDict kvs)"
    and "map_of kvs ''num1'' = Some (PInt m)" "map_of kvs ''num2'' = Some (PInt n)"
    and "n \<noteq> 0" "int_truediv m n = Some f" "is_finite f"
  shows "main_divide req = Inr (json_response (PDict [(''result'', PFloat f)]) 200)"
  using main_divide_numeric [OF assms(1-3)] assms(4-6)
  by (cases f) (simp_all add: py_truediv_def)

theorem main_divide_ints_witness:
  "get_json (client_post_json ''/divide'' (PDict [(''num1'', PInt 10), (''num2'', PInt 4)])) =
     Inr (PDict [(''num1'', PInt 10), (''num2'', PInt 4)]) \<and>
   map_of [(''num1'', PInt 10), (''num2'', PInt 4)] ''num1'' = Some (PInt 10) \<and>
   map_of [(''num1'', PInt 10), (''num2'', PInt 4)] ''num2'' = Some (PInt 4) \<and>
   (4::int) \<noteq> 0 \<and> int_truediv 10 4 = Some (Fin False 5629499534213120 (-51)) \<and>
   is_finite (Fin False 5629499534213120 (-51)) \<and>
   main_divide (client_post_json ''/divide'' (PDict [(''num1'', PInt 10), (''num2'', PInt 4)])) =
     Inr (json_response (PDict [(''result'', PFloat (Fin False 5629499534213120 (-51)))]) 200)"
proof -
  have h1: "get_json (client_post_json ''/divide'' (PDict [(''num1'', PInt 10), (''num2'', PInt 4)])) =
     Inr (PDict [(''num1'', PInt 10), (''num2'', PInt 4)])" by simp
  have h2: "map_of [(''num1'', PInt 10), (''num2'', PInt 4)] ''num1'' = Some (PInt 10)" by simp
  have h3: "map_of [(''num1'', PInt 10), (''num2'', PInt 4)] ''num2'' = Some (PInt 4)" by simp
  have h4: "(4::int) \<noteq> 0" by simp
  have h5: "int_truediv 10 4 = Some (Fin False 5629499534213120 (-51))" by code_simp
  have h6: "is_finite (Fin False 5629499534213120 (-51))" by simp
  show ?thesis using h1 h2 h3 h4 h5 h6 main_divide_ints [OF h1 h2 h3 h4 h5 h6] by blast
qed


section \<open>Which requests end in an exception\<close>

text \<open>
  C9: For a request whose JSON body decodes to \<open>v\<close>, \<open>process_arithmetic_request\<close>
  of \<open>app.py\<close> lets an exception escape (Flask answers 500) exactly when \<open>v\<close> is a
  truthy number or \<open>true\<close>: the test \<open>'num1' not in data\<close> runs outside the
  \<open>try\<close> block and raises \<open>TypeError\<close> on a number.
\<close>

theorem app_raises_iff_number_body:
  assumes "get_json req = Inr v"
  shows "(\<exists>e. process_arithmetic_request op req = Inl e) \<longleftrightarrow> py_truthy v \<and> py_isinstance_num v"
  using assms missing_operands_raises_iff [of v] by (simp add: process_raises_iff)

theorem app_raises_iff_number_body_witness:
  "get_json (client_post_json ''/add'' (PInt 5)) = Inr (PInt 5) \<and>
   ((\<exists>e. process_arithmetic_request ''add'' (client_post_json ''/add'' (PInt 5)) = Inl e) \<longleftrightarrow>
      py_truthy (PInt 5) \<and> py_isinstance_num (PInt 5)) \<and>
   status (app_app (client_post_json ''/add'' (PInt 5))) = 500"
proof -
  have h: "get_json (client_post_json ''/add'' (PInt 5)) = Inr (PInt 5)" by simp
  have "status (app_app (client_post_json ''/add'' (PInt 5))) = 500"
    by (simp add: eval_simps)
  then show ?thesis using h app_raises_iff_number_body [OF h, of "''add''"] by blast
qed

text \<open>
  C10: For a request whose JSON body is not an object (an array, a string, a number,
  \<open>true\<close>/\<open>false\<close> or \<open>null\<close>), every view of \<open>main.py\<close> raises
  \<open>AttributeError\<close> at \<open>data.get\<close>, and Flask answers 500.
\<close>

theorem main_non_object_500:
  assumes "get_json req = Inr v" "\<forall>kvs. v \<noteq> PDict kvs"
  shows "status (finish (main_add req)) = 500 \<and> status (finish (main_subtract req)) = 500 \<and>
         status (finish (main_multiply req)) = 500 \<and> status (finish (main_divide req)) = 500"
  using main_views_not_object [OF assms] by simp

theorem main_non_object_500_witness:
  "get_json (client_post_json ''/add'' (PList [PInt 1, PInt 2])) = Inr (PList [PInt 1, PInt 2]) \<and>
   (\<forall>kvs. PList [PInt 1, PInt 2] \<noteq> PDict kvs) \<and>
   status (finish (main_add (client_post_json ''/add'' (PList [PInt 1, PInt 2])))) = 500"
proof -
  have h1: "get_json (client_post_json ''/add'' (PList [PInt 1, PInt 2])) = Inr (PList [PInt 1, PInt 2])"
    by simp
  have h2: "\<forall>kvs. PList [PInt 1, PInt 2] \<noteq> PDict kvs" by simp
  show ?thesis using h1 h2 main_non_object_500 [OF h1 h2] by blast
qed

section \<open>Every answer is a result or an error\<close>

lemma arith_try_result_shape:
  "arith_try data op = Inr r \<Longrightarrow> status r = 200 \<and> is_result_body (body r)"
  by (auto simp: arith_try_def sbind_eq_Inr_iff json_response_def)

text \<open>
  C11: Whenever \<open>process_arithmetic_request\<close> of \<open>app.py\<close> returns an answer, it is
  either 200 with exactly the fields \<open>operation\<close> and \<open>result\<close>, or 400 with exactly
  one \<open>error\<close> field.
\<close>

theorem app_answer_shape:
  assumes "process_arithmetic_request op req = Inr r"
  shows "(status r = 200 \<and> is_result_body (body r)) \<or> (status r = 400 \<and> is_error_body (body r))"
  using assms arith_try_result_shape [of _ op]
  by (auto simp: process_arithmetic_request_def sbind_eq_Inr_iff error_json_def json_response_def
      split: if_splits sum.splits pyexc.splits)

theorem app_answer_shape_witness:
  "process_arithmetic_request ''add'' (client_post_json ''/add'' add_payload) =
     Inr (json_response (PDict [(''operation'', PStr ''add''), (''result'', PFloat (Fin False 8444249301319680 (-49)))]) 200) \<and>
   status (json_response (PDict [(''operation'', PStr ''add''), (''result'', PFloat (Fin False 8444249301319680 (-49)))]) 200) = 200 \<and>
   is_result_body (body (json_response (PDict [(''operation'', PStr ''add''), (''result'', PFloat (Fin False 8444249301319680 (-49)))]) 200))"
proof -
  have h: "process_arithmetic_request ''add'' (client_post_json ''/add'' add_payload) =
     Inr (json_response (PDict [(''operation'', PStr ''add''), (''result'', PFloat (Fin False 8444249301319680 (-49)))]) 200)"
    by code_simp
  from app_answer_shape [OF h] h show ?thesis by (simp add: json_response_def)
qed

section \<open>Binary64 arithmetic\<close>

text \<open>
  C12: Every binary64 operation the handlers use (\<open>+\<close>, \<open>-\<close>, \<open>*\<close>, division by a
  non-zero divisor, \<open>float(int)\<close>, and rounding of any exact value) yields a canonical
  binary64: a significand below \<open>2^53\<close>, an exponent between -1074 and 971, and a
  normal or subnormal encoding.
\<close>

theorem float_ops_canonical:
  "wf_float (float_add x y) \<and> wf_float (float_sub x y) \<and> wf_float (float_mul x y) \<and>
   wf_float (float_div_nonzero x y) \<and> wf_float (float_of_int n) \<and> wf_float (round_exact q)"
  by (simp add: wf_float_add wf_float_sub wf_float_mul wf_float_div_nonzero wf_float_of_int
      wf_round_exact)

text \<open>
  C13: \<open>float(n)\<close> of an \<open>int\<close> with \<open>|n| < 2^53\<close> succeeds and is exact: the
  binary64 it returns has the value \<open>n\<close>.
\<close>

theorem py_float_int_exact:
  assumes "\<bar>n\<bar> < 2 ^ 53"
  shows "\<exists>f. py_float (PInt n) = Inr f \<and> is_finite f \<and> fval f = of_int n"
  using float_of_int_exact [OF assms] py_float_of_int_small [OF assms] by simp

theorem py_float_int_exact_witness:
  "\<bar>(9007199254740991::int)\<bar> < 2 ^ 53 \<and>
   (\<exists>f. py_float (PInt 9007199254740991) = Inr f \<and> is_finite f \<and> fval f = 9007199254740991)"
proof -
  have h: "\<bar>(9007199254740991::int)\<bar> < 2 ^ 53" by simp
  show ?thesis using h py_float_int_exact [OF h] by simp
qed

text \<open>
  The round trip of \<open>Float64.round_exact_canonical\<close> at the subnormal \<open>-3 * 2^-1074\<close>.
\<close>

theorem round_exact_canonical_witness:
  "wf_float (Fin True 3 (-1074)) \<and> (3::int) \<noteq> 0 \<and>
   round_exact (to_exact (Fin True 3 (-1074))) = Fin True 3 (-1074)"
proof -
  have h1: "wf_float (Fin True 3 (-1074))" by simp
  have h2: "(3::int) \<noteq> 0" by simp
  show ?thesis using h1 h2 round_exact_canonical [OF h1 h2] by blast
qed

text \<open>
  \<open>float(n)\<close> of an \<open>int\<close> with \<open>|n| \<ge> 2^1024\<close> raises \<open>OverflowError\<close>.
\<close>

theorem py_float_int_overflow:
  assumes "2 ^ 1024 \<le> \<bar>n\<bar>"
  shows "py_float (PInt n) = Inl OverflowError"
  using py_float_of_int_overflow [OF assms] by simp

theorem py_float_int_overflow_witness:
  "2 ^ 1024 \<le> \<bar>(- ((10::int) ^ 400))\<bar> \<and> py_float (PInt (- (10 ^ 400))) = Inl OverflowError"
proof -
  have h: "2 ^ 1024 \<le> \<bar>(- ((10::int) ^ 400))\<bar>" by simp
  show ?thesis using h py_float_int_overflow [OF h] by simp
qed

section \<open>Huge integers\<close>

text \<open>
  C15: In \<open>main.py\<close>, adding an \<open>int\<close> operand of magnitude at least \<open>2^1024\<close> to
  a \<open>float\<close> operand raises \<open>OverflowError\<close> in the conversion of the \<open>int\<close>, and
  Flask answers 500.
\<close>

theorem main_add_huge_int_500:
  assumes "get_json req = Inr (PDict kvs)"
    and "map_of kvs ''num1'' = Some (PInt m)" "map_of kvs ''num2'' = Some (PFloat y)"
    and "2 ^ 1024 \<le> \<bar>m\<bar>"
  shows "status (finish (main_add req)) = 500"
  using main_add_numeric [OF assms(1-3)] py_float_of_int_overflow [OF assms(4)]
  by (simp add: py_add_def py_float_binop_def py_float_operands_def)

theorem main_add_huge_int_500_witness:
  "get_json (client_post_json ''/add'' (PDict [(''num1'', PInt (2 ^ 1024)), (''num2'', PFloat (Fin False 0 (-1074)))])) =
     Inr (PDict [(''num1'', PInt (2 ^ 1024)), (''num2'', PFloat (Fin False 0 (-1074)))]) \<and>
   map_of [(''num1'', PInt (2 ^ 1024)), (''num2'', PFloat (Fin False 0 (-1074)))] ''num1'' = Some (PInt (2 ^ 1024)) \<and>
   map_of [(''num1'', PInt (2 ^ 1024)), (''num2'', PFloat (Fin False 0 (-1074)))] ''num2'' = Some (PFloat (Fin False 0 (-1074))) \<and>
   2 ^ 1024 \<le> \<bar>(2::int) ^ 1024\<bar> \<and>
   status (finish (main_add (client_post_json ''/add'' (PDict [(''num1'', PInt (2 ^ 1024)), (''num2'', PFloat (Fin False 0 (-1074)))])))) = 500"
proof -
  have h1: "get_json (client_post_json ''/add'' (PDict [(''num1'', PInt (2 ^ 1024)), (''num2'', PFloat (Fin False 0 (-1074)))])) =
     Inr (PDict [(''num1'', PInt (2 ^ 1024)), (''num2'', PFloat (Fin False 0 (-1074)))])" by simp
  have h2: "map_of [(''num1'', PInt (2 ^ 1024)), (''num2'', PFloat (Fin False 0 (-1074)))] ''num1'' = Some (PInt (2 ^ 1024))"
    by simp
  have h3: "map_of [(''num1'', PInt (2 ^ 1024)), (''num2'', PFloat (Fin False 0 (-1074)))] ''num2'' = Some (PFloat (Fin False 0 (-1074)))"
    by simp
  have h4: "2 ^ 1024 \<le> \<bar>(2::int) ^ 1024\<bar>" by simp
  show ?thesis using h1 h2 h3 h4 main_add_huge_int_500 [OF h1 h2 h3 h4] by blast
qed

text \<open>
  C16: In \<open>app.py\<close>, an \<open>int\<close> operand \<open>num1\<close> of magnitude at least \<open>2^1024\<close>
  (a well-formed JSON number) is answered with 400 "Invalid input type", for every
  operation: \<open>float()\<close> raises \<open>OverflowError\<close> inside the \<open>try\<close> block.
\<close>

theorem app_huge_int_invalid:
  assumes "get_json req = Inr (PDict kvs)"
    and "map_of kvs ''num1'' = Some (PInt m)" "map_of kvs ''num2'' = Some v2"
    and "2 ^ 1024 \<le> \<bar>m\<bar>"
  shows "process_arithmetic_request op req = Inr (error_json ''Invalid input type'' 400)"
  using process_first_operand_fails [OF assms(1-3), of OverflowError] py_float_of_int_overflow [OF assms(4)]
  by simp

theorem app_huge_int_invalid_witness:
  "get_json (client_post_json ''/add'' (PDict [(''num1'', PInt (10 ^ 400)), (''num2'', PInt 1)])) =
     Inr (PDict [(''num1'', PInt (10 ^ 400)), (''num2'', PInt 1)]) \<and>
   map_of [(''num1'', PInt (10 ^ 400)), (''num2'', PInt 1)] ''num1'' = Some (PInt (10 ^ 400)) \<and>
   map_of [(''num1'', PInt (10 ^ 400)), (''num2'', PInt 1)] ''num2'' = Some (PInt 1) \<and>
   2 ^ 1024 \<le> \<bar>(10::int) ^ 400\<bar> \<and>
   process_arithmetic_request ''add'' (client_post_json ''/add'' (PDict [(''num1'', PInt (10 ^ 400)), (''num2'', PInt 1)])) =
     Inr (error_json ''Invalid input type'' 400)"
proof -
  have h1: "get_json (client_post_json ''/add'' (PDict [(''num1'', PInt (10 ^ 400)), (''num2'', PInt 1)])) =
     Inr (PDict [(''num1'', PInt (10 ^ 400)), (''num2'', PInt 1)])" by simp
  have h2: "map_of [(''num1'', PInt (10 ^ 400)), (''num2'', PInt 1)] ''num1'' = Some (PInt (10 ^ 400))" by simp
  have h3: "map_of [(''num1'', PInt (10 ^ 400)), (''num2'', PInt 1)] ''num2'' = Some (PInt 1)" by simp
  have h4: "2 ^ 1024 \<le> \<bar>(10::int) ^ 400\<bar>" by simp
  show ?thesis using h1 h2 h3 h4 app_huge_int_invalid [OF h1 h2 h3 h4] by blast
qed


section \<open>The tests of test_app.py\<close>





section \<open>Validation in the strict variant\<close>

text \<open>
  C21: \<open>main.py\<close> takes JSON booleans as numbers (\<open>bool\<close> is a subclass of
  \<open>int\<close>): \<open>/add\<close> on the booleans \<open>a\<close> and \<open>b\<close> answers 200 with the \<open>int\<close>
  \<open>a + b\<close> counting \<open>true\<close> as 1.
\<close>

theorem main_add_bools:
  assumes "get_json req = Inr (PDict kvs)"
    and "map_of kvs ''num1'' = Some (PBool a)" "map_of kvs ''num2'' = Some (PBool b)"
  shows "main_add req = Inr (json_response (PDict [(''result'', PInt (of_bool a + of_bool b))]) 200)"
  using main_add_numeric [OF assms] by (simp add: py_add_def)

theorem main_add_bools_witness:
  "get_json (client_post_json ''/add'' (PDict [(''num1'', PBool True), (''num2'', PBool True)])) =
     Inr (PDict [(''num1'', PBool True), (''num2'', PBool True)]) \<and>
   map_of [(''num1'', PBool True), (''num2'', PBool True)] ''num1'' = Some (PBool True) \<and>
   map_of [(''num1'', PBool True), (''num2'', PBool True)] ''num2'' = Some (PBool True) \<and>
   main_add (client_post_json ''/add'' (PDict [(''num1'', PBool True), (''num2'', PBool True)])) =
     Inr (json_response (PDict [(''result'', PInt 2)]) 200)"
proof -
  have h1: "get_json (client_post_json ''/add'' (PDict [(''num1'', PBool True), (''num2'', PBool True)])) =
     Inr (PDict [(''num1'', PBool True), (''num2'', PBool True)])" by simp
  have h2: "map_of [(''num1'', PBool True), (''num2'', PBool True)] ''num1'' = Some (PBool True)" by simp
  have h3: "map_of [(''num1'', PBool True), (''num2'', PBool True)] ''num2'' = Some (PBool True)" by simp
  show ?thesis using h1 h2 h3 main_add_bools [OF h1 h2 h3] by simp
qed

text \<open>
  C22: On a JSON object in which an operand is missing or is not a number (a string,
  \<open>null\<close>, an array or an object), every view of \<open>main.py\<close> answers 400 "Invalid
  input, please provide numbers.".
\<close>

theorem main_rejects_non_numbers:
  assumes "get_json req = Inr (PDict kvs)"
    and "\<not> py_isinstance_num (case map_of kvs ''num1'' of Some v \<Rightarrow> v | None \<Rightarrow> PNone) \<or>
         \<not> py_isinstance_num (case map_of kvs ''num2'' of Some v \<Rightarrow> v | None \<Rightarrow> PNone)"
  shows "main_add req = Inr (error_json invalid_numbers_msg 400) \<and>
         main_subtract req = Inr (error_json invalid_numbers_msg 400) \<and>
         main_multiply req = Inr (error_json invalid_numbers_msg 400) \<and>
         main_divide req = Inr (error_json invalid_numbers_msg 400)"
  using assms by (simp add: main_add_def main_subtract_def main_multiply_def main_divide_def)

theorem main_rejects_non_numbers_witness:
  "get_json (client_post_json ''/add'' (PDict [(''num1'', PStr ''10''), (''num2'', PInt 5)])) =
     Inr (PDict [(''num1'', PStr ''10''), (''num2'', PInt 5)]) \<and>
   py_isinstance_num (case map_of [(''num1'', PStr ''10''), (''num2'', PInt 5)] ''num1'' of Some v \<Rightarrow> v | None \<Rightarrow> PNone) = False \<and>
   main_add (client_post_json ''/add'' (PDict [(''num1'', PStr ''10''), (''num2'', PInt 5)])) =
     Inr (error_json invalid_numbers_msg 400)"
proof -
  have h1: "get_json (client_post_json ''/add'' (PDict [(''num1'', PStr ''10''), (''num2'', PInt 5)])) =
     Inr (PDict [(''num1'', PStr ''10''), (''num2'', PInt 5)])" by simp
  have h0: "py_isinstance_num (case map_of [(''num1'', PStr ''10''), (''num2'', PInt 5)] ''num1'' of Some v \<Rightarrow> v | None \<Rightarrow> PNone) = False"
    by simp
  then have h2: "\<not> py_isinstance_num (case map_of [(''num1'', PStr ''10''), (''num2'', PInt 5)] ''num1'' of Some v \<Rightarrow> v | None \<Rightarrow> PNone) \<or>
    \<not> py_isinstance_num (case map_of [(''num1'', PStr ''10''), (''num2'', PInt 5)] ''num2'' of Some v \<Rightarrow> v | None \<Rightarrow> PNone)"
    by simp
  show ?thesis using h1 h0 main_rejects_non_numbers [OF h1 h2] by blast
qed

section \<open>Validation and routing in the permissive variant\<close>

text \<open>
  C23: For a JSON body that is falsy (\<open>{}\<close>, \<open>[]\<close>, \<open>""\<close>, \<open>0\<close>, \<open>false\<close>,
  \<open>null\<close>) or an object lacking \<open>num1\<close> or \<open>num2\<close>, every operation of
  \<open>app.py\<close> answers 400 "Missing num1 or num2 in JSON payload".
\<close>

theorem app_missing_operand:
  assumes "get_json req = Inr v"
    and "\<not> py_truthy v \<or> (\<exists>kvs. v = PDict kvs \<and> (map_of kvs ''num1'' = None \<or> map_of kvs ''num2'' = None))"
  shows "process_arithmetic_request op req = Inr (error_json ''Missing num1 or num2 in JSON payload'' 400)"
proof -
  have "missing_operands v = Inr True"
    using assms(2) by (auto simp: missing_operands_def map_of_eq_None_iff)
  with assms(1) show ?thesis by (simp add: process_arithmetic_request_def)
qed

theorem app_missing_operand_witness:
  "get_json (client_post_json ''/add'' (PDict [(''num1'', PInt 1)])) = Inr (PDict [(''num1'', PInt 1)]) \<and>
   map_of [(''num1'', PInt 1)] ''num2'' = None \<and>
   process_arithmetic_request ''add'' (client_post_json ''/add'' (PDict [(''num1'', PInt 1)])) =
     Inr (error_json ''Missing num1 or num2 in JSON payload'' 400)"
proof -
  have h1: "get_json (client_post_json ''/add'' (PDict [(''num1'', PInt 1)])) = Inr (PDict [(''num1'', PInt 1)])"
    by simp
  have h0: "map_of [(''num1'', PInt 1)] ''num2'' = None" by simp
  then have h2: "\<not> py_truthy (PDict [(''num1'', PInt 1)]) \<or>
    (\<exists>kvs. PDict [(''num1'', PInt 1)] = PDict kvs \<and> (map_of kvs ''num1'' = None \<or> map_of kvs ''num2'' = None))"
    by blast
  show ?thesis using h1 h0 app_missing_operand [OF h1 h2] by blast
qed

text \<open>
  C24: A POST to an operation route of \<open>app.py\<close> whose body is not declared as JSON
  is answered 415 by \<open>request.get_json()\<close>, not with a JSON error.
\<close>

theorem app_non_json_415:
  assumes "req_method r = POST" "req_path r \<in> {''/add'', ''/subtract'', ''/multiply'', ''/divide''}"
    and "\<not> req_is_json r"
  shows "status (app_app r) = 415"
proof -
  from assms(2) have "req_path r = ''/add'' \<or> req_path r = ''/subtract'' \<or>
      req_path r = ''/multiply'' \<or> req_path r = ''/divide''" by simp
  then show ?thesis
    using assms(1,3)
    by (elim disjE) (simp_all add: app_app_def dispatch_def app_routes_def route_allows_def
        app_add_def app_subtract_def app_multiply_def app_divide_def process_arithmetic_request_def
        get_json_def)
qed

theorem app_non_json_415_witness:
  "req_method \<lparr>req_method = POST, req_path = ''/add'', req_is_json = False, req_body = None\<rparr> = POST \<and>
   req_path \<lparr>req_method = POST, req_path = ''/add'', req_is_json = False, req_body = None\<rparr>
     \<in> {''/add'', ''/subtract'', ''/multiply'', ''/divide''} \<and>
   \<not> req_is_json \<lparr>req_method = POST, req_path = ''/add'', req_is_json = False, req_body = None\<rparr> \<and>
   status (app_app \<lparr>req_method = POST, req_path = ''/add'', req_is_json = False, req_body = None\<rparr>) = 415"
proof -
  let ?r = "\<lparr>req_method = POST, req_path = ''/add'', req_is_json = False, req_body = None\<rparr>"
  have h1: "req_method ?r = POST" by simp
  have h2: "req_path ?r \<in> {''/add'', ''/subtract'', ''/multiply'', ''/divide''}" by simp
  have h3: "\<not> req_is_json ?r" by simp
  show ?thesis using h1 h2 h3 app_non_json_415 [OF h1 h2 h3] by blast
qed



text \<open>
  C26: \<open>float(s)\<close> of a non-empty string of ASCII digits is the binary64 nearest the
  integer the string spells, as \<open>float(int(s))\<close> would be, except that a string too
  large for a finite float gives \<open>inf\<close> where \<open>float(int)\<close> raises \<open>OverflowError\<close>.
\<close>

theorem py_float_digit_string:
  assumes "s \<noteq> []" "list_all is_digit s"
  shows "py_float (PStr s) = Inr (float_of_int (digits_val s))"
  using parse_float_str_digits [OF assms] by simp

theorem py_float_digit_string_witness:
  "''42'' \<noteq> [] \<and> list_all is_digit ''42'' \<and> py_float (PStr ''42'') = Inr (float_of_int 42)"
proof -
  have h1: "''42'' \<noteq> []" by simp
  have h2: "list_all is_digit ''42''" by (simp add: is_digit_def)
  have "digits_val ''42'' = 42" by (simp add: digits_val_def is_digit_def)
  then show ?thesis using h1 h2 py_float_digit_string [OF h1 h2] by simp
qed

text \<open>
  A digit string whose value is at least \<open>2^1024\<close> converts with \<open>float()\<close> to
  \<open>inf\<close>, while the same value as a JSON integer makes \<open>float()\<close> raise
  \<open>OverflowError\<close>: \<open>process_arithmetic_request\<close> of \<open>app.py\<close> computes with the
  first and answers 400 'Invalid input type' for the second.
\<close>

theorem digit_string_beyond_float_range:
  assumes "s \<noteq> []" "list_all is_digit s" "2 ^ 1024 \<le> digits_val s"
  shows "py_float (PStr s) = Inr (Inf False) \<and> py_float (PInt (digits_val s)) = Inl OverflowError"
proof -
  have a: "2 ^ 1024 \<le> \<bar>digits_val s\<bar>" using assms(3) digits_val_nonneg [of s] by simp
  show ?thesis
    using parse_float_str_digits [OF assms(1,2)] float_of_int_overflow [OF a]
      py_float_of_int_overflow [OF a] digits_val_nonneg [of s] by simp
qed

theorem digit_string_beyond_float_range_witness:
  "CHR ''1'' # replicate 309 CHR ''0'' \<noteq> [] \<and> list_all is_digit (CHR ''1'' # replicate 309 CHR ''0'') \<and>
   2 ^ 1024 \<le> digits_val (CHR ''1'' # replicate 309 CHR ''0'') \<and>
   py_float (PStr (CHR ''1'' # replicate 309 CHR ''0'')) = Inr (Inf False) \<and>
   py_float (PInt (digits_val (CHR ''1'' # replicate 309 CHR ''0''))) = Inl OverflowError"
proof -
  have h1: "CHR ''1'' # replicate 309 CHR ''0'' \<noteq> []" by simp
  have h2: "list_all is_digit (CHR ''1'' # replicate 309 CHR ''0'')" by (simp add: is_digit_def list_all_iff)
  have h3: "(2::int) ^ 1024 \<le> digits_val (CHR ''1'' # replicate 309 CHR ''0'')" by code_simp
  show ?thesis using h1 h2 h3 digit_string_beyond_float_range [OF h1 h2 h3] by blast
qed
text \<open>
  C27: Rounding an exact value to binary64 is accurate: when the result is finite, it
  differs from the exact value by at most \<open>2^-53\<close> times its magnitude (half a unit
  in the last place of a normal result), or by at most \<open>2^-1075\<close> (half the smallest
  subnormal).
\<close>

theorem round_exact_error:
  assumes "is_finite (round_exact x)"
  shows "\<bar>fval (round_exact x) - exact_val x\<bar> \<le> max (\<bar>exact_val x\<bar> * 2 powi -53) (2 powi -1075)"
  using round_exact_rounds_to [OF assms] by (simp add: rounds_to_def)

theorem round_exact_error_witness:
  "is_finite (round_exact (Exact 1 10 0)) \<and>
   \<bar>fval (round_exact (Exact 1 10 0)) - exact_val (Exact 1 10 0)\<bar>
     \<le> max (\<bar>exact_val (Exact 1 10 0)\<bar> * 2 powi -53) (2 powi -1075)"
proof -
  have h: "is_finite (round_exact (Exact 1 10 0))" by code_simp
  show ?thesis using h round_exact_error [OF h] by blast
qed

text \<open>
  C28: Each binary64 operation the handlers perform is correctly rounded: for finite
  operands, a finite result of \<open>+\<close>, \<open>-\<close>, \<open>*\<close> or \<open>/\<close> is the exact sum,
  difference, product or quotient rounded within the IEEE error bound (\<open>rounds_to\<close>).
\<close>

theorem float_ops_round_correctly:
  assumes "is_finite x" "is_finite y"
  shows "(is_finite (float_add x y) \<longrightarrow> rounds_to (fval x + fval y) (float_add x y)) \<and>
         (is_finite (float_sub x y) \<longrightarrow> rounds_to (fval x - fval y) (float_sub x y)) \<and>
         (is_finite (float_mul x y) \<longrightarrow> rounds_to (fval x * fval y) (float_mul x y)) \<and>
         (float_truediv x y = Some z \<longrightarrow> is_finite z \<longrightarrow> rounds_to (fval x / fval y) z)"
  using assms float_add_rounds_to float_sub_rounds_to float_mul_rounds_to float_div_rounds_to [of x y]
  by (auto simp: float_truediv_def split: if_splits)

theorem float_ops_round_correctly_witness:
  "is_finite (Fin False 4503599627370496 (-52)) \<and> is_finite (Fin False 6755399441055744 (-51)) \<and>
   is_finite (float_add (Fin False 4503599627370496 (-52)) (Fin False 6755399441055744 (-51))) \<and>
   is_finite (float_sub (Fin False 4503599627370496 (-52)) (Fin False 6755399441055744 (-51))) \<and>
   is_finite (float_mul (Fin False 4503599627370496 (-52)) (Fin False 6755399441055744 (-51))) \<and>
   float_truediv (Fin False 4503599627370496 (-52)) (Fin False 6755399441055744 (-51))
     = Some (Fin False 6004799503160661 (-54)) \<and>
   is_finite (Fin False 6004799503160661 (-54)) \<and>
   rounds_to (fval (Fin False 4503599627370496 (-52)) / fval (Fin False 6755399441055744 (-51)))
     (Fin False 6004799503160661 (-54))"
proof -
  have h1: "is_finite (Fin False 4503599627370496 (-52))" "is_finite (Fin False 6755399441055744 (-51))"
    by simp_all
  have h2: "is_finite (float_add (Fin False 4503599627370496 (-52)) (Fin False 6755399441055744 (-51)))"
    "is_finite (float_sub (Fin False 4503599627370496 (-52)) (Fin False 6755399441055744 (-51)))"
    "is_finite (float_mul (Fin False 4503599627370496 (-52)) (Fin False 6755399441055744 (-51)))"
    by code_simp+
  have h3: "float_truediv (Fin False 4503599627370496 (-52)) (Fin False 6755399441055744 (-51))
     = Some (Fin False 6004799503160661 (-54))"
    by code_simp
  have h4: "is_finite (Fin False 6004799503160661 (-54))" by simp
  show ?thesis using h1 h2 h3 h4 float_ops_round_correctly [OF h1, of "Fin False 6004799503160661 (-54)"]
    by blast
qed

text \<open>
  C29: On finite operands, binary64 \<open>+\<close>, \<open>*\<close> and \<open>/\<close> are the reference rounding
  \<open>round64\<close> (IEEE round-to-nearest-even defined on the rationals) of the exact sum,
  product and quotient, with the IEEE sign of an exact zero, and \<open>/\<close> raises
  \<open>ZeroDivisionError\<close> (\<open>None\<close>) exactly on a zero divisor.
\<close>

theorem float_ops_refine_round64:
  "float_add (Fin s m e) (Fin t n f) =
     (if fval (Fin s m e) + fval (Fin t n f) = 0 then Fin (m = 0 \<and> n = 0 \<and> s \<and> t) 0 (-1074)
      else round64 (fval (Fin s m e) + fval (Fin t n f))) \<and>
   float_mul (Fin s m e) (Fin t n f) =
     (if m = 0 \<or> n = 0 then Fin (s \<noteq> t) 0 (-1074) else round64 (fval (Fin s m e) * fval (Fin t n f))) \<and>
   float_truediv (Fin s m e) (Fin t n f) =
     (if n = 0 then None
      else Some (if m = 0 then Fin (s \<noteq> t) 0 (-1074) else round64 (fval (Fin s m e) / fval (Fin t n f))))"
  by (simp only: float_add_fin float_mul_fin float_truediv_def float_div_fin float_is_zero.simps)

text \<open>
  C30: Binary64 addition and multiplication are commutative on all values, NaN,
  infinities and signed zeros included, so \<open>num1 + num2\<close> and \<open>num2 + num1\<close> give
  the same answer in \<open>calculate\<close>.
\<close>

theorem float_add_mul_commute:
  "float_add x y = float_add y x \<and> float_mul x y = float_mul y x"
proof
  show "float_add x y = float_add y x"
    by (cases x; cases y) (auto simp del: float_add.simps(7) simp add: float_add_fin add.commute)
  show "float_mul x y = float_mul y x"
    by (cases x; cases y) (auto simp del: float_mul.simps(7) simp add: float_mul_fin mult.commute)
qed

text \<open>
  C31: The two variants agree on \<open>int\<close> operands below \<open>2^53\<close> in magnitude: where
  \<open>main.py\<close> answers the exact integer sum, difference or product, \<open>app.py\<close> answers
  \<open>float\<close> of that integer (a zero product with operands of opposite signs being
  \<open>-0.0\<close>).
\<close>

theorem variants_agree_small_ints:
  assumes "get_json req = Inr (PDict kvs)"
    and "map_of kvs ''num1'' = Some (PInt m)" "map_of kvs ''num2'' = Some (PInt n)"
    and "\<bar>m\<bar> < 2 ^ 53" "\<bar>n\<bar> < 2 ^ 53"
  shows "main_add req = Inr (json_response (PDict [(''result'', PInt (m + n))]) 200) \<and>
    app_add req = Inr (json_response (PDict [(''operation'', PStr ''add''),
      (''result'', PFloat (float_of_int (m + n)))]) 200) \<and>
    main_subtract req = Inr (json_response (PDict [(''result'', PInt (m - n))]) 200) \<and>
    app_subtract req = Inr (json_response (PDict [(''operation'', PStr ''subtract''),
      (''result'', PFloat (float_of_int (m - n)))]) 200) \<and>
    main_multiply req = Inr (json_response (PDict [(''result'', PInt (m * n))]) 200) \<and>
    app_multiply req = Inr (json_response (PDict [(''operation'', PStr ''multiply''),
      (''result'', PFloat (if m = 0 \<or> n = 0 then Fin ((m < 0) \<noteq> (n < 0)) 0 (-1074)
                          else float_of_int (m * n)))]) 200)"
proof -
  have f: "py_float (PInt m) = Inr (float_of_int m)" "py_float (PInt n) = Inr (float_of_int n)"
    using py_float_of_int_small assms(4,5) by simp_all
  have i: "py_isinstance_num (PInt m)" "py_isinstance_num (PInt n)" by simp_all
  note app = process_operands [OF assms(1-3) f]
  note main = main_add_numeric [OF assms(1-3) i] main_subtract_numeric [OF assms(1-3) i]
    main_multiply_numeric [OF assms(1-3) i]
  show ?thesis
    using app main float_add_of_int [OF assms(4,5)] float_sub_of_int [OF assms(4,5)]
      float_mul_of_int [OF assms(4,5)]
    by (simp add: app_add_def app_subtract_def app_multiply_def calculate_def py_add_def py_sub_def py_mul_def)
qed

theorem variants_agree_small_ints_witness:
  "get_json (client_post_json ''/add'' (PDict [(''num1'', PInt 10), (''num2'', PInt (-3))])) =
     Inr (PDict [(''num1'', PInt 10), (''num2'', PInt (-3))]) \<and>
   map_of [(''num1'', PInt 10), (''num2'', PInt (-3))] ''num1'' = Some (PInt 10) \<and>
   map_of [(''num1'', PInt 10), (''num2'', PInt (-3))] ''num2'' = Some (PInt (-3)) \<and>
   \<bar>10::int\<bar> < 2 ^ 53 \<and> \<bar>-3::int\<bar> < 2 ^ 53 \<and>
   main_add (client_post_json ''/add'' (PDict [(''num1'', PInt 10), (''num2'', PInt (-3))])) =
     Inr (json_response (PDict [(''result'', PInt 7)]) 200) \<and>
   app_add (client_post_json ''/add'' (PDict [(''num1'', PInt 10), (''num2'', PInt (-3))])) =
     Inr (json_response (PDict [(''operation'', PStr ''add''), (''result'', PFloat (float_of_int 7))]) 200) \<and>
   app_multiply (client_post_json ''/add'' (PDict [(''num1'', PInt 10), (''num2'', PInt (-3))])) =
     Inr (json_response (PDict [(''operation'', PStr ''multiply''),
       (''result'', PFloat (float_of_int (-30)))]) 200)"
proof -
  have h1: "get_json (client_post_json ''/add'' (PDict [(''num1'', PInt 10), (''num2'', PInt (-3))])) =
     Inr (PDict [(''num1'', PInt 10), (''num2'', PInt (-3))])" by simp
  have h2: "map_of [(''num1'', PInt 10), (''num2'', PInt (-3))] ''num1'' = Some (PInt 10)"
    "map_of [(''num1'', PInt 10), (''num2'', PInt (-3))] ''num2'' = Some (PInt (-3))" by simp_all
  have h3: "\<bar>10::int\<bar> < 2 ^ 53" "\<bar>-3::int\<bar> < 2 ^ 53" by simp_all
  show ?thesis using h1 h2 h3 variants_agree_small_ints [OF h1 h2 h3] by simp
qed

text \<open>
  C32: The bytes \<open>app.py\<close> sends for a POST to \<open>/add\<close> whose operands \<open>float()\<close>
  accepts: status 200 and the JSON text \<open>{"operation":"add","result":R}\<close> followed by a
  newline, where \<open>R\<close> is what \<open>json.dumps\<close> writes for the binary64 sum (its
  shortest \<open>repr\<close>, or \<open>NaN\<close>/\<open>Infinity\<close>/\<open>-Infinity\<close>).
\<close>

theorem app_add_response_text:
  assumes "req_method req = POST" "req_path req = ''/add''"
    and "get_json req = Inr (PDict kvs)"
    and "map_of kvs ''num1'' = Some v1" "map_of kvs ''num2'' = Some v2"
    and "py_float v1 = Inr x" "py_float v2 = Inr y"
  shows "status (app_app req) = 200 \<and>
    response_data (app_app req) =
      Some (CHR ''{'' # json_str ''operation'' @ CHR '':'' # json_str ''add'' @ CHR '','' #
            json_str ''result'' @ CHR '':'' # json_float (float_add x y) @ ''}'' @ [CHR 0x0A])"
  using app_app_post(1) [OF assms(1,2)] process_operands [OF assms(3-7)] app_result_data [of "''add''"]
  by (simp add: app_add_def calculate_def json_response_def json_dumps_def)

theorem app_add_response_text_witness:
  "req_method (client_post_json ''/add'' add_payload) = POST \<and>
   req_path (client_post_json ''/add'' add_payload) = ''/add'' \<and>
   get_json (client_post_json ''/add'' add_payload) = Inr add_payload \<and>
   map_of [(''num1'', PInt 10), (''num2'', PInt 5)] ''num1'' = Some (PInt 10) \<and>
   map_of [(''num1'', PInt 10), (''num2'', PInt 5)] ''num2'' = Some (PInt 5) \<and>
   py_float (PInt 10) = Inr (float_of_int 10) \<and> py_float (PInt 5) = Inr (float_of_int 5) \<and>
   status (app_app (client_post_json ''/add'' add_payload)) = 200 \<and>
   response_data (app_app (client_post_json ''/add'' add_payload)) = Some (''{'' @ [CHR 0x22] @ ''operation'' @ [CHR 0x22] @ '':'' @ [CHR 0x22] @ ''add'' @ [CHR 0x22] @ '','' @ [CHR 0x22] @ ''result'' @ [CHR 0x22] @ '':15.0}'' @ [CHR 0x0A])"
proof -
  have p: "add_payload = PDict [(''num1'', PInt 10), (''num2'', PInt 5)]" by (simp add: add_payload_def)
  have h1: "req_method (client_post_json ''/add'' add_payload) = POST"
    "req_path (client_post_json ''/add'' add_payload) = ''/add''" by (simp_all add: client_post_json_def)
  have h2: "get_json (client_post_json ''/add'' add_payload) = Inr (PDict [(''num1'', PInt 10), (''num2'', PInt 5)])"
    by (simp add: p)
  have h3: "map_of [(''num1'', PInt 10), (''num2'', PInt 5)] ''num1'' = Some (PInt 10)"
    "map_of [(''num1'', PInt 10), (''num2'', PInt 5)] ''num2'' = Some (PInt 5)" by simp_all
  have h4: "py_float (PInt 10) = Inr (float_of_int 10)" "py_float (PInt 5) = Inr (float_of_int 5)"
    by (simp_all add: py_float_of_int_small)
  have t: "CHR ''{'' # json_str ''operation'' @ CHR '':'' # json_str ''add'' @ CHR '','' #
            json_str ''result'' @ CHR '':'' # json_float (float_add (float_of_int 10) (float_of_int 5)) @ ''}'' @ [CHR 0x0A]
           = (''{'' @ [CHR 0x22] @ ''operation'' @ [CHR 0x22] @ '':'' @ [CHR 0x22] @ ''add'' @ [CHR 0x22] @ '','' @ [CHR 0x22] @ ''result'' @ [CHR 0x22] @ '':15.0}'' @ [CHR 0x0A])" by code_simp
  show ?thesis using h1 h2 h3 h4 app_add_response_text [OF h1 h2 h3 h4] t by (simp add: p)
qed


text \<open>
  \<open>float()\<close> reads back the decimal text \<open>str(n)\<close> of every \<open>int\<close> as
  \<open>float(n)\<close>: the digit expansion \<open>int_repr\<close> and the parser of \<open>float(str)\<close> agree,
  negative numbers included.
\<close>

theorem float_str_int_roundtrip: "parse_float_str (int_repr n) = Some (float_of_int n)"
proof (cases "n < 0")
  case True
  have "0 \<le> - n" using True by simp
  note c = int_digits_correct [OF this]
  have "digits_val (int_digits (- n)) \<noteq> 0" using c True by simp
  then show ?thesis using parse_float_str_neg_digits [of "int_digits (- n)"] c True
    by (simp add: int_repr_def)
next
  case False
  then have "0 \<le> n" by simp
  note c = int_digits_correct [OF this]
  then show ?thesis using parse_float_str_digits [of "int_digits n"] False by (simp add: int_repr_def)
qed

text \<open>
  C34: \<open>float(repr(x))\<close> gives back \<open>x\<close> for every finite binary64 \<open>x\<close>: the decimal
  text that \<open>repr\<close> (and \<open>str\<close>, and the JSON encoder) prints for a float parses back,
  through the same parser as \<open>float(str)\<close>, to the float it was printed from, signed
  zeros, subnormals and both notations included.
\<close>

theorem float_repr_roundtrip:
  assumes "wf_float f" "is_finite f"
  shows "parse_float_str (float_repr f) = Some f"
  using assms by (rule parse_float_str_repr)

theorem float_repr_roundtrip_witness:
  "wf_float (Fin False 7205759403792794 (-56)) \<and> is_finite (Fin False 7205759403792794 (-56)) \<and>
   parse_float_str (float_repr (Fin False 7205759403792794 (-56))) = Some (Fin False 7205759403792794 (-56))"
  using float_repr_roundtrip [of "Fin False 7205759403792794 (-56)"] by simp

text \<open>
  C35: \<open>json.loads\<close>, as \<open>request.get_json()\<close> calls it on a request body, returns
  on every text: the scanner (\<open>json_scan\<close>, a recursion that is not structural) never
  runs forever, whatever the nesting of arrays and objects in the body.
\<close>

theorem json_loads_returns: "\<exists>res. json_loads s = Some res"
proof -
  obtain res where "json_scan ScanValue (skip_ws s) = Some res"
    using json_scan_returns [of ScanValue "skip_ws s"] by (auto simp: scan_ok_def)
  then show ?thesis by (simp add: json_loads_def)
qed





text \<open>
  C38: every JSON body \<open>app.py\<close> sends decodes, through \<open>rv.get_json()\<close> of the test
  client, back to the value its view passed to \<open>jsonify\<close> (dictionaries sorted by key):
  the result float arrives exactly, \<open>NaN\<close> and the infinities included.
\<close>

theorem app_json_body_decodes:
  assumes "body (app_app req) = JsonBody v"
  shows "\<exists>t. response_data (app_app req) = Some t \<and> json_loads t = Some (Inr (json_norm True v))"
  using json_loads_json_dumps [OF app_app_canonical [OF assms]] assms by simp

theorem app_json_body_decodes_witness:
  "body (app_app (client_post_json ''/add'' add_payload)) =
     JsonBody (PDict [(''operation'', PStr ''add''), (''result'', PFloat (Fin False 8444249301319680 (-49)))]) \<and>
   (\<exists>t. response_data (app_app (client_post_json ''/add'' add_payload)) = Some t \<and>
        json_loads t = Some (Inr (PDict [(''operation'', PStr ''add''), (''result'', PFloat (Fin False 8444249301319680 (-49)))])))"
proof -
  have h: "body (app_app (client_post_json ''/add'' add_payload)) =
     JsonBody (PDict [(''operation'', PStr ''add''), (''result'', PFloat (Fin False 8444249301319680 (-49)))])"
    by code_simp
  have n: "json_norm True (PDict [(''operation'', PStr ''add''), (''result'', PFloat (Fin False 8444249301319680 (-49)))]) =
     PDict [(''operation'', PStr ''add''), (''result'', PFloat (Fin False 8444249301319680 (-49)))]"
    by code_simp
  show ?thesis using h app_json_body_decodes [OF h] n by simp
qed

section \<open>The server started by app.run\<close>





end
